(* ===== verification/Prelude.thy ===== *)
theory Prelude
  imports Main "HOL-Library.Sublist"
begin

text \<open>
  Shared vocabulary of the development.

  A fallible Rust function \<open>fn f(..) -> Result<T, E>\<close> becomes a function into the sum
  \<open>'e + 'a\<close>: \<open>Inl e\<close> is \<open>Err(e)\<close> and \<open>Inr a\<close> is \<open>Ok(a)\<close>.  Error values are constructors
  of a datatype of the component, one per message of the source, carrying what the message
  interpolates.  \<open>rbind\<close> is the \<open>?\<close> operator, \<open>traverse\<close> is \<open>collect::<Result<Vec<_>, _>>()\<close>
  (or a \<open>for\<close> loop that pushes and returns at the first error) and \<open>check_each\<close> a \<open>for\<close>
  loop whose body only checks.

  \<open>dedup\<close> is the idiom \<open>filter(|id| seen.insert(*id))\<close> with a fresh \<open>HashSet\<close>: every id at
  its first position only; \<open>topk\<close> adds \<open>.take(k)\<close>.  The metrics, the comparison of dumps and
  the hybrid scores all cut their result pages this way.
\<close>

named_theorems result_simps \<open>equations that decide a chain of fallible steps\<close>

section \<open>Results\<close>

definition rbind :: "'e + 'a \<Rightarrow> ('a \<Rightarrow> 'e + 'b) \<Rightarrow> 'e + 'b" where
  "rbind r f = (case r of Inl e \<Rightarrow> Inl e | Inr a \<Rightarrow> f a)"

definition map_err :: "('e \<Rightarrow> 'f) \<Rightarrow> 'e + 'a \<Rightarrow> 'f + 'a" where
  "map_err g r = (case r of Inl e \<Rightarrow> Inl (g e) | Inr a \<Rightarrow> Inr a)"

definition ok_or :: "'e \<Rightarrow> 'a option \<Rightarrow> 'e + 'a" where
  "ok_or e x = (case x of None \<Rightarrow> Inl e | Some a \<Rightarrow> Inr a)"

definition is_ok :: "'e + 'a \<Rightarrow> bool" where
  "is_ok r = (case r of Inl _ \<Rightarrow> False | Inr _ \<Rightarrow> True)"

fun traverse :: "('a \<Rightarrow> 'e + 'b) \<Rightarrow> 'a list \<Rightarrow> 'e + 'b list" where
  "traverse f [] = Inr []"
| "traverse f (x # xs) = rbind (f x) (\<lambda>y. rbind (traverse f xs) (\<lambda>ys. Inr (y # ys)))"

fun check_each :: "('a \<Rightarrow> 'e + unit) \<Rightarrow> 'a list \<Rightarrow> 'e + unit" where
  "check_each f [] = Inr ()"
| "check_each f (x # xs) = rbind (f x) (\<lambda>_. check_each f xs)"

text \<open>A \<open>for\<close> loop that updates a state and returns at the first error.\<close>

fun ffold :: "('s \<Rightarrow> 'a \<Rightarrow> 'e + 's) \<Rightarrow> 's \<Rightarrow> 'a list \<Rightarrow> 'e + 's" where
  "ffold f s [] = Inr s"
| "ffold f s (x # xs) = rbind (f s x) (\<lambda>s'. ffold f s' xs)"

lemma rbind_simps [simp, result_simps]:
  "rbind (Inl e) f = Inl e" "rbind (Inr a) f = f a"
  by (simp_all add: rbind_def)

lemma rbind_Inr_iff [simp, result_simps]:
  "rbind r f = Inr b \<longleftrightarrow> (\<exists>a. r = Inr a \<and> f a = Inr b)"
  by (cases r) auto

lemma rbind_Inl_iff:
  "rbind r f = Inl e \<longleftrightarrow> r = Inl e \<or> (\<exists>a. r = Inr a \<and> f a = Inl e)"
  by (cases r) auto

lemma map_err_simps [simp, result_simps]:
  "map_err g (Inl e) = Inl (g e)" "map_err g (Inr a) = Inr a"
  by (simp_all add: map_err_def)

lemma map_err_Inr_iff [simp, result_simps]: "map_err g r = Inr a \<longleftrightarrow> r = Inr a"
  by (cases r) auto

lemma ok_or_simps [simp, result_simps]:
  "ok_or e None = Inl e" "ok_or e (Some a) = Inr a"
  by (simp_all add: ok_or_def)

lemma ok_or_Inr_iff [simp, result_simps]: "ok_or e x = Inr a \<longleftrightarrow> x = Some a"
  by (cases x) auto

lemma is_ok_simps [simp, result_simps]: "is_ok (Inl e) = False" "is_ok (Inr a) = True"
  by (simp_all add: is_ok_def)

lemma is_ok_iff: "is_ok r \<longleftrightarrow> (\<exists>a. r = Inr a)"
  by (cases r) auto

lemma is_ok_unit_iff: "is_ok (r :: 'e + unit) \<longleftrightarrow> r = Inr ()"
  by (cases r) auto

lemma traverse_Inr_iff:
  "traverse f xs = Inr ys \<longleftrightarrow> list_all2 (\<lambda>x y. f x = Inr y) xs ys"
  by (induction xs arbitrary: ys) (auto simp: list_all2_Cons1)

lemma traverse_InrD:
  assumes "traverse f xs = Inr ys"
  shows "length ys = length xs" and "\<And>i. i < length xs \<Longrightarrow> f (xs ! i) = Inr (ys ! i)"
  using assms by (auto simp: traverse_Inr_iff list_all2_conv_all_nth)

lemma is_ok_traverse_iff: "is_ok (traverse f xs) \<longleftrightarrow> (\<forall>x \<in> set xs. is_ok (f x))"
  by (induction xs) (auto simp: is_ok_iff)

lemma traverse_InlD: "traverse f xs = Inl e \<Longrightarrow> \<exists>x \<in> set xs. f x = Inl e"
  by (induction xs) (auto simp: rbind_Inl_iff)

lemma traverse_cong [fundef_cong]:
  "xs = ys \<Longrightarrow> (\<And>x. x \<in> set ys \<Longrightarrow> f x = g x) \<Longrightarrow> traverse f xs = traverse g ys"
  by (induction xs arbitrary: ys) auto

lemma check_each_Inr_iff [simp, result_simps]:
  "check_each f xs = Inr u \<longleftrightarrow> (\<forall>x \<in> set xs. f x = Inr ())"
  by (induction xs) auto

lemma check_each_InlD: "check_each f xs = Inl e \<Longrightarrow> \<exists>x \<in> set xs. f x = Inl e"
  by (induction xs) (auto simp: rbind_Inl_iff)

lemma check_each_cong [fundef_cong]:
  "xs = ys \<Longrightarrow> (\<And>x. x \<in> set ys \<Longrightarrow> f x = g x) \<Longrightarrow> check_each f xs = check_each g ys"
  by (induction xs arbitrary: ys) auto

lemma ffold_snoc: "ffold f s (xs @ [x]) = rbind (ffold f s xs) (\<lambda>s'. f s' x)"
proof (induction xs arbitrary: s)
  case Nil
  then show ?case by (cases "f s x") auto
next
  case (Cons y xs)
  then show ?case by (cases "f s y") auto
qed

section \<open>First occurrences\<close>

fun dedup_from :: "'a set \<Rightarrow> 'a list \<Rightarrow> 'a list" where
  "dedup_from seen [] = []"
| "dedup_from seen (x # xs) =
     (if x \<in> seen then dedup_from seen xs else x # dedup_from (insert x seen) xs)"

definition dedup :: "'a list \<Rightarrow> 'a list" where
  "dedup xs = dedup_from {} xs"

definition topk :: "nat \<Rightarrow> 'a list \<Rightarrow> 'a list" where
  "topk k xs = take k (dedup xs)"

lemma set_dedup_from: "set (dedup_from seen xs) = set xs - seen"
  by (induction xs arbitrary: seen) auto

lemma distinct_dedup_from: "distinct (dedup_from seen xs)"
  by (induction xs arbitrary: seen) (auto simp: set_dedup_from)

lemma dedup_from_id: "distinct xs \<Longrightarrow> set xs \<inter> seen = {} \<Longrightarrow> dedup_from seen xs = xs"
  by (induction xs arbitrary: seen) auto

lemma subseq_dedup_from: "subseq (dedup_from seen xs) xs"
  by (induction xs arbitrary: seen) auto

lemma set_dedup [simp]: "set (dedup xs) = set xs"
  by (simp add: dedup_def set_dedup_from)

lemma distinct_dedup [simp]: "distinct (dedup xs)"
  by (simp add: dedup_def distinct_dedup_from)

lemma dedup_id [simp]: "distinct xs \<Longrightarrow> dedup xs = xs"
  by (simp add: dedup_def dedup_from_id)

lemma length_dedup: "length (dedup xs) = card (set xs)"
  by (metis distinct_card distinct_dedup set_dedup)

lemma distinct_topk [simp]: "distinct (topk k xs)"
  by (simp add: topk_def)

lemma length_topk_le [simp]: "length (topk k xs) \<le> k"
  by (simp add: topk_def)

lemma set_topk_subset: "set (topk k xs) \<subseteq> set xs"
  unfolding topk_def by (metis set_dedup set_take_subset)

lemma topk_id: "distinct xs \<Longrightarrow> length xs \<le> k \<Longrightarrow> topk k xs = xs"
  by (simp add: topk_def)

lemma subseq_topk: "subseq (topk k xs) xs"
  unfolding topk_def dedup_def
  by (rule subseq_order.trans [OF prefix_imp_subseq [OF take_is_prefix] subseq_dedup_from])

section \<open>Counting hits\<close>

text \<open>\<open>iter().filter(|x| set.contains(x)).count()\<close>\<close>

definition count_in :: "'a set \<Rightarrow> 'a list \<Rightarrow> nat" where
  "count_in A xs = length (filter (\<lambda>x. x \<in> A) xs)"

lemma count_in_distinct: "distinct xs \<Longrightarrow> count_in A xs = card (set xs \<inter> A)"
  by (simp add: count_in_def distinct_length_filter Int_commute)

lemma count_in_le_length: "count_in A xs \<le> length xs"
  by (simp add: count_in_def)

lemma count_in_le_card: "distinct xs \<Longrightarrow> finite A \<Longrightarrow> count_in A xs \<le> card A"
  by (simp add: count_in_distinct card_mono)

lemma count_in_mono: "A \<subseteq> B \<Longrightarrow> count_in A xs \<le> count_in B xs"
  unfolding count_in_def by (induction xs) auto

lemma count_in_all: "set xs \<subseteq> A \<Longrightarrow> count_in A xs = length xs"
  unfolding count_in_def by (auto intro: arg_cong [where f = length] filter_True)

section \<open>Searching\<close>

lemma find_None_iff_all: "List.find P xs = None \<longleftrightarrow> (\<forall>x \<in> set xs. \<not> P x)"
  by (auto simp: find_None_iff)

lemma find_Some_mem: "List.find P xs = Some x \<Longrightarrow> x \<in> set xs \<and> P x"
  by (auto simp: find_Some_iff)

text \<open>\<open>iter().find_map(f)\<close>\<close>

fun find_map :: "('a \<Rightarrow> 'b option) \<Rightarrow> 'a list \<Rightarrow> 'b option" where
  "find_map f [] = None"
| "find_map f (x # xs) = (case f x of Some y \<Rightarrow> Some y | None \<Rightarrow> find_map f xs)"

lemma find_map_cong [fundef_cong]:
  "xs = ys \<Longrightarrow> (\<And>x. x \<in> set ys \<Longrightarrow> f x = g x) \<Longrightarrow> find_map f xs = find_map g ys"
  by (induction xs arbitrary: ys) (auto split: option.splits)

section \<open>Indexed loops\<close>

text \<open>\<open>iter().enumerate()\<close> is \<open>enumerate 0\<close>.\<close>

lemma set_enumerate_ball:
  "(\<forall>x \<in> set (enumerate n xs). P x) \<longleftrightarrow> (\<forall>i < length xs. P (n + i, xs ! i))"
  by (simp add: all_set_conv_all_nth nth_enumerate_eq)

section \<open>Unsigned integers\<close>

text \<open>\<open>u64::saturating_mul\<close> and \<open>u64::abs_diff\<close>.\<close>

definition saturating_mul :: "nat \<Rightarrow> nat \<Rightarrow> nat" where
  "saturating_mul a b = min (a * b) (2 ^ 64 - 1)"

definition abs_diff :: "nat \<Rightarrow> nat \<Rightarrow> nat" where
  "abs_diff a b = (if a < b then b - a else a - b)"

section \<open>Splitting at a separator\<close>

text \<open>\<open>split(|c| p(c))\<close>: the maximal pieces without a separator, one more than there are separators.\<close>

fun split_by :: "('a \<Rightarrow> bool) \<Rightarrow> 'a list \<Rightarrow> 'a list list" where
  "split_by P [] = [[]]"
| "split_by P (x # xs) = (if P x then [] # split_by P xs
     else case split_by P xs of [] \<Rightarrow> [[x]] | p # ps \<Rightarrow> (x # p) # ps)"

lemma split_at_last:
  assumes "xs @ c # ys = xs' @ c # ys'" "c \<notin> set ys" "c \<notin> set ys'"
  shows "xs = xs'" "ys = ys'"
proof -
  have tw: "takeWhile (\<lambda>x. x \<noteq> c) (rev as @ c # zs) = rev as" if "c \<notin> set as" for as zs
    using that by (subst takeWhile_append2) auto
  have "takeWhile (\<lambda>x. x \<noteq> c) (rev ys @ c # rev xs) = takeWhile (\<lambda>x. x \<noteq> c) (rev ys' @ c # rev xs')"
    using arg_cong[OF assms(1), of rev] by simp
  then have "rev ys = rev ys'" unfolding tw[OF assms(2)] tw[OF assms(3)] .
  then show "ys = ys'" by simp
  with assms(1) show "xs = xs'" by simp
qed

section \<open>Traversals of concatenations\<close>

lemma traverse_append:
  "traverse f (xs @ ys) = rbind (traverse f xs) (\<lambda>us. rbind (traverse f ys) (\<lambda>vs. Inr (us @ vs)))"
proof (induction xs)
  case Nil
  then show ?case by (cases "traverse f ys") auto
next
  case (Cons x xs)
  then show ?case by (cases "f x"; cases "traverse f xs"; cases "traverse f ys") auto
qed

end
