(* ===== verification/Workload.thy ===== *)
theory Workload
  imports Prelude
begin

text \<open>
  The query families ("workloads") of a search config, the index layouts they need, and the
  rules that decide before any download or connection whether an engine config may run them:
  \<open>src/src/workload.rs\<close>.  Types and functions keep the names of the source; the startup
  checks return \<open>workload_error + _\<close> where the source returns \<open>Result<_, String>\<close>.

  The three dispatch-point fingerprints (filter-only stats, full-text metadata, hybrid-rrf
  metadata) share one contract, the locale \<open>fingerprint\<close>: the check of an owner workload
  accepts a result exactly when the fingerprint is present on the owner's results and absent
  on every other's.
\<close>

section \<open>Workloads and layouts\<close>

datatype workload = Vector | Hybrid | Fulltext | FilterOnly | HybridRrf

datatype index_layout = VectorLayout | NoVector | Full

datatype workload_error =
    UnknownWorkload string
  | BothLayoutFlags
  | MixedLayouts workload workload string
  | NoCapture string workload
  | CalibrationParam nat workload
  | UpdateSearchRatio nat workload
  | NoResolvedWorkload nat nat
  | SkipVectorIndexConflict nat workload
  | NotImplemented workload string nat "workload list"
  | MissingSentinel string
  | UnexpectedSentinel workload string
  | MissingFulltextMetadata
  | UnexpectedFulltextMetadata workload
  | MissingFilterOnlyStats
  | UnexpectedFilterOnlyStats workload
  | SearchIdsNeedFulltext
  | SearchIdsWithGridFilters
  | DuplicateSearchId nat
  | SearchIdNotInGrid nat

definition ALL_workloads :: "workload list" where
  "ALL_workloads = [Vector, Hybrid, Fulltext, FilterOnly, HybridRrf]"

text \<open>\<open>#[derive(PartialOrd, Ord)]\<close>: workloads are ordered as they are declared.\<close>

fun workload_index :: "workload \<Rightarrow> nat" where
  "workload_index Vector = 0"
| "workload_index Hybrid = 1"
| "workload_index Fulltext = 2"
| "workload_index FilterOnly = 3"
| "workload_index HybridRrf = 4"

lemma workload_index_inject [simp]: "workload_index v = workload_index w \<longleftrightarrow> v = w"
  by (cases v; cases w) auto

instantiation workload :: linorder
begin

definition less_eq_workload :: "workload \<Rightarrow> workload \<Rightarrow> bool" where
  "less_eq_workload v w = (workload_index v \<le> workload_index w)"

definition less_workload :: "workload \<Rightarrow> workload \<Rightarrow> bool" where
  "less_workload v w = (workload_index v < workload_index w)"

instance
  by standard (auto simp: less_eq_workload_def less_workload_def)

end

fun as_str :: "workload \<Rightarrow> string" where
  "as_str Vector = ''vector''"
| "as_str Hybrid = ''hybrid''"
| "as_str Fulltext = ''fulltext''"
| "as_str FilterOnly = ''filter-only''"
| "as_str HybridRrf = ''hybrid-rrf''"

definition has_ground_truth :: "workload \<Rightarrow> bool" where
  "has_ground_truth w = (case w of Vector \<Rightarrow> True | Hybrid \<Rightarrow> True | HybridRrf \<Rightarrow> True | _ \<Rightarrow> False)"

definition uses_text_index :: "workload \<Rightarrow> bool" where
  "uses_text_index w = (case w of Fulltext \<Rightarrow> True | HybridRrf \<Rightarrow> True | _ \<Rightarrow> False)"

definition is_ranked :: "workload \<Rightarrow> bool" where
  "is_ranked w = (case w of FilterOnly \<Rightarrow> False | _ \<Rightarrow> True)"

fun required_layout :: "workload \<Rightarrow> index_layout" where
  "required_layout FilterOnly = NoVector"
| "required_layout Vector = VectorLayout"
| "required_layout Hybrid = VectorLayout"
| "required_layout Fulltext = VectorLayout"
| "required_layout HybridRrf = VectorLayout"

definition from_str :: "string \<Rightarrow> workload_error + workload" where
  "from_str s = ok_or (UnknownWorkload s) (List.find (\<lambda>w. as_str w = s) ALL_workloads)"

fun layout_as_str :: "index_layout \<Rightarrow> string" where
  "layout_as_str VectorLayout = ''vector''"
| "layout_as_str NoVector = ''no-vector''"
| "layout_as_str Full = ''full''"

definition serves :: "index_layout \<Rightarrow> workload \<Rightarrow> bool" where
  "serves l w = (l = Full \<or> required_layout w = l)"

fun layout_from_flags :: "bool \<Rightarrow> bool \<Rightarrow> workload_error + index_layout" where
  "layout_from_flags True True = Inl BothLayoutFlags"
| "layout_from_flags True False = Inr NoVector"
| "layout_from_flags False True = Inr Full"
| "layout_from_flags False False = Inr VectorLayout"

definition supports_full_layout :: "string \<Rightarrow> bool" where
  "supports_full_layout engine_type = (engine_type = ''redis'' \<or> engine_type = ''opensearch'')"

definition combine_layouts :: "string \<Rightarrow> workload list \<Rightarrow> workload_error + index_layout" where
  "combine_layouts engine_type ws =
     (let needing = (\<lambda>l. List.find (\<lambda>w. required_layout w = l) ws) in
      case (needing VectorLayout, needing NoVector) of
        (Some v, Some nv) \<Rightarrow>
          (if supports_full_layout engine_type then Inr Full
           else Inl (MixedLayouts v nv engine_type))
      | (None, Some _) \<Rightarrow> Inr NoVector
      | (_, None) \<Rightarrow> Inr VectorLayout)"

section \<open>What each engine implements\<close>

definition implemented :: "string \<Rightarrow> workload list" where
  "implemented engine_type =
     (if engine_type = ''redis'' \<or> engine_type = ''opensearch''
      then [Vector, Hybrid, FilterOnly, Fulltext, HybridRrf] else [Vector])"

definition captures :: "string \<Rightarrow> workload \<Rightarrow> bool" where
  "captures engine_type w =
     ((engine_type = ''redis'' \<or> engine_type = ''opensearch'') \<and>
      (case w of Vector \<Rightarrow> True | Hybrid \<Rightarrow> True | FilterOnly \<Rightarrow> True | Fulltext \<Rightarrow> True
       | HybridRrf \<Rightarrow> True))"

definition legacy_filter_only :: "string \<Rightarrow> bool" where
  "legacy_filter_only engine_type = (engine_type = ''valkey'' \<or> engine_type = ''mongodb'')"

definition supports_skip_vector_index :: "string \<Rightarrow> bool" where
  "supports_skip_vector_index engine_type =
     (FilterOnly \<in> set (implemented engine_type) \<or> legacy_filter_only engine_type)"

definition dispatchable :: "string \<Rightarrow> workload \<Rightarrow> bool" where
  "dispatchable engine_type w =
     (w \<in> set (implemented engine_type) \<or> (w = FilterOnly \<and> legacy_filter_only engine_type))"

section \<open>The plan\<close>

record workload_plan =
  engine_type :: string
  layout :: index_layout
  workloads :: "workload list"

definition workload_of :: "workload_plan \<Rightarrow> nat \<Rightarrow> workload_error + workload" where
  "workload_of p search_id =
     (if search_id < length (workloads p) then Inr (workloads p ! search_id)
      else Inl (NoResolvedWorkload search_id (length (workloads p))))"

text \<open>One turn of the loop of \<open>plan\<close>: resolve search config \<open>i\<close>, then check it is allowed.\<close>

definition plan_config ::
    "string \<Rightarrow> bool \<Rightarrow> nat \<times> workload option \<Rightarrow> workload_error + workload" where
  "plan_config et skip_vector_index = (\<lambda>(i, d).
     rbind
       (case (skip_vector_index, d) of
          (True, Some w) \<Rightarrow>
            (if w \<noteq> FilterOnly then Inl (SkipVectorIndexConflict i w) else Inr FilterOnly)
        | (True, None) \<Rightarrow> Inr FilterOnly
        | (False, Some w) \<Rightarrow> Inr w
        | (False, None) \<Rightarrow> Inr Vector)
       (\<lambda>w. let allowed = (if skip_vector_index then supports_skip_vector_index et
                           else w \<in> set (implemented et))
            in if \<not> allowed then Inl (NotImplemented w et i (implemented et)) else Inr w))"

definition plan ::
    "string \<Rightarrow> workload option list \<Rightarrow> bool \<Rightarrow> workload_error + workload_plan" where
  "plan et declared skip_vector_index =
     rbind (traverse (plan_config et skip_vector_index) (enumerate 0 declared)) (\<lambda>ws.
     rbind (if skip_vector_index then Inr NoVector else combine_layouts et ws) (\<lambda>l.
     Inr \<lparr>engine_type = et, layout = l, workloads = ws\<rparr>))"

definition check_capture :: "workload_plan \<Rightarrow> workload_error + unit" where
  "check_capture p =
     (case List.find (\<lambda>w. \<not> captures (engine_type p) w) (workloads p) of
        Some w \<Rightarrow> Inl (NoCapture (engine_type p) w)
      | None \<Rightarrow> Inr ())"

definition check_calibration ::
    "workload_plan \<Rightarrow> bool list \<Rightarrow> bool \<Rightarrow> workload_error + unit" where
  "check_calibration p calibration_declared skip_vector_index =
     check_each (\<lambda>(i, (w, declared)).
         if declared \<and> w \<noteq> Vector \<and> \<not> skip_vector_index then Inl (CalibrationParam i w)
         else Inr ())
       (enumerate 0 (zip (workloads p) calibration_declared))"

definition ef_runtime_keeps :: "workload \<Rightarrow> int option \<Rightarrow> int list \<Rightarrow> bool" where
  "ef_runtime_keeps w ef ef_filter =
     (if ef_filter = [] \<or> w = FilterOnly then True
      else (case ef of None \<Rightarrow> True | Some e \<Rightarrow> e \<in> set ef_filter))"

definition check_update_search_ratio :: "workload_plan \<Rightarrow> bool \<Rightarrow> workload_error + unit" where
  "check_update_search_ratio p has_ratio =
     (if \<not> has_ratio \<or> (layout p = NoVector \<and> list_all (\<lambda>w. w = FilterOnly) (workloads p))
      then Inr ()
      else (case List.find (\<lambda>(i, w). w \<noteq> Vector) (enumerate 0 (workloads p)) of
              Some (i, w) \<Rightarrow> Inl (UpdateSearchRatio i w)
            | None \<Rightarrow> Inr ()))"

section \<open>Fingerprints at the dispatch point\<close>

definition verify_result_shape :: "workload \<Rightarrow> bool \<Rightarrow> workload_error + unit" where
  "verify_result_shape w filter_only_stats =
     (if w = FilterOnly \<and> \<not> filter_only_stats then Inl MissingFilterOnlyStats
      else if filter_only_stats \<and> w \<noteq> FilterOnly then Inl (UnexpectedFilterOnlyStats w)
      else Inr ())"

definition verify_engine_result_shape ::
    "string \<Rightarrow> workload \<Rightarrow> bool \<Rightarrow> bool \<Rightarrow> workload_error + unit" where
  "verify_engine_result_shape et w filter_only_stats precision_sentinel =
     (if \<not> legacy_filter_only et then verify_result_shape w filter_only_stats
      else if w = FilterOnly \<and> \<not> precision_sentinel then Inl (MissingSentinel et)
      else if precision_sentinel \<and> w \<noteq> FilterOnly then Inl (UnexpectedSentinel w et)
      else Inr ())"

definition verify_fulltext_shape :: "workload \<Rightarrow> bool \<Rightarrow> workload_error + unit" where
  "verify_fulltext_shape w fulltext_metadata =
     (if w = Fulltext \<and> \<not> fulltext_metadata then Inl MissingFulltextMetadata
      else if fulltext_metadata \<and> w \<noteq> Fulltext then Inl (UnexpectedFulltextMetadata w)
      else Inr ())"

section \<open>Selecting search configs by id\<close>

definition check_search_id_workloads :: "nat list \<Rightarrow> workload_plan \<Rightarrow> workload_error + unit" where
  "check_search_id_workloads ids p =
     (if ids \<noteq> [] \<and> \<not> list_all (\<lambda>w. w = Fulltext) (workloads p)
      then Inl SearchIdsNeedFulltext else Inr ())"

definition check_search_id_filters :: "nat list \<Rightarrow> bool \<Rightarrow> bool \<Rightarrow> workload_error + unit" where
  "check_search_id_filters ids parallels ef_runtime =
     (if ids \<noteq> [] \<and> (parallels \<or> ef_runtime) then Inl SearchIdsWithGridFilters else Inr ())"

text \<open>The loop of \<open>select_search_ids\<close>; the accumulated set is the source's \<open>unique\<close>.\<close>

fun collect_search_ids :: "nat list \<Rightarrow> nat set \<Rightarrow> nat list \<Rightarrow> workload_error + nat set" where
  "collect_search_ids available unique [] = Inr unique"
| "collect_search_ids available unique (i # requested) =
     (if i \<in> unique then Inl (DuplicateSearchId i)
      else if i \<notin> set available then Inl (SearchIdNotInGrid i)
      else collect_search_ids available (insert i unique) requested)"

definition select_search_ids :: "nat list \<Rightarrow> nat list \<Rightarrow> workload_error + nat list" where
  "select_search_ids available requested =
     rbind (collect_search_ids available {} requested) (\<lambda>unique.
     Inr (filter (\<lambda>i. requested = [] \<or> i \<in> unique) available))"

section \<open>Laws of the tables\<close>

lemma ALL_workloads_complete [simp]: "w \<in> set ALL_workloads"
  by (cases w) (simp_all add: ALL_workloads_def)

lemma as_str_inject [simp]: "as_str v = as_str w \<longleftrightarrow> v = w"
  by (cases v; cases w) auto

lemma find_workload: "List.find (\<lambda>w. w = v) ALL_workloads = Some v"
  by (cases v) (simp_all add: ALL_workloads_def)

lemma required_layout_cases: "required_layout w = (if w = FilterOnly then NoVector else VectorLayout)"
  by (cases w) simp_all

lemma implemented_cases:
  "set (implemented et) = (if supports_full_layout et then UNIV else {Vector})"
  by (auto simp: implemented_def supports_full_layout_def intro: workload.exhaust)

lemma Vector_implemented [simp]: "Vector \<in> set (implemented et)"
  by (simp add: implemented_def)

lemma captures_iff: "captures et w \<longleftrightarrow> supports_full_layout et"
  by (cases w) (simp_all add: captures_def supports_full_layout_def)

lemma dispatchable_iff:
  "dispatchable et w \<longleftrightarrow>
     w = Vector \<or> supports_full_layout et \<or> (w = FilterOnly \<and> legacy_filter_only et)"
  by (auto simp: dispatchable_def implemented_cases)

section \<open>Combining layouts\<close>

lemma find_layout_None:
  "List.find (\<lambda>w. required_layout w = l) ws = None \<longleftrightarrow> (\<forall>w \<in> set ws. required_layout w \<noteq> l)"
  by (rule find_None_iff_all)

lemma combine_layouts_Inr:
  "combine_layouts et ws = Inr l \<longleftrightarrow>
     (if (\<exists>w \<in> set ws. required_layout w = VectorLayout) \<and> FilterOnly \<in> set ws
      then supports_full_layout et \<and> l = Full
      else l = (if FilterOnly \<in> set ws then NoVector else VectorLayout))"
  (is "?lhs \<longleftrightarrow> ?rhs")
proof -
  have v: "List.find (\<lambda>w. required_layout w = VectorLayout) ws = None
      \<longleftrightarrow> \<not> (\<exists>w \<in> set ws. required_layout w = VectorLayout)"
    by (simp add: find_layout_None)
  have nv: "List.find (\<lambda>w. required_layout w = NoVector) ws = None \<longleftrightarrow> FilterOnly \<notin> set ws"
    unfolding find_layout_None by (auto simp: required_layout_cases split: if_splits)
  show ?thesis
    unfolding combine_layouts_def Let_def using v nv
    by (auto split: option.splits)
qed

lemma combine_layouts_serves:
  "combine_layouts et ws = Inr l \<Longrightarrow> w \<in> set ws \<Longrightarrow> serves l w"
  unfolding combine_layouts_Inr serves_def required_layout_cases
  by (auto split: if_splits)

lemma is_ok_combine_layouts:
  "is_ok (combine_layouts et ws) \<longleftrightarrow>
     supports_full_layout et \<or> FilterOnly \<notin> set ws \<or> set ws \<subseteq> {FilterOnly}"
  unfolding is_ok_iff combine_layouts_Inr required_layout_cases by auto

section \<open>Resolving one search config\<close>

fun resolved :: "bool \<Rightarrow> workload option \<Rightarrow> workload" where
  "resolved True d = FilterOnly"
| "resolved False None = Vector"
| "resolved False (Some w) = w"

lemma plan_config_Inr:
  "plan_config et skip (i, d) = Inr w \<longleftrightarrow>
     w = resolved skip d \<and>
     (if skip then d \<in> {None, Some FilterOnly} \<and> supports_skip_vector_index et
      else w \<in> set (implemented et))"
  by (cases skip; cases d) (auto simp: plan_config_def Let_def split: if_splits)

lemma is_ok_plan_config:
  "is_ok (plan_config et skip (i, d)) \<longleftrightarrow>
     (if skip then d \<in> {None, Some FilterOnly} \<and> supports_skip_vector_index et
      else resolved skip d \<in> set (implemented et))"
  unfolding is_ok_iff plan_config_Inr by auto

lemma traverse_plan_config_Inr:
  assumes "traverse (plan_config et skip) (enumerate n declared) = Inr ws"
  shows "ws = map (resolved skip) declared"
proof (rule nth_equalityI)
  from traverse_InrD(1) [OF assms] show len: "length ws = length (map (resolved skip) declared)"
    by simp
  fix i assume "i < length ws"
  with traverse_InrD(2) [OF assms, of i] len
  show "ws ! i = map (resolved skip) declared ! i"
    by (simp add: nth_enumerate_eq plan_config_Inr)
qed

lemma is_ok_traverse_plan_config:
  "is_ok (traverse (plan_config et skip) (enumerate 0 declared)) \<longleftrightarrow>
     (\<forall>d \<in> set declared.
        if skip then d \<in> {None, Some FilterOnly} \<and> supports_skip_vector_index et
        else resolved skip d \<in> set (implemented et))"
  unfolding is_ok_traverse_iff set_enumerate_ball is_ok_plan_config
  by (simp add: all_set_conv_all_nth)

lemma plan_Inr:
  "plan et declared skip = Inr p \<Longrightarrow>
     engine_type p = et \<and> workloads p = map (resolved skip) declared \<and>
     (if skip then layout p = NoVector else combine_layouts et (workloads p) = Inr (layout p))"
  by (auto simp: plan_def dest: traverse_plan_config_Inr split: if_splits)

section \<open>The contract of a fingerprint check\<close>

locale fingerprint =
  fixes owner :: workload
    and verify :: "workload \<Rightarrow> bool \<Rightarrow> 'e + unit"
  assumes verify_iff: "verify w present = Inr () \<longleftrightarrow> (present \<longleftrightarrow> w = owner)"
begin

lemma accepted_owner: "verify w True = Inr u \<longleftrightarrow> w = owner"
  using verify_iff [of w True] by simp

lemma accepted_other: "verify w False = Inr u \<longleftrightarrow> w \<noteq> owner"
  using verify_iff [of w False] by simp

lemma relabel: "verify v present = Inr () \<Longrightarrow> verify w present = Inr () \<Longrightarrow> v = owner \<longleftrightarrow> w = owner"
  by (simp add: verify_iff)

end

interpretation filter_only_stats: fingerprint FilterOnly verify_result_shape
  by unfold_locales (auto simp: verify_result_shape_def)

interpretation fulltext_metadata: fingerprint Fulltext verify_fulltext_shape
  by unfold_locales (auto simp: verify_fulltext_shape_def)

text \<open>A legacy engine fingerprints its filter-only results with the precision sentinel.\<close>

lemma verify_engine_result_shape_iff:
  "verify_engine_result_shape et w stats sentinel = Inr () \<longleftrightarrow>
     ((if legacy_filter_only et then sentinel else stats) \<longleftrightarrow> w = FilterOnly)"
  by (auto simp: verify_engine_result_shape_def filter_only_stats.verify_iff)

section \<open>Selecting search ids\<close>

lemma collect_search_ids_Inr:
  "collect_search_ids available unique requested = Inr u \<longleftrightarrow>
     distinct requested \<and> set requested \<inter> unique = {} \<and> set requested \<subseteq> set available \<and>
     u = unique \<union> set requested"
  by (induction available unique requested rule: collect_search_ids.induct) auto

section \<open>Properties\<close>

text \<open>
  C16: an accepted plan covers every search config at its own index with the workload it
  declared (undeclared means \<open>vector\<close>, or \<open>filter-only\<close> under \<open>--skip-vector-index\<close>), every
  planned workload is one the dispatch point may route to that engine, and the one index
  layout of the plan serves all of them.
\<close>

theorem plan_sound:
  assumes "plan et declared skip = Inr p"
  shows "length (workloads p) = length declared \<and>
    (\<forall>i < length declared. workload_of p i =
       Inr (case declared ! i of Some w \<Rightarrow> w | None \<Rightarrow> if skip then FilterOnly else Vector)) \<and>
    (\<forall>w \<in> set (workloads p). dispatchable et w \<and> serves (layout p) w)"
proof (intro conjI allI impI ballI)
  have p: "engine_type p = et" "workloads p = map (resolved skip) declared"
    "if skip then layout p = NoVector else combine_layouts et (workloads p) = Inr (layout p)"
    using plan_Inr [OF assms] by auto
  have ok: "\<forall>d \<in> set declared.
      if skip then d \<in> {None, Some FilterOnly} \<and> supports_skip_vector_index et
      else resolved skip d \<in> set (implemented et)"
    using assms is_ok_traverse_plan_config [of et skip declared]
    by (auto simp: plan_def is_ok_iff)
  show "length (workloads p) = length declared" by (simp add: p)
  show "workload_of p i =
      Inr (case declared ! i of Some w \<Rightarrow> w | None \<Rightarrow> if skip then FilterOnly else Vector)"
    if "i < length declared" for i
    using bspec [OF ok nth_mem [OF that]] that
    by (cases skip; cases "declared ! i") (simp_all add: workload_of_def p)
  show "dispatchable et w" if "w \<in> set (workloads p)" for w
    using that ok by (cases skip) (auto simp: p dispatchable_def supports_skip_vector_index_def)
  show "serves (layout p) w" if "w \<in> set (workloads p)" for w
  proof (cases skip)
    case True
    with that p show ?thesis by (auto simp: serves_def)
  next
    case False
    with p have "combine_layouts et (workloads p) = Inr (layout p)" by simp
    then show ?thesis using that by (rule combine_layouts_serves)
  qed
qed

theorem plan_sound_witness:
  "\<exists>p. plan ''redis'' [Some Fulltext, None, Some FilterOnly] False = Inr p \<and>
     layout p = Full \<and> workload_of p 1 = Inr Vector \<and> (\<forall>w \<in> set (workloads p). serves (layout p) w)"
proof -
  let ?p = "\<lparr>engine_type = ''redis'', layout = Full, workloads = [Fulltext, Vector, FilterOnly]\<rparr>"
  have h: "plan ''redis'' [Some Fulltext, None, Some FilterOnly] False = Inr ?p"
    by (simp add: plan_def plan_config_def implemented_def combine_layouts_def
        supports_full_layout_def)
  from plan_sound [OF h] have "workload_of ?p 1 = Inr Vector" by fastforce
  with h plan_sound [OF h] show ?thesis by auto
qed

text \<open>
  Exactly which configurations the startup check accepts.  Under \<open>--skip-vector-index\<close>
  every declaration must be \<open>filter-only\<close> (or absent) and the engine must have a filter-only
  path; otherwise Redis and OpenSearch accept every declaration, and every other engine
  accepts \<open>vector\<close> only, so that no plan is ever refused for its index layout there.
\<close>

theorem plan_accepts_iff:
  "is_ok (plan et declared skip) \<longleftrightarrow>
     (if skip then set declared \<subseteq> {None, Some FilterOnly} \<and>
                   (declared = [] \<or> et \<in> {''redis'', ''opensearch'', ''valkey'', ''mongodb''})
      else et \<in> {''redis'', ''opensearch''} \<or> set declared \<subseteq> {None, Some Vector})"
proof (cases skip)
  case True
  have "is_ok (plan et declared skip) \<longleftrightarrow>
      is_ok (traverse (plan_config et skip) (enumerate 0 declared))"
    using True by (auto simp: plan_def is_ok_iff)
  also have "\<dots> \<longleftrightarrow> (\<forall>d \<in> set declared. d \<in> {None, Some FilterOnly} \<and> supports_skip_vector_index et)"
    using True by (simp add: is_ok_traverse_plan_config)
  also have "supports_skip_vector_index et \<longleftrightarrow> et \<in> {''redis'', ''opensearch'', ''valkey'', ''mongodb''}"
    by (auto simp: supports_skip_vector_index_def implemented_def legacy_filter_only_def)
  finally show ?thesis using True by (cases declared) auto
next
  case False
  have res: "resolved False d \<in> set (implemented et) \<longleftrightarrow>
      supports_full_layout et \<or> d \<in> {None, Some Vector}" for d
    by (cases d) (auto simp: implemented_cases)
  have "is_ok (plan et declared skip) \<longleftrightarrow>
      is_ok (traverse (plan_config et False) (enumerate 0 declared)) \<and>
      is_ok (combine_layouts et (map (resolved False) declared))"
    using False by (auto simp: plan_def is_ok_iff dest: traverse_plan_config_Inr)
  also have "is_ok (traverse (plan_config et False) (enumerate 0 declared)) \<longleftrightarrow>
      supports_full_layout et \<or> set declared \<subseteq> {None, Some Vector}"
    by (auto simp: is_ok_traverse_plan_config res)
  also have "\<dots> \<and> is_ok (combine_layouts et (map (resolved False) declared)) \<longleftrightarrow> \<dots>"
    by (fastforce simp: is_ok_combine_layouts)
  finally show ?thesis using False by (auto simp: supports_full_layout_def)
qed

text \<open>
  The shared \<open>full\<close> layout is built only when it has to be: a plan chooses it exactly when
  no single-purpose layout serves all its workloads, so a single-family config keeps the
  layout (and the published numbers) it had before the shared layout existed.
\<close>

theorem plan_full_only_when_needed:
  assumes "plan et declared skip = Inr p"
  shows "layout p = Full \<longleftrightarrow> \<not> (\<exists>l. l \<noteq> Full \<and> (\<forall>w \<in> set (workloads p). serves l w))"
proof (cases skip)
  case True
  with plan_Inr [OF assms] have "layout p = NoVector" "\<forall>w \<in> set (workloads p). serves NoVector w"
    by (auto simp: serves_def)
  then show ?thesis by auto
next
  case False
  with plan_Inr [OF assms] have c: "combine_layouts et (workloads p) = Inr (layout p)" by auto
  show ?thesis
  proof (cases "layout p = Full")
    case True
    with c have "\<exists>w \<in> set (workloads p). required_layout w = VectorLayout"
      and "FilterOnly \<in> set (workloads p)"
      by (auto simp: combine_layouts_Inr split: if_splits)
    then have "\<not> (\<exists>l. l \<noteq> Full \<and> (\<forall>w \<in> set (workloads p). serves l w))"
      by (fastforce simp: serves_def)
    with True show ?thesis by simp
  next
    case False
    with combine_layouts_serves [OF c] show ?thesis by blast
  qed
qed

theorem plan_full_only_when_needed_witness:
  "\<exists>p. plan ''opensearch'' [Some Fulltext, None] False = Inr p \<and> layout p \<noteq> Full \<and>
     (\<exists>l. l \<noteq> Full \<and> (\<forall>w \<in> set (workloads p). serves l w))"
proof -
  let ?p = "\<lparr>engine_type = ''opensearch'', layout = VectorLayout, workloads = [Fulltext, Vector]\<rparr>"
  have h: "plan ''opensearch'' [Some Fulltext, None] False = Inr ?p"
    by (simp add: plan_def plan_config_def implemented_def combine_layouts_def
        supports_full_layout_def)
  show ?thesis using h plan_full_only_when_needed [OF h] by auto
qed

text \<open>
  The config spelling of a workload is read back as that workload and nothing else is:
  parsing succeeds exactly on the five spellings \<open>as_str\<close> writes.
\<close>

theorem from_str_as_str: "from_str s = Inr w \<longleftrightarrow> s = as_str w"
proof
  assume "from_str s = Inr w"
  then show "s = as_str w"
    by (auto simp: from_str_def dest!: find_Some_mem)
next
  assume "s = as_str w"
  then show "from_str s = Inr w"
    by (simp add: from_str_def find_workload)
qed

text \<open>
  \<open>--search-ids\<close> never drops or renumbers a point silently.  The selection is accepted
  exactly when the requested ids are pairwise distinct and all in the effective grid; it then
  keeps exactly those points, in grid order and under their own ids (all points when none is
  requested).
\<close>

theorem select_search_ids_spec:
  "select_search_ids available requested = Inr sel \<longleftrightarrow>
     distinct requested \<and> set requested \<subseteq> set available \<and>
     sel = (if requested = [] then available else filter (\<lambda>i. i \<in> set requested) available)"
  by (auto simp: select_search_ids_def collect_search_ids_Inr)

text \<open>
  A run with \<open>--update-search-ratio\<close> that passes the startup check measures what its
  mixed phases say they measure: every planned search config is \<open>vector\<close>, except on a pure
  filter-only \<open>no-vector\<close> plan, whose mixed phases the runner skips.
\<close>

theorem mixed_phase_runs_vector:
  assumes "check_update_search_ratio p True = Inr ()"
  shows "set (workloads p) \<subseteq> {Vector} \<or> (layout p = NoVector \<and> set (workloads p) \<subseteq> {FilterOnly})"
proof (cases "layout p = NoVector \<and> list_all (\<lambda>w. w = FilterOnly) (workloads p)")
  case True
  then show ?thesis by (auto simp: list_all_iff)
next
  case False
  with assms have "List.find (\<lambda>(i, w). w \<noteq> Vector) (enumerate 0 (workloads p)) = None"
    by (auto simp: check_update_search_ratio_def split: option.splits if_splits)
  then show ?thesis
    by (auto simp: find_None_iff_all set_enumerate_ball in_set_conv_nth)
qed

theorem mixed_phase_runs_vector_witness:
  "let p = \<lparr>engine_type = ''redis'', layout = VectorLayout, workloads = [Vector, Vector]\<rparr>
   in check_update_search_ratio p True = Inr () \<and> set (workloads p) \<subseteq> {Vector}"
proof -
  let ?p = "\<lparr>engine_type = ''redis'', layout = VectorLayout, workloads = [Vector, Vector]\<rparr>"
  have h: "check_update_search_ratio ?p True = Inr ()"
    by (simp add: check_update_search_ratio_def)
  show ?thesis using h mixed_phase_runs_vector [OF h] by simp
qed

end
