(* ===== verification/F64.thy ===== *)
theory F64
  imports Complex_Main Prelude
begin

text \<open>
  Binary64 arithmetic (Rust's \<open>f64\<close>) on finite values.  A finite \<open>f64\<close> is the real number it
  denotes, and every operation of the source is the exact operation followed by
  \<open>rnd64\<close>, IEEE 754 round-to-nearest, ties-to-even, with the 53-bit significand and the
  subnormal quantum \<open>2\<^sup>-\<^sup>1\<^sup>0\<^sup>7\<^sup>4\<close>.  Values at or above \<open>2\<^sup>1\<^sup>0\<^sup>2\<^sup>4\<close>, which round to infinity, do not
  occur in the quantities modelled with it (ratios of counts, sums of at most two reciprocal
  ranks, discounted gains); infinities, NaN and the sign of zero are out of its scope.

  The locale \<open>rounding\<close> is what the clients rely on: rounding is monotone and keeps 0 and 1.
\<close>

section \<open>Round half to even\<close>

definition rne :: "real \<Rightarrow> int" where
  "rne x = (let f = \<lfloor>x\<rfloor>; d = x - of_int f
            in if d < 1 / 2 then f else if d > 1 / 2 then f + 1 else if even f then f else f + 1)"

lemma rne_ge_floor: "\<lfloor>x\<rfloor> \<le> rne x"
  by (simp add: rne_def Let_def)

lemma rne_le_floor: "rne x \<le> \<lfloor>x\<rfloor> + 1"
  by (simp add: rne_def Let_def)

lemma rne_of_int [simp]: "rne (of_int n) = n"
  by (simp add: rne_def)

lemma rne_mono: "x \<le> y \<Longrightarrow> rne x \<le> rne y"
proof (cases "\<lfloor>x\<rfloor> = \<lfloor>y\<rfloor>")
  case True
  assume "x \<le> y"
  with True show ?thesis by (simp add: rne_def Let_def)
next
  case False
  assume "x \<le> y"
  with False have "\<lfloor>x\<rfloor> + 1 \<le> \<lfloor>y\<rfloor>" using floor_mono [of x y] by simp
  with rne_le_floor [of x] rne_ge_floor [of y] show ?thesis by simp
qed

lemma rne_error: "\<bar>of_int (rne x) - x\<bar> \<le> 1 / 2"
  by (auto simp: rne_def Let_def abs_le_iff)

lemma rne_ge_of_int: "of_int n \<le> x \<Longrightarrow> n \<le> rne x"
  using rne_mono [of "of_int n" x] by simp

lemma rne_le_of_int: "x \<le> of_int n \<Longrightarrow> rne x \<le> n"
  using rne_mono [of x "of_int n"] by simp

section \<open>Binary64\<close>

definition ilog2 :: "real \<Rightarrow> int" where
  "ilog2 x = \<lfloor>log 2 x\<rfloor>"

definition quantum :: "real \<Rightarrow> int" where
  "quantum x = max (ilog2 x - 52) (-1074)"

definition rnd_pos :: "real \<Rightarrow> real" where
  "rnd_pos x = of_int (rne (x / 2 powi quantum x)) * 2 powi quantum x"

definition rnd64 :: "real \<Rightarrow> real" where
  "rnd64 x = (if x = 0 then 0 else if x < 0 then - rnd_pos (- x) else rnd_pos x)"

definition fadd :: "real \<Rightarrow> real \<Rightarrow> real" where
  "fadd a b = rnd64 (a + b)"

definition fsub :: "real \<Rightarrow> real \<Rightarrow> real" where
  "fsub a b = rnd64 (a - b)"

definition fmul :: "real \<Rightarrow> real \<Rightarrow> real" where
  "fmul a b = rnd64 (a * b)"

definition fdiv :: "real \<Rightarrow> real \<Rightarrow> real" where
  "fdiv a b = rnd64 (a / b)"

text \<open>\<open>n as f64\<close> for an unsigned integer, and \<open>f64::log2\<close> (correctly rounded).\<close>

definition f64_of_nat :: "nat \<Rightarrow> real" where
  "f64_of_nat n = rnd64 (of_nat n)"

definition flog2 :: "real \<Rightarrow> real" where
  "flog2 x = rnd64 (log 2 x)"

text \<open>\<open>iter().sum::<f64>()\<close>: left to right from zero.\<close>

definition fsum :: "real list \<Rightarrow> real" where
  "fsum xs = foldl fadd 0 xs"

section \<open>Exponents\<close>

lemma powi_mono: "a \<le> b \<Longrightarrow> (2::real) powi a \<le> 2 powi b"
  by (rule power_int_increasing) auto

lemma powi_le_iff [simp]: "(2::real) powi a \<le> 2 powi b \<longleftrightarrow> a \<le> b"
  by (meson linorder_not_less not_le one_less_numeral_iff power_int_strict_increasing powi_mono
      semiring_norm(76))

lemma powi_split: "a \<le> b \<Longrightarrow> (2::real) powi b = of_int (2 ^ nat (b - a)) * 2 powi a"
  by (simp add: power_int_nonneg_exp [symmetric] flip: power_int_add)

lemma powi_quotient: "a \<le> b \<Longrightarrow> (2::real) powi b / 2 powi a = of_int (2 ^ nat (b - a))"
  by (simp add: powi_split)

lemma ilog2_bounds:
  assumes "0 < x"
  shows "2 powi ilog2 x \<le> x" and "x < 2 powi (ilog2 x + 1)"
proof -
  have "of_int (ilog2 x) \<le> log 2 x" by (simp add: ilog2_def)
  then have "2 powr of_int (ilog2 x) \<le> x" using assms by (simp add: le_log_iff)
  then show "2 powi ilog2 x \<le> x" by (simp add: powr_real_of_int')
  have "log 2 x < of_int (ilog2 x + 1)" unfolding ilog2_def by linarith
  then have "x < 2 powr of_int (ilog2 x + 1)"
    using log_less_iff [of 2 x "of_int (ilog2 x + 1)"] assms by auto
  then show "x < 2 powi (ilog2 x + 1)"
    using powr_real_of_int' [of 2 "ilog2 x + 1"] by simp
qed

lemma ilog2_eqI:
  assumes "2 powi e \<le> x" and "x < 2 powi (e + 1)"
  shows "ilog2 x = e"
proof -
  have "0 < x" using assms(1) by (smt (verit) zero_less_power_int)
  note b = ilog2_bounds [OF this]
  have "e < ilog2 x + 1" and "ilog2 x < e + 1"
    using assms b by (smt (verit) powi_le_iff)+
  then show ?thesis by simp
qed

lemma ilog2_mono: "0 < x \<Longrightarrow> x \<le> y \<Longrightarrow> ilog2 x \<le> ilog2 y"
  by (simp add: ilog2_def floor_mono)

lemma quantum_mono: "0 < x \<Longrightarrow> x \<le> y \<Longrightarrow> quantum x \<le> quantum y"
  using ilog2_mono [of x y] by (simp add: quantum_def)

section \<open>Rounding is monotone\<close>

lemma rnd_pos_nonneg: "0 \<le> x \<Longrightarrow> 0 \<le> rnd_pos x"
  using rne_ge_of_int [of 0 "x / 2 powi quantum x"] by (simp add: rnd_pos_def)

lemma rnd_pos_ge_powi:
  assumes "quantum x \<le> e" and "2 powi e \<le> x"
  shows "2 powi e \<le> rnd_pos x"
proof -
  have "of_int (2 ^ nat (e - quantum x)) \<le> x / 2 powi quantum x"
    unfolding powi_quotient [OF assms(1), symmetric] using assms(2) by (rule divide_right_mono) simp
  then have "2 ^ nat (e - quantum x) \<le> rne (x / 2 powi quantum x)"
    by (rule rne_ge_of_int)
  then have "of_int (2 ^ nat (e - quantum x)) * 2 powi quantum x
      \<le> of_int (rne (x / 2 powi quantum x)) * (2::real) powi quantum x"
    by (intro mult_right_mono) (simp_all only: of_int_le_iff zero_le_power_int zero_le_numeral)
  then show ?thesis using assms(1) by (simp add: rnd_pos_def powi_split)
qed

lemma rnd_pos_le_powi:
  assumes "quantum x \<le> e" and "x \<le> 2 powi e"
  shows "rnd_pos x \<le> 2 powi e"
proof -
  have "x / 2 powi quantum x \<le> of_int (2 ^ nat (e - quantum x))"
    unfolding powi_quotient [OF assms(1), symmetric] using assms(2) by (rule divide_right_mono) simp
  then have "rne (x / 2 powi quantum x) \<le> 2 ^ nat (e - quantum x)"
    by (rule rne_le_of_int)
  then have "of_int (rne (x / 2 powi quantum x)) * (2::real) powi quantum x
      \<le> of_int (2 ^ nat (e - quantum x)) * 2 powi quantum x"
    by (intro mult_right_mono) (simp_all only: of_int_le_iff zero_le_power_int zero_le_numeral)
  then show ?thesis using assms(1) by (simp add: rnd_pos_def powi_split)
qed

lemma rnd_pos_same_quantum:
  assumes "quantum x = quantum y" and "x \<le> y"
  shows "rnd_pos x \<le> rnd_pos y"
proof -
  have "rne (x / 2 powi quantum x) \<le> rne (y / 2 powi quantum y)"
    using assms by (intro rne_mono) (simp add: divide_right_mono)
  with assms(1) show ?thesis by (simp add: rnd_pos_def mult_right_mono)
qed

lemma rnd_pos_mono:
  assumes "0 < x" and "x \<le> y"
  shows "rnd_pos x \<le> rnd_pos y"
proof (cases "quantum x = quantum y")
  case True
  then show ?thesis using assms(2) by (rule rnd_pos_same_quantum)
next
  case False
  then have q: "quantum x < quantum y" using quantum_mono [OF assms] by simp
  then have qy: "quantum y = ilog2 y - 52" by (auto simp: quantum_def)
  have "0 < y" using assms by simp
  have "rnd_pos x \<le> 2 powi ilog2 y"
  proof (rule rnd_pos_le_powi)
    show "quantum x \<le> ilog2 y" using q qy by simp
    have "ilog2 x + 1 \<le> ilog2 y" using q qy by (auto simp: quantum_def)
    then have "(2::real) powi (ilog2 x + 1) \<le> 2 powi ilog2 y" by simp
    then show "x \<le> 2 powi ilog2 y" using ilog2_bounds(2) [OF assms(1)] by (rule order.strict_implies_order [OF order.strict_trans2, rotated])
  qed
  also have "\<dots> \<le> rnd_pos y"
    using ilog2_bounds(1) [OF \<open>0 < y\<close>] by (intro rnd_pos_ge_powi) (simp_all add: qy)
  finally show ?thesis .
qed

lemma rnd64_0 [simp]: "rnd64 0 = 0"
  by (simp add: rnd64_def)

lemma rnd64_minus: "rnd64 (- x) = - rnd64 x"
  by (simp add: rnd64_def)

lemma rnd64_pos: "0 < x \<Longrightarrow> rnd64 x = rnd_pos x"
  by (simp add: rnd64_def)

lemma rnd64_nonneg: "0 \<le> x \<Longrightarrow> 0 \<le> rnd64 x"
  by (auto simp: rnd64_def rnd_pos_nonneg)

lemma rnd64_mono: "x \<le> y \<Longrightarrow> rnd64 x \<le> rnd64 y"
proof -
  assume xy: "x \<le> y"
  consider "0 \<le> x" | "x < 0" "0 \<le> y" | "y < 0" by linarith
  then show ?thesis
  proof cases
    case 1
    with xy show ?thesis
      by (cases "x = 0") (auto simp: rnd64_nonneg rnd64_pos intro: rnd_pos_mono)
  next
    case 2
    then have "0 \<le> rnd64 (- x)" "0 \<le> rnd64 y" by (simp_all add: rnd64_nonneg)
    then show ?thesis by (simp add: rnd64_minus)
  next
    case 3
    with xy have "rnd64 (- y) \<le> rnd64 (- x)" by (simp add: rnd64_pos rnd_pos_mono)
    then show ?thesis by (simp add: rnd64_minus)
  qed
qed

section \<open>Representable values\<close>

lemma rnd_pos_exact_quantum:
  assumes "x / 2 powi quantum x = of_int n"
  shows "rnd_pos x = x"
proof -
  have "rnd_pos x = x / 2 powi quantum x * 2 powi quantum x"
    unfolding rnd_pos_def assms by simp
  then show ?thesis by simp
qed

lemma small_exponent_mantissa:
  assumes "0 < m" and "m \<le> 2 ^ 53" and "-1074 \<le> k" and x: "x = of_int m * 2 powi k"
    and "k < quantum x"
  shows "m = 2 ^ 53 \<and> quantum x = k + 1"
proof -
  have "0 < x" using assms(1) x by simp
  have q: "ilog2 x = quantum x + 52" using assms(3,5) by (auto simp: quantum_def)
  have "2 powi (quantum x + 52 - k) * 2 powi k \<le> of_int m * (2::real) powi k"
    using ilog2_bounds(1) [OF \<open>0 < x\<close>, unfolded q] unfolding x [symmetric]
    by (simp flip: power_int_add)
  then have "2 powi (quantum x + 52 - k) \<le> (of_int m :: real)" by simp
  then have "of_int (2 ^ nat (quantum x + 52 - k)) \<le> (of_int m :: real)"
    using assms(5) by (simp add: power_int_nonneg_exp)
  then have le: "(2::int) ^ nat (quantum x + 52 - k) \<le> m" by linarith
  then have "(2::int) ^ nat (quantum x + 52 - k) \<le> 2 ^ 53" using assms(2) by linarith
  then have "nat (quantum x + 52 - k) \<le> 53" by (rule power_le_imp_le_exp [rotated]) simp
  then have k: "quantum x = k + 1" using assms(5) by linarith
  with le assms(2) show ?thesis by simp
qed

lemma rnd_pos_exact:
  assumes "0 < m" and "m \<le> 2 ^ 53" and "-1074 \<le> k" and x: "x = of_int m * 2 powi k"
  shows "rnd_pos x = x"
proof (cases "quantum x \<le> k")
  case True
  have "x / 2 powi quantum x = of_int m * (2 powi k / 2 powi quantum x)" by (simp add: x)
  also have "\<dots> = of_int (m * 2 ^ nat (k - quantum x))" by (simp add: powi_quotient [OF True])
  finally show ?thesis by (rule rnd_pos_exact_quantum)
next
  case False
  with small_exponent_mantissa [OF assms(1-3) x] have mk: "m = 2 ^ 53" "quantum x = k + 1" by auto
  have "x / 2 powi quantum x = of_int (2 ^ 52)"
    unfolding mk(2) by (simp add: x mk(1) power_int_add)
  then show ?thesis by (rule rnd_pos_exact_quantum)
qed

lemma rnd64_exact:
  assumes "\<bar>m\<bar> \<le> 2 ^ 53" and "-1074 \<le> k"
  shows "rnd64 (of_int m * 2 powi k) = of_int m * 2 powi k"
proof -
  consider "m = 0" | "0 < m" | "m < 0" by linarith
  then show ?thesis
  proof cases
    case 2
    with assms show ?thesis by (simp add: rnd64_pos rnd_pos_exact [of m k])
  next
    case 3
    have "rnd64 (of_int (- m) * 2 powi k) = of_int (- m) * 2 powi k"
      using assms 3 by (subst rnd64_pos) (auto intro!: rnd_pos_exact [of "- m" k] simp: mult_neg_pos)
    then show ?thesis by (simp add: rnd64_minus)
  qed simp
qed

lemma rnd64_of_int: "\<bar>m\<bar> \<le> 2 ^ 53 \<Longrightarrow> rnd64 (of_int m) = of_int m"
  using rnd64_exact [of m 0] by simp

lemma rnd64_of_nat: "n \<le> 2 ^ 53 \<Longrightarrow> rnd64 (of_nat n) = of_nat n"
proof -
  assume "n \<le> 2 ^ 53"
  then have "int n \<le> int (2 ^ 53)" by (rule of_nat_mono)
  then show ?thesis using rnd64_of_int [of "int n"] by simp
qed

lemma rnd64_1 [simp]: "rnd64 1 = 1"
  using rnd64_of_nat [of 1] by simp

lemma rnd_pos_representable:
  assumes "0 < x"
  shows "\<exists>m k. 0 \<le> m \<and> m \<le> 2 ^ 53 \<and> -1074 \<le> k \<and> rnd_pos x = of_int m * 2 powi k"
proof -
  define m where "m = rne (x / 2 powi quantum x)"
  have "0 \<le> m" unfolding m_def using assms by (intro rne_ge_of_int) simp
  have "ilog2 x + 1 - quantum x \<le> 53" by (simp add: quantum_def)
  have "x / 2 powi quantum x \<le> 2 powi (ilog2 x + 1) / 2 powi quantum x"
    using ilog2_bounds(2) [OF assms] by (intro divide_right_mono) simp_all
  also have "\<dots> = 2 powi (ilog2 x + 1 - quantum x)" by (simp add: power_int_diff)
  also have "\<dots> \<le> 2 powi 53" using \<open>ilog2 x + 1 - quantum x \<le> 53\<close> by (simp only: powi_le_iff)
  finally have "m \<le> 2 ^ 53" unfolding m_def by (intro rne_le_of_int) simp
  with \<open>0 \<le> m\<close> show ?thesis
    by (intro exI [of _ m] exI [of _ "quantum x"]) (simp add: m_def rnd_pos_def quantum_def)
qed

lemma rnd64_idem [simp]: "rnd64 (rnd64 x) = rnd64 x"
proof -
  have pos: "rnd64 (rnd64 y) = rnd64 y" if "0 < y" for y
  proof -
    from rnd_pos_representable [OF that] obtain m k where
      "0 \<le> m" "m \<le> 2 ^ 53" "-1074 \<le> k" "rnd_pos y = of_int m * 2 powi k" by blast
    with rnd64_exact [of m k] that show ?thesis by (simp add: rnd64_pos)
  qed
  consider "x = 0" | "0 < x" | "0 < - x" by linarith
  then show ?thesis
  proof cases
    case 3
    with pos [of "- x"] show ?thesis by (simp add: rnd64_minus)
  qed (simp_all add: pos)
qed

section \<open>What the clients rely on\<close>

locale rounding =
  fixes rnd :: "real \<Rightarrow> real"
  assumes mono: "x \<le> y \<Longrightarrow> rnd x \<le> rnd y"
    and zero: "rnd 0 = 0"
    and one: "rnd 1 = 1"
    and idem: "rnd (rnd x) = rnd x"
begin

lemma nonneg: "0 \<le> x \<Longrightarrow> 0 \<le> rnd x"
  using mono [of 0 x] by (simp add: zero)

lemma le_one: "x \<le> 1 \<Longrightarrow> rnd x \<le> 1"
  using mono [of x 1] by (simp add: one)

lemma ratio_nonneg: "0 \<le> a \<Longrightarrow> 0 \<le> b \<Longrightarrow> 0 \<le> rnd (rnd a / rnd b)"
  by (simp add: nonneg)

lemma ratio_le_one: "a \<le> b \<Longrightarrow> 0 \<le> a \<Longrightarrow> rnd (rnd a / rnd b) \<le> 1"
  using mono [of a b] nonneg [of a] by (intro le_one) (auto simp: divide_le_eq_1)

lemma ratio_mono: "a \<le> b \<Longrightarrow> 0 \<le> c \<Longrightarrow> rnd (rnd a / rnd c) \<le> rnd (rnd b / rnd c)"
  by (simp add: mono divide_right_mono nonneg)

lemma ratio_antimono: "0 \<le> a \<Longrightarrow> 0 < rnd b \<Longrightarrow> b \<le> c \<Longrightarrow> rnd (rnd a / rnd c) \<le> rnd (rnd a / rnd b)"
  by (rule mono) (meson divide_left_mono mono mult_pos_pos nonneg order.strict_trans2)

lemma foldl_mono:
  "a \<le> b \<Longrightarrow> list_all2 (\<le>) xs ys \<Longrightarrow>
     foldl (\<lambda>s v. rnd (s + v)) a xs \<le> foldl (\<lambda>s v. rnd (s + v)) b ys"
proof (induction xs arbitrary: a b ys)
  case Nil
  then show ?case by simp
next
  case (Cons x xs)
  then obtain y ys' where ys: "ys = y # ys'" "x \<le> y" "list_all2 (\<le>) xs ys'"
    by (auto simp: list_all2_Cons1)
  then have "rnd (a + x) \<le> rnd (b + y)" using Cons.prems(1) by (intro mono) simp
  from Cons.IH [OF this ys(3)] show ?case by (simp add: ys(1))
qed

lemma foldl_increasing:
  "rnd a = a \<Longrightarrow> (\<And>v. v \<in> set xs \<Longrightarrow> 0 \<le> v) \<Longrightarrow> a \<le> foldl (\<lambda>s v. rnd (s + v)) a xs"
proof (induction xs arbitrary: a)
  case Nil
  then show ?case by simp
next
  case (Cons x xs)
  have "a \<le> rnd (a + x)" using mono [of a "a + x"] Cons.prems by simp
  also have "\<dots> \<le> foldl (\<lambda>s v. rnd (s + v)) (rnd (a + x)) xs"
    using Cons.prems by (intro Cons.IH) (auto simp: idem)
  finally show ?case by simp
qed

lemma foldl_rounded: "rnd a = a \<Longrightarrow> rnd (foldl (\<lambda>s v. rnd (s + v)) a xs) = foldl (\<lambda>s v. rnd (s + v)) a xs"
  by (induction xs arbitrary: a) (auto simp: idem)

text \<open>A list of terms dominated, position by position, by the head of a longer list of
  non-negative terms has the smaller sum.\<close>

lemma sum_dominated:
  assumes "length xs \<le> length ys" and "\<And>i. i < length xs \<Longrightarrow> xs ! i \<le> ys ! i"
    and "\<And>v. v \<in> set ys \<Longrightarrow> 0 \<le> v"
  shows "foldl (\<lambda>s v. rnd (s + v)) 0 xs \<le> foldl (\<lambda>s v. rnd (s + v)) 0 ys"
proof -
  let ?n = "length xs"
  have "foldl (\<lambda>s v. rnd (s + v)) 0 xs \<le> foldl (\<lambda>s v. rnd (s + v)) 0 (take ?n ys)"
    using assms(1,2) by (intro foldl_mono) (simp_all add: list_all2_conv_all_nth)
  also have "\<dots> \<le> foldl (\<lambda>s v. rnd (s + v)) (foldl (\<lambda>s v. rnd (s + v)) 0 (take ?n ys)) (drop ?n ys)"
    using assms(3) by (intro foldl_increasing foldl_rounded) (auto simp: zero dest: in_set_dropD)
  also have "\<dots> = foldl (\<lambda>s v. rnd (s + v)) 0 ys"
    by (simp flip: foldl_append)
  finally show ?thesis .
qed

end

interpretation f64: rounding rnd64
  by unfold_locales (simp_all add: rnd64_mono)

lemma fsum_eq: "fsum xs = foldl (\<lambda>s v. rnd64 (s + v)) 0 xs"
  by (simp add: fsum_def fadd_def [abs_def])

lemma fsum_nonneg: "(\<And>v. v \<in> set xs \<Longrightarrow> 0 \<le> v) \<Longrightarrow> 0 \<le> fsum xs"
  unfolding fsum_eq by (rule f64.foldl_increasing) simp_all

lemmas fsum_dominated = f64.sum_dominated [folded fsum_eq]

lemma f64_of_nat_0 [simp]: "f64_of_nat 0 = 0"
  by (simp add: f64_of_nat_def)

lemma f64_of_nat_1 [simp]: "f64_of_nat (Suc 0) = 1"
  by (simp add: f64_of_nat_def)

lemma f64_of_nat_mono: "m \<le> n \<Longrightarrow> f64_of_nat m \<le> f64_of_nat n"
  by (simp add: f64_of_nat_def rnd64_mono)

lemma f64_of_nat_nonneg [simp]: "0 \<le> f64_of_nat n"
  by (simp add: f64_of_nat_def rnd64_nonneg)

lemma f64_of_nat_ge_1: "0 < n \<Longrightarrow> 1 \<le> f64_of_nat n"
  using f64_of_nat_mono [of 1 n] by simp

lemma f64_of_nat_exact: "n \<le> 2 ^ 53 \<Longrightarrow> f64_of_nat n = of_nat n"
  by (simp add: f64_of_nat_def rnd64_of_nat)

lemma fdiv_counts_bounds: "m \<le> n \<Longrightarrow> 0 \<le> fdiv (f64_of_nat m) (f64_of_nat n) \<and> fdiv (f64_of_nat m) (f64_of_nat n) \<le> 1"
  unfolding fdiv_def f64_of_nat_def by (simp add: f64.ratio_nonneg f64.ratio_le_one)

lemma fdiv_counts_eq_1: "0 < n \<Longrightarrow> fdiv (f64_of_nat n) (f64_of_nat n) = 1"
  using f64_of_nat_ge_1 [of n] by (simp add: fdiv_def)

text \<open>A ratio of counts below \<open>2\<^sup>5\<^sup>3\<close> rounds to 1 only when the counts are equal.\<close>

lemma rnd64_lt_1:
  assumes "x \<le> 1 - 2 powi -53"
  shows "rnd64 x < 1"
proof -
  have eps: "1 - 2 powi -53 = of_int (2 ^ 53 - 1) * (2::real) powi -53"
    by (simp add: power_int_minus field_simps)
  have "rnd64 x \<le> rnd64 (1 - 2 powi -53)" using assms by (rule rnd64_mono)
  also have "\<dots> = 1 - 2 powi -53" unfolding eps by (rule rnd64_exact) simp_all
  also have "\<dots> < 1" by simp
  finally show ?thesis .
qed

lemma fdiv_counts_lt_1:
  assumes "m < n" and "n \<le> 2 ^ 53"
  shows "fdiv (f64_of_nat m) (f64_of_nat n) < 1"
proof -
  have "real m / real n \<le> 1 - 1 / real n"
    using assms(1) by (simp add: field_simps)
  also have "\<dots> \<le> 1 - 2 powi -53"
    using assms by (simp add: power_int_minus field_simps)
  finally show ?thesis
    using assms by (simp add: fdiv_def f64_of_nat_exact rnd64_lt_1)
qed

section \<open>Relative error\<close>

text \<open>Rounding a normal number moves it by at most half a unit in the last place.\<close>

lemma rnd_pos_error:
  assumes "2 powi -1022 \<le> x"
  shows "\<bar>rnd_pos x - x\<bar> \<le> x * 2 powi -53"
proof -
  have pos: "0 < x" using assms by (rule order.strict_trans2[rotated]) simp
  have "-1022 \<le> ilog2 x"
    using ilog2_mono[of "2 powi -1022" x] assms ilog2_eqI[of "-1022" "2 powi -1022"] by simp
  then have q: "quantum x = ilog2 x - 52" by (simp add: quantum_def)
  have "rnd_pos x - x = (of_int (rne (x / 2 powi quantum x)) - x / 2 powi quantum x) * 2 powi quantum x"
    by (simp add: rnd_pos_def field_simps)
  then have "\<bar>rnd_pos x - x\<bar> \<le> 1 / 2 * 2 powi quantum x"
    using rne_error[of "x / 2 powi quantum x"] by (simp add: abs_mult)
  also have "1 / 2 * (2::real) powi quantum x = 2 powi ilog2 x * 2 powi -53"
    unfolding q by (simp add: power_int_diff power_int_minus field_simps)
  also have "\<dots> \<le> x * 2 powi -53"
    using ilog2_bounds[OF pos] by (simp add: mult_right_mono)
  finally show ?thesis .
qed

lemma rnd64_error:
  assumes "1 / 1000000 \<le> x"
  shows "\<bar>rnd64 x - x\<bar> \<le> x / 1000000000000000"
proof -
  have pos: "0 < x" using assms by (rule order.strict_trans2[rotated]) simp
  have "(2::real) powi -1022 \<le> 2 powi -20" by (simp only: powi_le_iff)
  also have "\<dots> \<le> 1 / 1000000" by (simp add: power_int_minus)
  finally have "\<bar>rnd_pos x - x\<bar> \<le> x * 2 powi -53" using assms by (intro rnd_pos_error) linarith
  also have "\<dots> \<le> x * (1 / 1000000000000000)"
    using pos by (intro mult_left_mono) (simp_all add: power_int_minus)
  finally show ?thesis using pos by (simp add: rnd64_pos)
qed

end
