(* ===== verification/Metrics.thy ===== *)
theory Metrics
  imports F64
begin

text \<open>
  Retrieval quality of one query: \<open>src/src/metrics.rs\<close>.  Ids are the source's \<open>i64\<close>, read as
  \<open>int\<close>; \<open>f64\<close> results go through \<open>F64\<close>, one rounding per operation, in the order the source
  evaluates them.  The \<open>HashSet\<close>s are sets.
\<close>

section \<open>The metrics\<close>

record query_metrics =
  recall :: real
  precision :: real
  recall_at_top :: real
  mrr :: real
  ndcg :: real

definition not_penalized :: query_metrics where
  "not_penalized = \<lparr>recall = 1, precision = 1, recall_at_top = 1, mrr = 1, ndcg = 1\<rparr>"

text \<open>The valid ids of the first \<open>k\<close> ground-truth entries (padding with \<open>-1\<close> dropped first).\<close>

definition truth_set :: "int list \<Rightarrow> nat \<Rightarrow> int set" where
  "truth_set ground_truth k = set (take k (filter (\<lambda>i. i \<ge> 0) ground_truth))"

definition reciprocal_rank :: "int set \<Rightarrow> int list \<Rightarrow> real" where
  "reciprocal_rank truth results =
     (case List.find (\<lambda>(rank, i). i \<in> truth) (enumerate 0 results) of
        Some (rank, _) \<Rightarrow> fdiv 1 (f64_of_nat (rank + 1))
      | None \<Rightarrow> 0)"

definition gain :: "nat \<Rightarrow> real" where
  "gain i = fdiv 1 (flog2 (fadd (f64_of_nat i) 2))"

definition dcg :: "int set \<Rightarrow> int list \<Rightarrow> real" where
  "dcg truth results =
     fsum (map (\<lambda>(i, _). gain i) (filter (\<lambda>(_, i). i \<in> truth) (enumerate 0 results)))"

definition idcg :: "nat \<Rightarrow> real" where
  "idcg truth_count = fsum (map gain [0..<truth_count])"

definition compute_metrics :: "int list \<Rightarrow> int list \<Rightarrow> nat \<Rightarrow> query_metrics" where
  "compute_metrics result_ids_ordered ground_truth k =
     (if k = 0 then not_penalized
      else let truth = truth_set ground_truth k; truth_count = card truth in
        if truth_count = 0 then not_penalized
        else let results_topk = topk k result_ids_ordered;
                 hits = count_in truth results_topk
          in \<lparr>recall = fdiv (f64_of_nat hits) (f64_of_nat truth_count),
              precision = (if results_topk = [] then 0
                           else fdiv (f64_of_nat hits) (f64_of_nat (length results_topk))),
              recall_at_top = fdiv (f64_of_nat hits) (f64_of_nat k),
              mrr = reciprocal_rank truth results_topk,
              ndcg = (let d = dcg truth results_topk; ideal = idcg truth_count
                      in if ideal > 0 then fdiv d ideal else 0)\<rparr>)"

section \<open>Ground truth and hits\<close>

lemma finite_truth_set [simp]: "finite (truth_set g k)"
  by (simp add: truth_set_def)

lemma card_truth_set_le: "card (truth_set g k) \<le> k"
  unfolding truth_set_def by (rule order.trans [OF card_length]) simp

lemma truth_set_nonneg: "i \<in> truth_set g k \<Longrightarrow> 0 \<le> i"
  unfolding truth_set_def by (auto dest: in_set_takeD)

lemma hits_le_truth: "count_in (truth_set g k) (topk k r) \<le> card (truth_set g k)"
  by (rule count_in_le_card) simp_all

lemma hits_le_results: "count_in (truth_set g k) (topk k r) \<le> length (topk k r)"
  by (rule count_in_le_length)

lemma hits_eq_truth_iff:
  "count_in (truth_set g k) (topk k r) = card (truth_set g k) \<longleftrightarrow> truth_set g k \<subseteq> set (topk k r)"
proof -
  have "count_in (truth_set g k) (topk k r) = card (set (topk k r) \<inter> truth_set g k)"
    by (simp add: count_in_distinct)
  moreover have "card (set (topk k r) \<inter> truth_set g k) = card (truth_set g k) \<longleftrightarrow>
      set (topk k r) \<inter> truth_set g k = truth_set g k"
    by (metis card_subset_eq finite_truth_set inf_le2)
  ultimately show ?thesis by (simp add: Int_absorb1 inf.absorb_iff2)
qed

section \<open>Discounted gain\<close>

lemma flog2_ge_1: "2 \<le> x \<Longrightarrow> 1 \<le> flog2 x"
proof -
  assume "2 \<le> x"
  then have "1 \<le> log 2 x" by (simp add: le_log_iff)
  then have "rnd64 1 \<le> rnd64 (log 2 x)" by (rule rnd64_mono)
  then show ?thesis by (simp add: flog2_def)
qed

lemma rank_plus_2: "2 \<le> fadd (f64_of_nat i) 2"
proof -
  have "rnd64 (of_nat 2) \<le> rnd64 (f64_of_nat i + 2)" by (rule rnd64_mono) simp
  then show ?thesis by (simp add: fadd_def rnd64_of_nat [of 2, simplified])
qed

lemma gain_nonneg: "0 \<le> gain i"
  using flog2_ge_1 [OF rank_plus_2, of i] by (simp add: gain_def fdiv_def rnd64_nonneg)

lemma gain_antimono:
  assumes "i \<le> j"
  shows "gain j \<le> gain i"
proof -
  have "fadd (f64_of_nat i) 2 \<le> fadd (f64_of_nat j) 2"
    by (simp add: fadd_def rnd64_mono f64_of_nat_mono assms)
  then have "flog2 (fadd (f64_of_nat i) 2) \<le> flog2 (fadd (f64_of_nat j) 2)"
    using rank_plus_2 [of i] rank_plus_2 [of j] by (simp add: flog2_def rnd64_mono)
  moreover have "0 < flog2 (fadd (f64_of_nat i) 2)"
    using flog2_ge_1 [OF rank_plus_2, of i] by linarith
  ultimately show ?thesis
    unfolding gain_def fdiv_def by (intro rnd64_mono) (simp add: frac_le)
qed

lemma gain_0: "gain 0 = 1"
  by (simp add: gain_def fadd_def rnd64_of_nat [of 2, simplified] flog2_def fdiv_def)

lemma idcg_pos: "0 < n \<Longrightarrow> 1 \<le> idcg n"
proof -
  assume "0 < n"
  then have eq: "[0..<n] = 0 # [1..<n]" by (simp add: upt_conv_Cons)
  have "1 \<le> foldl (\<lambda>s v. rnd64 (s + v)) 1 (map gain [1..<n])"
    by (rule f64.foldl_increasing) (auto simp: gain_nonneg)
  then show ?thesis by (simp add: idcg_def fsum_eq eq gain_0)
qed

text \<open>The ranks at which a page hits the truth.\<close>

definition hit_ranks :: "int set \<Rightarrow> int list \<Rightarrow> nat list" where
  "hit_ranks truth results = map fst (filter (\<lambda>(_, i). i \<in> truth) (enumerate 0 results))"

lemma dcg_eq: "dcg truth results = fsum (map gain (hit_ranks truth results))"
  by (simp add: dcg_def hit_ranks_def comp_def case_prod_unfold)

lemma length_filter_enumerate:
  "length (filter (\<lambda>(_, i). P i) (enumerate n xs)) = length (filter P xs)"
  by (induction xs arbitrary: n) auto

lemma length_hit_ranks: "length (hit_ranks truth results) = count_in truth results"
  by (simp add: hit_ranks_def count_in_def length_filter_enumerate)

lemma strict_sorted_hit_ranks: "sorted_wrt (<) (hit_ranks truth results)"
proof -
  have "sorted_wrt (<) (map fst (enumerate 0 results))" by simp
  moreover have "sorted_wrt (<) (map fst (filter P xs))" if "sorted_wrt (<) (map fst xs)"
    for P and xs :: "(nat \<times> int) list"
    using that by (induction xs) auto
  ultimately show ?thesis unfolding hit_ranks_def by blast
qed

lemma strict_sorted_nth_ge:
  fixes xs :: "nat list"
  shows "sorted_wrt (<) xs \<Longrightarrow> i < length xs \<Longrightarrow> i \<le> xs ! i"
proof (induction i)
  case 0
  then show ?case by simp
next
  case (Suc i)
  then have "xs ! i < xs ! Suc i" by (simp add: sorted_wrt_nth_less)
  with Suc show ?case by fastforce
qed

lemma dcg_le_idcg:
  assumes "count_in truth results \<le> n"
  shows "dcg truth results \<le> idcg n"
  unfolding dcg_eq idcg_def
proof (rule fsum_dominated)
  show "length (map gain (hit_ranks truth results)) \<le> length (map gain [0..<n])"
    using assms by (simp add: length_hit_ranks)
  fix i assume i: "i < length (map gain (hit_ranks truth results))"
  then have "i \<le> hit_ranks truth results ! i"
    using strict_sorted_nth_ge [OF strict_sorted_hit_ranks] by simp
  with i assms show "map gain (hit_ranks truth results) ! i \<le> map gain [0..<n] ! i"
    by (simp add: gain_antimono length_hit_ranks)
qed (auto simp: gain_nonneg)

lemma dcg_nonneg: "0 \<le> dcg truth results"
  unfolding dcg_eq by (rule fsum_nonneg) (auto simp: gain_nonneg)

lemma reciprocal_rank_bounds: "0 \<le> reciprocal_rank truth results \<and> reciprocal_rank truth results \<le> 1"
proof (cases "List.find (\<lambda>(rank, i). i \<in> truth) (enumerate 0 results)")
  case None
  then show ?thesis by (simp add: reciprocal_rank_def)
next
  case (Some a)
  then obtain rank i where "List.find (\<lambda>(rank, i). i \<in> truth) (enumerate 0 results) = Some (rank, i)"
    by (cases a) auto
  then show ?thesis
    using fdiv_counts_bounds [of 1 "rank + 1"] by (simp add: reciprocal_rank_def)
qed

section \<open>Unfolding a scored query\<close>

definition scored :: "int list \<Rightarrow> nat \<Rightarrow> bool" where
  "scored ground_truth k = (0 < k \<and> truth_set ground_truth k \<noteq> {})"

lemma not_scored: "\<not> scored g k \<Longrightarrow> compute_metrics r g k = not_penalized"
  by (auto simp: compute_metrics_def scored_def Let_def)

lemma card_truth_pos: "scored g k \<Longrightarrow> 0 < card (truth_set g k)"
  by (simp add: scored_def card_gt_0_iff)

lemma scored_fields:
  assumes "scored g k"
  shows
    "recall (compute_metrics r g k) =
       fdiv (f64_of_nat (count_in (truth_set g k) (topk k r))) (f64_of_nat (card (truth_set g k)))"
    "precision (compute_metrics r g k) =
       (if topk k r = [] then 0
        else fdiv (f64_of_nat (count_in (truth_set g k) (topk k r))) (f64_of_nat (length (topk k r))))"
    "recall_at_top (compute_metrics r g k) =
       fdiv (f64_of_nat (count_in (truth_set g k) (topk k r))) (f64_of_nat k)"
    "mrr (compute_metrics r g k) = reciprocal_rank (truth_set g k) (topk k r)"
    "ndcg (compute_metrics r g k) = fdiv (dcg (truth_set g k) (topk k r)) (idcg (card (truth_set g k)))"
  using assms card_truth_pos [OF assms] idcg_pos [of "card (truth_set g k)"]
  by (auto simp: compute_metrics_def scored_def Let_def)

lemma not_penalized_simps [simp]:
  "recall not_penalized = 1" "precision not_penalized = 1" "recall_at_top not_penalized = 1"
  "mrr not_penalized = 1" "ndcg not_penalized = 1"
  by (simp_all add: not_penalized_def)

lemma fdiv_smaller_denominator:
  assumes "0 < m" and "m \<le> n"
  shows "fdiv (f64_of_nat h) (f64_of_nat n) \<le> fdiv (f64_of_nat h) (f64_of_nat m)"
  using assms f64_of_nat_ge_1 [OF assms(1)] unfolding fdiv_def f64_of_nat_def
  by (intro f64.ratio_antimono) simp_all

lemma ndcg_bounds:
  assumes "count_in truth results \<le> n" and "0 < n"
  shows "0 \<le> fdiv (dcg truth results) (idcg n) \<and> fdiv (dcg truth results) (idcg n) \<le> 1"
  using dcg_le_idcg [OF assms(1)] dcg_nonneg [of truth results] idcg_pos [OF assms(2)]
  unfolding fdiv_def by (auto intro!: rnd64_nonneg f64.le_one simp: divide_le_eq_1)

lemma filter_enumerate_all:
  "set xs \<subseteq> A \<Longrightarrow> filter (\<lambda>(_, i). i \<in> A) (enumerate n xs) = enumerate n xs"
  by (induction xs arbitrary: n) auto

lemma filter_enumerate_none:
  "set xs \<inter> A = {} \<Longrightarrow> filter (\<lambda>(_, i). i \<in> A) (enumerate n xs) = []"
  by (induction xs arbitrary: n) auto

lemma filter_enumerate_prefix:
  assumes "set (take n xs) \<subseteq> A" and "set (drop n xs) \<inter> A = {}" and "n \<le> length xs"
  shows "hit_ranks A xs = [0..<n]"
proof -
  have "enumerate 0 xs = enumerate 0 (take n xs) @ enumerate n (drop n xs)"
    using enumerate_append_eq [of 0 "take n xs" "drop n xs"] assms(3) by simp
  then have "filter (\<lambda>(_, i). i \<in> A) (enumerate 0 xs) = enumerate 0 (take n xs)"
    by (simp only: filter_append filter_enumerate_all [OF assms(1)]
        filter_enumerate_none [OF assms(2)] append_Nil2)
  then show ?thesis using assms(3) by (simp add: hit_ranks_def)
qed

section \<open>Properties\<close>

text \<open>
  Every published quality figure is a fraction: recall, precision, recall@top, reciprocal
  rank and NDCG of any query, for any ids, ground truth (padded or not) and \<open>k\<close>, lie in
  \<open>[0, 1]\<close> after all \<open>f64\<close> roundings.
\<close>

theorem metrics_in_unit_interval:
  "let m = compute_metrics r g k in
     {recall m, precision m, recall_at_top m, mrr m, ndcg m} \<subseteq> {0..1}"
proof (cases "scored g k")
  case False
  then show ?thesis by (simp add: not_scored)
next
  case True
  note f = scored_fields [OF True] and pos = card_truth_pos [OF True]
  have hk: "count_in (truth_set g k) (topk k r) \<le> k"
    using hits_le_truth [of g k r] card_truth_set_le [of g k] by simp
  show ?thesis
    unfolding Let_def f
    using fdiv_counts_bounds [OF hits_le_truth, of g k r] fdiv_counts_bounds [OF hits_le_results, of g k r]
      fdiv_counts_bounds [OF hk] reciprocal_rank_bounds [of "truth_set g k" "topk k r"]
      ndcg_bounds [OF hits_le_truth pos, of r]
    by simp
qed

text \<open>Membership in the two prefixes, by position.\<close>

lemma in_take_filter:
  "i \<in> set (take k (filter P g)) \<longleftrightarrow> (\<exists>j < length g. g ! j = i \<and> P i \<and> length (filter P (take j g)) < k)"
proof (induction g arbitrary: k)
  case (Cons x g)
  have split: "(\<exists>j < Suc n. Q j) \<longleftrightarrow> Q 0 \<or> (\<exists>j < n. Q (Suc j))" for n and Q :: "nat \<Rightarrow> bool"
    by (metis Suc_less_eq zero_less_Suc not0_implies_Suc)
  show ?case
  proof (cases "P x")
    case True
    then show ?thesis by (cases k) (auto simp: split Cons.IH)
  next
    case False
    then show ?thesis by (auto simp: split Cons.IH)
  qed
qed simp

lemma dedup_snoc: "dedup (xs @ [x]) = (if x \<in> set xs then dedup xs else dedup xs @ [x])"
proof -
  have "dedup_from seen (xs @ [x]) = (if x \<in> set xs \<union> seen then dedup_from seen xs else dedup_from seen xs @ [x])" for seen
    by (induction xs arbitrary: seen) auto
  then show ?thesis by (simp add: dedup_def)
qed

lemma in_topk: "i \<in> set (topk k r) \<longleftrightarrow> (\<exists>j < length r. r ! j = i \<and> card (set (take j r)) < k)"
proof (induction r rule: rev_induct)
  case (snoc x r)
  have split: "(\<exists>j < Suc n. Q j) \<longleftrightarrow> (\<exists>j < n. Q j) \<or> Q n" for n and Q :: "nat \<Rightarrow> bool"
    by (auto simp: less_Suc_eq)
  have old: "(\<exists>j < length r. (r @ [x]) ! j = i \<and> card (set (take j (r @ [x]))) < k) \<longleftrightarrow> i \<in> set (topk k r)"
    unfolding snoc by (auto simp: nth_append)
  have "x = i \<and> card (set r) < k \<Longrightarrow> x \<in> set r \<Longrightarrow> i \<in> set (topk k r)"
    unfolding topk_def using length_dedup [of r] by simp
  moreover have "x \<notin> set r \<Longrightarrow> i \<in> set (topk k (r @ [x])) \<longleftrightarrow> i \<in> set (topk k r) \<or> i = x \<and> card (set r) < k"
    by (auto simp: topk_def dedup_snoc length_dedup take_Cons')
  moreover have "x \<in> set r \<Longrightarrow> topk k (r @ [x]) = topk k r" by (simp add: topk_def dedup_snoc)
  moreover have "(\<exists>j < length (r @ [x]). (r @ [x]) ! j = i \<and> card (set (take j (r @ [x]))) < k) \<longleftrightarrow>
      i \<in> set (topk k r) \<or> x = i \<and> card (set r) < k"
    unfolding length_append_singleton split old by simp
  ultimately show ?case by (cases "x \<in> set r") auto
qed (simp add: topk_def)

text \<open>
  C21: recall is 1 exactly when the page finds the truth, stated by positions.  Every ground-truth entry that is a
  valid id (not negative) and has fewer than \<open>k\<close> valid entries before it must occur in the result list where fewer
  than \<open>k\<close> distinct ids precede it, for any \<open>k\<close> up to \<open>2\<^sup>5\<^sup>3\<close>.  The denominator is the truth that exists, so
  a query with fewer than \<open>k\<close> true neighbours can reach 1, padding counts for nothing and rounding never fakes it.
\<close>

theorem recall_eq_1_iff:
  assumes "k \<le> 2 ^ 53"
  shows "recall (compute_metrics r g k) = 1 \<longleftrightarrow>
    (\<forall>j < length g. g ! j \<ge> 0 \<and> length (filter (\<lambda>i. i \<ge> 0) (take j g)) < k \<longrightarrow>
       (\<exists>m < length r. r ! m = g ! j \<and> card (set (take m r)) < k))"
proof -
  have "recall (compute_metrics r g k) = 1 \<longleftrightarrow> truth_set g k \<subseteq> set (topk k r)"
  proof (cases "scored g k")
    case True
    let ?h = "count_in (truth_set g k) (topk k r)" and ?t = "card (truth_set g k)"
    have pos: "0 < ?t" by (rule card_truth_pos [OF True])
    have "?t \<le> 2 ^ 53" using card_truth_set_le [of g k] assms by simp
    then have "fdiv (f64_of_nat ?h) (f64_of_nat ?t) = 1 \<longleftrightarrow> ?h = ?t"
      using fdiv_counts_lt_1 [of ?h ?t] hits_le_truth [of g k r] fdiv_counts_eq_1 [OF pos]
      by (metis less_irrefl order.not_eq_order_implies_strict)
    then show ?thesis by (simp only: scored_fields(1) [OF True] hits_eq_truth_iff)
  next
    case False
    then have "truth_set g k = {}" by (auto simp: scored_def truth_set_def)
    with False show ?thesis by (simp add: not_scored not_penalized_def)
  qed
  also have "\<dots> \<longleftrightarrow> (\<forall>j < length g. g ! j \<ge> 0 \<and> length (filter (\<lambda>i. i \<ge> 0) (take j g)) < k \<longrightarrow> g ! j \<in> set (topk k r))"
    unfolding truth_set_def subset_iff in_take_filter by auto
  finally show ?thesis by (simp only: in_topk)
qed

theorem recall_eq_1_iff_witness:
  "recall (compute_metrics [9, 7, 9] [-1, 7, -1] 2) = 1 \<and> recall (compute_metrics [9, 9, 8, 7] [-1, 7, -1] 2) \<noteq> 1"
proof
  show "recall (compute_metrics [9, 7, 9] [-1, 7, -1] 2) = 1"
    by (subst recall_eq_1_iff, simp) code_simp
  show "recall (compute_metrics [9, 9, 8, 7] [-1, 7, -1] 2) \<noteq> 1"
    by (subst recall_eq_1_iff, simp) code_simp
qed

text \<open>
  The three denominators are ordered.  On every query recall@top (upstream's
  \<open>mean_precisions\<close>) is at most recall and at most precision at returned, so a published
  recall or precision is never below upstream's figure for the same results.
\<close>

theorem recall_at_top_least:
  "let m = compute_metrics r g k in recall_at_top m \<le> recall m \<and> recall_at_top m \<le> precision m"
proof (cases "scored g k")
  case False
  then show ?thesis by (simp add: not_scored)
next
  case True
  note f = scored_fields [OF True] and pos = card_truth_pos [OF True]
  let ?h = "count_in (truth_set g k) (topk k r)"
  have "recall_at_top (compute_metrics r g k) \<le> recall (compute_metrics r g k)"
    unfolding f by (rule fdiv_smaller_denominator [OF pos card_truth_set_le])
  moreover have "recall_at_top (compute_metrics r g k) \<le> precision (compute_metrics r g k)"
  proof (cases "topk k r = []")
    case True
    then have "?h = 0" by (simp add: count_in_def)
    then show ?thesis unfolding f by (simp add: fdiv_def)
  next
    case False
    then show ?thesis unfolding f by (simp add: fdiv_smaller_denominator)
  qed
  ultimately show ?thesis by (simp add: Let_def)
qed

text \<open>
  C22: scoring sees only the page it is meant to see: repeated ids, anything after the first
  \<open>k\<close> distinct ids, padding and surplus truth can be removed from the inputs without changing
  any metric.
\<close>

theorem compute_metrics_normalized:
  "compute_metrics r g k = compute_metrics (topk k r) (take k (filter (\<lambda>i. i \<ge> 0) g)) k"
proof -
  have "filter (\<lambda>i. i \<ge> 0) (take k (filter (\<lambda>i. i \<ge> 0) g)) = take k (filter (\<lambda>i. i \<ge> 0) g)"
    by (rule filter_True) (auto dest: in_set_takeD)
  then have "truth_set (take k (filter (\<lambda>i. i \<ge> 0) g)) k = truth_set g k"
    by (simp add: truth_set_def)
  moreover have "topk k (topk k r) = topk k r" by (rule topk_id) simp_all
  ultimately show ?thesis by (simp add: compute_metrics_def Let_def)
qed

text \<open>
  A page that leads with all the true neighbours, in any order among themselves, scores
  recall, reciprocal rank and NDCG exactly 1, whatever follows them.
\<close>

theorem perfect_prefix_scores_1:
  assumes "scored g k" and "set (take (card (truth_set g k)) (topk k r)) = truth_set g k"
  shows "let m = compute_metrics r g k in recall m = 1 \<and> mrr m = 1 \<and> ndcg m = 1"
proof -
  let ?t = "card (truth_set g k)" and ?p = "topk k r"
  have pos: "0 < ?t" by (rule card_truth_pos [OF assms(1)])
  have sub: "truth_set g k \<subseteq> set ?p" using set_take_subset [of ?t ?p] unfolding assms(2) .
  have "?t \<le> length ?p"
    using card_mono [OF List.finite_set sub] distinct_card [OF distinct_topk, of k r] by (rule ord_le_eq_trans)
  moreover have "set (drop ?t ?p) \<inter> truth_set g k = {}"
    using set_take_disj_set_drop_if_distinct [OF distinct_topk order.refl, of ?t k r]
    unfolding assms(2) by (simp add: Int_commute)
  ultimately have hr: "hit_ranks (truth_set g k) ?p = [0..<?t]"
    by (intro filter_enumerate_prefix) (simp_all add: assms(2))
  have "dcg (truth_set g k) ?p = idcg ?t" by (simp add: dcg_eq idcg_def hr)
  then have "ndcg (compute_metrics r g k) = 1"
    unfolding scored_fields [OF assms(1)] using idcg_pos [OF pos] by (simp add: fdiv_def)
  moreover have "recall (compute_metrics r g k) = 1"
    unfolding scored_fields [OF assms(1)] hits_eq_truth_iff [THEN iffD2, OF sub]
    by (rule fdiv_counts_eq_1 [OF pos])
  moreover have "mrr (compute_metrics r g k) = 1"
  proof -
    obtain x xs where p: "?p = x # xs"
      using \<open>?t \<le> length ?p\<close> pos by (cases ?p) auto
    then have "x \<in> truth_set g k" using assms(2) pos by (cases ?t) auto
    then show ?thesis unfolding scored_fields [OF assms(1)] p by (simp add: reciprocal_rank_def fdiv_def)
  qed
  ultimately show ?thesis by (simp add: Let_def)
qed

theorem perfect_prefix_scores_1_witness:
  "scored [4, 5] 3 \<and> ndcg (compute_metrics [5, 4, 8] [4, 5] 3) = 1"
proof -
  have h: "scored [4, 5] 3" by (simp add: scored_def truth_set_def)
  have "truth_set [4, 5] 3 = {4, 5}" by (auto simp: truth_set_def)
  then have "set (take (card (truth_set [4, 5] 3)) (topk 3 [5, 4, 8])) = truth_set [4, 5] 3"
    by (auto simp: topk_def dedup_def)
  from perfect_prefix_scores_1 [OF h this] h show ?thesis by (simp add: Let_def)
qed

end
