(* ===== verification/Transition.thy ===== *)
theory Transition
  imports Main
begin

text \<open>
  Interfaces for the concurrent parts of the benchmark.  A harness is a pair of relations on global
  states: \<open>step\<close>, the moves its threads make, and \<open>noise\<close>, moves that carry no progress (the spurious
  wake-ups that a condition variable is allowed to produce).  The locales below prove once what the
  start gate and the streaming upload driver both need: invariants hold in every reachable state, no
  run makes progress forever, and every reachable state can run on to a final one.
\<close>

locale invariant_system =
  fixes init :: "'s \<Rightarrow> bool"
    and step :: "'s \<Rightarrow> 's \<Rightarrow> bool"
    and inv :: "'s \<Rightarrow> bool"
  assumes inv_init: "init s \<Longrightarrow> inv s"
    and inv_step: "inv s \<Longrightarrow> step s s' \<Longrightarrow> inv s'"
begin

lemma inv_run:
  assumes "step\<^sup>*\<^sup>* s s'" and "inv s"
  shows "inv s'"
  using assms by (induction rule: rtranclp_induct) (auto intro: inv_step)

lemma reachable_inv:
  assumes "init s0" and "step\<^sup>*\<^sup>* s0 s"
  shows "inv s"
  using assms inv_init inv_run by blast

end

locale progress_system = invariant_system init "\<lambda>s s'. step s s' \<or> noise s s'" inv
  for init :: "'s \<Rightarrow> bool"
    and step :: "'s \<Rightarrow> 's \<Rightarrow> bool"
    and noise :: "'s \<Rightarrow> 's \<Rightarrow> bool"
    and inv :: "'s \<Rightarrow> bool" +
  fixes final :: "'s \<Rightarrow> bool"
  assumes step_wf: "wf {(s', s). step s s'}"
    and not_stuck: "inv s \<Longrightarrow> \<not> final s \<Longrightarrow> \<exists>s'. step s s'"
begin

lemma no_endless_progress: "\<not> (\<forall>i :: nat. step (f i) (f (Suc i)))"
  using step_wf unfolding wf_iff_no_infinite_down_chain by blast

lemma inv_reaches_final:
  assumes "inv s"
  shows "\<exists>t. step\<^sup>*\<^sup>* s t \<and> final t"
  using step_wf assms
proof (induction s rule: wf_induct_rule)
  case (less s)
  show ?case
  proof (cases "final s")
    case True
    then show ?thesis by blast
  next
    case False
    with not_stuck less.prems obtain t where t: "step s t" by blast
    with inv_step less.prems have "inv t" by blast
    with less.IH t obtain u where "step\<^sup>*\<^sup>* t u" "final u" by blast
    with t show ?thesis by (meson converse_rtranclp_into_rtranclp)
  qed
qed

lemma reaches_final:
  assumes "init s0" and "(\<lambda>s s'. step s s' \<or> noise s s')\<^sup>*\<^sup>* s0 s"
  shows "\<exists>t. step\<^sup>*\<^sup>* s t \<and> final t"
  using reachable_inv[OF assms] by (rule inv_reaches_final)

lemma stuck_is_final:
  assumes "init s0" and "(\<lambda>s s'. step s s' \<or> noise s s')\<^sup>*\<^sup>* s0 s"
    and "\<nexists>s'. step s s'"
  shows "final s"
  using assms reachable_inv not_stuck by blast

end

end
