(* ===== verification/Start_Gate.thy ===== *)
theory Start_Gate
  imports Prelude Transition "HOL-Library.List_Lexorder" "HOL-Library.Char_ord"
begin

text \<open>
  The synchronized start of the parallel search harnesses (\<open>src/src/start_gate.rs\<close>).

  First the operations on the gate's mutex-protected state and on a worker's ticket, one definition
  per critical section.  Then the whole protocol as a step relation: the coordinator runs the usage
  the module documents (a loop of \<open>WorkerPool::spawn\<close>, then \<open>start\<close>, then the pool's \<open>Drop\<close>), the workers
  run their closures.  A critical section is one step; the \<open>notify_all\<close> after it is a step of its own,
  because the code drops the lock first, and a parked thread moves only after a notification or a
  spurious wake-up.  Instants are natural numbers.
\<close>

section \<open>The gate\<close>

datatype phase = Waiting | Released nat | Aborted

record gate_state =
  settled :: nat
  ready :: nat
  lost :: nat
  failures :: "string list"
  phase :: phase

datatype outcome = Ready | Lost | Failed string

datatype gate_error =
    Below_Strength nat nat nat "string list"
  | Thread_Refused nat nat
  | Wrong_Worker_Count nat nat
  | Panicked_Mid_Run nat nat
  | Early_Exit

definition new_gate :: gate_state where
  "new_gate = \<lparr>settled = 0, ready = 0, lost = 0, failures = [], phase = Waiting\<rparr>"

fun settle :: "outcome \<Rightarrow> gate_state \<Rightarrow> gate_state" where
  "settle Ready g = g\<lparr>settled := settled g + 1, ready := ready g + 1\<rparr>"
| "settle Lost g = g\<lparr>settled := settled g + 1, lost := lost g + 1\<rparr>"
| "settle (Failed reason) g =
     g\<lparr>settled := settled g + 1, failures := failures g @ [reason]\<rparr>"

definition release :: "nat \<Rightarrow> gate_state \<Rightarrow> gate_state" where
  "release at g = (if phase g = Waiting then g\<lparr>phase := Released at\<rparr> else g)"

definition abort :: "gate_state \<Rightarrow> gate_state" where
  "abort g = (if phase g = Waiting then g\<lparr>phase := Aborted\<rparr> else g)"

text \<open>The condition of the \<open>while\<close> loop of \<open>wait_ready\<close>, and what follows the loop.\<close>

definition must_wait :: "nat \<Rightarrow> gate_state \<Rightarrow> bool" where
  "must_wait expected g \<longleftrightarrow> settled g < expected \<and> phase g \<noteq> Aborted"

definition wait_ready :: "nat \<Rightarrow> gate_state \<Rightarrow> (gate_error + unit) \<times> gate_state" where
  "wait_ready expected g =
     (if lost g = 0 \<and> failures g = [] \<and> phase g \<noteq> Aborted then (Inr (), g)
      else (Inl (Below_Strength (ready g) expected (lost g) (remdups_adj (sort (failures g)))),
            g\<lparr>phase := Aborted\<rparr>))"

section \<open>Tickets\<close>

record worker_ticket = ticket_settled :: bool

definition ticket :: worker_ticket where
  "ticket = \<lparr>ticket_settled = False\<rparr>"

text \<open>\<open>arrive_and_wait\<close> up to its loop, and one turn of the loop: \<open>None\<close> parks.\<close>

definition arrive :: "worker_ticket \<Rightarrow> gate_state \<Rightarrow> worker_ticket \<times> gate_state" where
  "arrive t g = (t\<lparr>ticket_settled := True\<rparr>, settle Ready g)"

fun poll :: "gate_state \<Rightarrow> nat option option" where
  "poll g = (case phase g of Released at \<Rightarrow> Some (Some at) | Aborted \<Rightarrow> Some None | Waiting \<Rightarrow> None)"

definition fail :: "string \<Rightarrow> worker_ticket \<Rightarrow> gate_state \<Rightarrow> worker_ticket \<times> gate_state" where
  "fail reason t g = (t\<lparr>ticket_settled := True\<rparr>, settle (Failed reason) g)"

definition drop_ticket :: "worker_ticket \<Rightarrow> gate_state \<Rightarrow> gate_state" where
  "drop_ticket t g = (if ticket_settled t then g else settle Lost g)"

section \<open>The harness as a step relation\<close>

text \<open>
  A worker warms up (\<open>Setup\<close>, holding its ticket), reports (\<open>Arriving\<close> or \<open>Gone\<close>: its ticket has
  settled and the notification is still to come), looks at the gate, parks, measures, and ends with
  a value or with a panic.
\<close>

datatype 'v worker =
    Setup worker_ticket
  | Arriving | At_Gate | Parked
  | Measuring nat
  | Gone | Leaving
  | Ended "'v option"

type_synonym 'v run_result = "gate_error + 'v list \<times> nat"

text \<open>
  The coordinator.  \<open>Aborting c\<close> and \<open>Notifying c\<close> are about to abort the gate and to call
  \<open>notify_all\<close>, and continue with \<open>c\<close>; \<open>Draining hs c\<close> has the handles \<open>hs\<close> left to join and discard;
  \<open>Dropping r\<close> is about to run the pool's \<open>Drop\<close> with the result \<open>r\<close> in hand.
\<close>

datatype 'v coordinator =
    Spawning nat
  | Check_Ready | Parked_Ready
  | Stamping
  | Joining nat "nat list" "'v list" nat
  | Aborting "'v coordinator"
  | Notifying "'v coordinator"
  | Draining "nat list" "'v coordinator"
  | Dropping "'v run_result"
  | Returned "'v run_result"

record 'v harness =
  gate :: gate_state
  workers :: "'v worker list"
  handles :: "nat list"
  planned :: nat
  coord :: "'v coordinator"

definition new_pool :: "nat \<Rightarrow> nat \<Rightarrow> 'v harness" where
  "new_pool plan loops =
     \<lparr>gate = new_gate, workers = [], handles = [], planned = plan, coord = Spawning loops\<rparr>"

text \<open>\<open>Condvar::notify_all\<close>: every parked thread goes back to re-check its condition.\<close>

definition wake :: "'v worker \<Rightarrow> 'v worker" where
  "wake w = (case w of Parked \<Rightarrow> At_Gate | _ \<Rightarrow> w)"

definition wake_coord :: "'v coordinator \<Rightarrow> 'v coordinator" where
  "wake_coord c = (case c of Parked_Ready \<Rightarrow> Check_Ready | _ \<Rightarrow> c)"

definition notify_all :: "'v harness \<Rightarrow> 'v harness" where
  "notify_all s = s\<lparr>workers := map wake (workers s), coord := wake_coord (coord s)\<rparr>"

definition set_worker :: "nat \<Rightarrow> 'v worker \<Rightarrow> 'v harness \<Rightarrow> 'v harness" where
  "set_worker i w s = s\<lparr>workers := (workers s)[i := w]\<rparr>"

definition worker_at :: "'v harness \<Rightarrow> nat \<Rightarrow> 'v worker \<Rightarrow> bool" where
  "worker_at s i w \<longleftrightarrow> i < length (workers s) \<and> workers s ! i = w"

inductive worker_step :: "'v harness \<Rightarrow> 'v harness \<Rightarrow> bool" where
  arrives: "worker_at s i (Setup t) \<Longrightarrow> arrive t (gate s) = (t', g') \<Longrightarrow>
    worker_step s (set_worker i Arriving (s\<lparr>gate := g'\<rparr>))"
| fails: "worker_at s i (Setup t) \<Longrightarrow> fail reason t (gate s) = (t', g') \<Longrightarrow>
    worker_step s (set_worker i Gone (s\<lparr>gate := drop_ticket t' g'\<rparr>))"
| is_lost: "worker_at s i (Setup t) \<Longrightarrow>
    worker_step s (set_worker i Gone (s\<lparr>gate := drop_ticket t (gate s)\<rparr>))"
| notifies_ready: "worker_at s i Arriving \<Longrightarrow>
    worker_step s (set_worker i At_Gate (notify_all s))"
| notifies_gone: "worker_at s i Gone \<Longrightarrow>
    worker_step s (set_worker i Leaving (notify_all s))"
| parks: "worker_at s i At_Gate \<Longrightarrow> poll (gate s) = None \<Longrightarrow>
    worker_step s (set_worker i Parked s)"
| measures: "worker_at s i At_Gate \<Longrightarrow> poll (gate s) = Some (Some at) \<Longrightarrow>
    worker_step s (set_worker i (Measuring at) s)"
| leaves: "worker_at s i At_Gate \<Longrightarrow> poll (gate s) = Some None \<Longrightarrow>
    worker_step s (set_worker i Leaving s)"
| finishes: "worker_at s i (Measuring at) \<Longrightarrow> worker_step s (set_worker i (Ended v) s)"
| exits: "worker_at s i Leaving \<Longrightarrow> worker_step s (set_worker i (Ended v) s)"

inductive coord_step :: "'v harness \<Rightarrow> 'v harness \<Rightarrow> bool" where
  spawn_ok: "coord s = Spawning (Suc k) \<Longrightarrow>
    coord_step s (s\<lparr>workers := workers s @ [Setup ticket],
                   handles := handles s @ [length (workers s)], coord := Spawning k\<rparr>)"
| spawn_refused: "coord s = Spawning (Suc k) \<Longrightarrow>
    coord_step s (s\<lparr>gate := drop_ticket ticket (gate s), coord := Notifying (Aborting (Dropping
      (Inl (Thread_Refused (length (handles s) + 1) (planned s)))))\<rparr>)"
| early_exit: "coord s = Spawning k \<Longrightarrow> coord_step s (s\<lparr>coord := Dropping (Inl Early_Exit)\<rparr>)"
| start_mismatch: "coord s = Spawning 0 \<Longrightarrow> length (handles s) \<noteq> planned s \<Longrightarrow>
    coord_step s (s\<lparr>handles := [], coord := Aborting (Draining (handles s) (Dropping
      (Inl (Wrong_Worker_Count (length (handles s)) (planned s)))))\<rparr>)"
| start_wait: "coord s = Spawning 0 \<Longrightarrow> length (handles s) = planned s \<Longrightarrow>
    coord_step s (s\<lparr>coord := Check_Ready\<rparr>)"
| wait_parks: "coord s = Check_Ready \<Longrightarrow> must_wait (length (handles s)) (gate s) \<Longrightarrow>
    coord_step s (s\<lparr>coord := Parked_Ready\<rparr>)"
| wait_ok: "coord s = Check_Ready \<Longrightarrow> \<not> must_wait (length (handles s)) (gate s) \<Longrightarrow>
    wait_ready (length (handles s)) (gate s) = (Inr (), g') \<Longrightarrow>
    coord_step s (s\<lparr>gate := g', coord := Stamping\<rparr>)"
| wait_err: "coord s = Check_Ready \<Longrightarrow> \<not> must_wait (length (handles s)) (gate s) \<Longrightarrow>
    wait_ready (length (handles s)) (gate s) = (Inl e, g') \<Longrightarrow>
    coord_step s (s\<lparr>gate := g', handles := [],
                   coord := Notifying (Draining (handles s) (Dropping (Inl e)))\<rparr>)"
| releases: "coord s = Stamping \<Longrightarrow>
    coord_step s (s\<lparr>gate := release at (gate s), handles := [],
                   coord := Notifying (Joining at (handles s) [] 0)\<rparr>)"
| aborts: "coord s = Aborting c \<Longrightarrow>
    coord_step s (s\<lparr>gate := abort (gate s), coord := Notifying c\<rparr>)"
| notifies: "coord s = Notifying c \<Longrightarrow> coord_step s ((notify_all s)\<lparr>coord := c\<rparr>)"
| join_value: "coord s = Joining at (h # hs) vs p \<Longrightarrow> worker_at s h (Ended (Some v)) \<Longrightarrow>
    coord_step s (s\<lparr>coord := Joining at hs (vs @ [v]) p\<rparr>)"
| join_panic: "coord s = Joining at (h # hs) vs p \<Longrightarrow> worker_at s h (Ended None) \<Longrightarrow>
    coord_step s (s\<lparr>coord := Joining at hs vs (p + 1)\<rparr>)"
| joined: "coord s = Joining at [] vs p \<Longrightarrow>
    coord_step s (s\<lparr>coord := Dropping
      (if p > 0 then Inl (Panicked_Mid_Run p (planned s)) else Inr (vs, at))\<rparr>)"
| drains: "coord s = Draining (h # hs) c \<Longrightarrow> worker_at s h (Ended v) \<Longrightarrow>
    coord_step s (s\<lparr>coord := Draining hs c\<rparr>)"
| drained: "coord s = Draining [] c \<Longrightarrow> coord_step s (s\<lparr>coord := c\<rparr>)"
| drops: "coord s = Dropping r \<Longrightarrow>
    coord_step s (s\<lparr>gate := abort (gate s), handles := [],
                   coord := Notifying (Draining (handles s) (Returned r))\<rparr>)"

inductive spurious :: "'v harness \<Rightarrow> 'v harness \<Rightarrow> bool" where
  worker_wakes: "worker_at s i Parked \<Longrightarrow> spurious s (set_worker i At_Gate s)"
| coord_wakes: "coord s = Parked_Ready \<Longrightarrow> spurious s (s\<lparr>coord := Check_Ready\<rparr>)"

definition harness_step :: "'v harness \<Rightarrow> 'v harness \<Rightarrow> bool" where
  "harness_step s s' \<longleftrightarrow> worker_step s s' \<or> coord_step s s'"

definition harness_run :: "'v harness \<Rightarrow> 'v harness \<Rightarrow> bool" where
  "harness_run = (\<lambda>s s'. harness_step s s' \<or> spurious s s')\<^sup>*\<^sup>*"

fun returned :: "'v harness \<Rightarrow> bool" where
  "returned s = (case coord s of Returned _ \<Rightarrow> True | _ \<Rightarrow> False)"

section \<open>What every reachable state satisfies\<close>

fun is_setup :: "'v worker \<Rightarrow> bool" where
  "is_setup (Setup _) = True"
| "is_setup _ = False"

fun is_ready :: "'v worker \<Rightarrow> bool" where
  "is_ready Arriving = True"
| "is_ready At_Gate = True"
| "is_ready Parked = True"
| "is_ready _ = False"

fun is_gone :: "'v worker \<Rightarrow> bool" where
  "is_gone Gone = True"
| "is_gone Leaving = True"
| "is_gone (Ended _) = True"
| "is_gone _ = False"

fun starting :: "'v coordinator \<Rightarrow> bool" where
  "starting (Spawning _) = True"
| "starting Check_Ready = True"
| "starting Parked_Ready = True"
| "starting Stamping = True"
| "starting _ = False"

fun closing :: "'v coordinator \<Rightarrow> bool" where
  "closing (Aborting c) = closing c"
| "closing (Notifying c) = closing c"
| "closing (Draining _ c) = closing c"
| "closing c = (\<not> starting c)"

text \<open>States that wait for workers: the gate must have been opened or torn down before.\<close>

fun needs_closed :: "'v coordinator \<Rightarrow> bool" where
  "needs_closed (Notifying c) = needs_closed c"
| "needs_closed (Draining _ _) = True"
| "needs_closed (Joining _ _ _ _) = True"
| "needs_closed (Returned _) = True"
| "needs_closed _ = False"

fun core :: "'v coordinator \<Rightarrow> 'v coordinator" where
  "core (Aborting c) = core c"
| "core (Notifying c) = core c"
| "core (Draining _ c) = core c"
| "core c = c"

fun pending_handles :: "'v coordinator \<Rightarrow> nat set" where
  "pending_handles (Aborting c) = pending_handles c"
| "pending_handles (Notifying c) = pending_handles c"
| "pending_handles (Draining hs c) = set hs \<union> pending_handles c"
| "pending_handles (Joining _ hs _ _) = set hs"
| "pending_handles _ = {}"

abbreviation n_workers :: "('v worker \<Rightarrow> bool) \<Rightarrow> 'v harness \<Rightarrow> nat" where
  "n_workers P s \<equiv> length (filter P (workers s))"

abbreviation all_workers :: "('v worker \<Rightarrow> bool) \<Rightarrow> 'v harness \<Rightarrow> bool" where
  "all_workers P s \<equiv> \<forall>w \<in> set (workers s). P w"

definition accounted :: "'v harness \<Rightarrow> bool" where
  "accounted s \<longleftrightarrow> settled (gate s) = ready (gate s) + lost (gate s) + length (failures (gate s))"

definition at_opening :: "'v harness \<Rightarrow> bool" where
  "at_opening s \<longleftrightarrow> (starting (coord s) \<longrightarrow>
     phase (gate s) = Waiting \<and> ready (gate s) = n_workers is_ready s \<and>
     lost (gate s) + length (failures (gate s)) = n_workers is_gone s \<and>
     handles s = [0..<length (workers s)])"

definition staffed :: "'v harness \<Rightarrow> bool" where
  "staffed s \<longleftrightarrow>
     (coord s \<in> {Check_Ready, Parked_Ready, Stamping} \<longrightarrow> length (workers s) = planned s) \<and>
     (coord s = Stamping \<longrightarrow> ready (gate s) = planned s \<and> lost (gate s) = 0 \<and> failures (gate s) = [])"

definition fresh_tickets :: "'v harness \<Rightarrow> bool" where
  "fresh_tickets s \<longleftrightarrow> all_workers (\<lambda>w. \<forall>t. w = Setup t \<longrightarrow> \<not> ticket_settled t) s"

definition measured :: "'v harness \<Rightarrow> bool" where
  "measured s \<longleftrightarrow> all_workers (\<lambda>w. \<forall>at. w = Measuring at \<longrightarrow> phase (gate s) = Released at) s"

definition full_strength :: "'v harness \<Rightarrow> bool" where
  "full_strength s \<longleftrightarrow> (\<forall>at. phase (gate s) = Released at \<longrightarrow>
     length (workers s) = planned s \<and> ready (gate s) = planned s \<and>
     lost (gate s) = 0 \<and> failures (gate s) = [] \<and> all_workers (\<lambda>w. \<not> is_setup w) s)"

definition woken :: "'v harness \<Rightarrow> bool" where
  "woken s \<longleftrightarrow> (Parked \<in> set (workers s) \<and> phase (gate s) \<noteq> Waiting \<longrightarrow> (\<exists>c. coord s = Notifying c))"

definition coord_woken :: "'v harness \<Rightarrow> bool" where
  "coord_woken s \<longleftrightarrow> (coord s = Parked_Ready \<and> \<not> must_wait (length (handles s)) (gate s) \<longrightarrow>
     Arriving \<in> set (workers s) \<or> Gone \<in> set (workers s))"

definition gate_closed :: "'v harness \<Rightarrow> bool" where
  "gate_closed s \<longleftrightarrow> (starting (coord s) \<or> closing (coord s)) \<and>
     (needs_closed (coord s) \<longrightarrow> phase (gate s) \<noteq> Waiting) \<and>
     set (handles s) \<union> pending_handles (coord s) \<subseteq> {..<length (workers s)}"

text \<open>The coordinator's tally of joined workers, and a successful result in hand.\<close>

definition joined_so_far :: "'v harness \<Rightarrow> nat \<Rightarrow> 'v list \<Rightarrow> nat \<Rightarrow> bool" where
  "joined_so_far s n vs p \<longleftrightarrow> n \<le> length (workers s) \<and>
     (\<exists>outs. take n (workers s) = map Ended outs \<and>
        vs = List.map_filter id outs \<and> p = length (filter (\<lambda>v. v = None) outs))"

definition tallied :: "'v harness \<Rightarrow> bool" where
  "tallied s \<longleftrightarrow>
     (\<forall>at hs vs p. core (coord s) = Joining at hs vs p \<longrightarrow> phase (gate s) = Released at \<and>
        (\<exists>n. hs = [n..<length (workers s)] \<and> joined_so_far s n vs p)) \<and>
     (\<forall>vs at. core (coord s) \<in> {Dropping (Inr (vs, at)), Returned (Inr (vs, at))} \<longrightarrow>
        phase (gate s) = Released at \<and> workers s = map (Ended \<circ> Some) vs)"

definition harness_inv :: "'v harness \<Rightarrow> bool" where
  "harness_inv s \<longleftrightarrow> accounted s \<and> at_opening s \<and> staffed s \<and> fresh_tickets s \<and> measured s \<and>
     full_strength s \<and> woken s \<and> coord_woken s \<and> gate_closed s \<and> tallied s"

lemmas inv_defs = accounted_def at_opening_def staffed_def fresh_tickets_def measured_def
  full_strength_def woken_def coord_woken_def gate_closed_def

lemma harness_invD:
  assumes "harness_inv s"
  shows "accounted s" "at_opening s" "staffed s" "fresh_tickets s" "measured s"
    "full_strength s" "woken s" "coord_woken s" "gate_closed s" "tallied s"
  using assms by (auto simp: harness_inv_def)

section \<open>Preservation\<close>

lemma length_filter_update:
  assumes "i < length xs"
  shows "length (filter P (xs[i := x])) =
    length (filter P xs) + (if P x then 1 else 0) - (if P (xs ! i) then 1 else 0)"
  using assms
proof (induction xs arbitrary: i)
  case (Cons y ys)
  have "P (ys ! j) \<Longrightarrow> j < length ys \<Longrightarrow> 0 < length (filter P ys)" for j
    by (auto simp: filter_empty_conv)
  with Cons show ?case by (cases i) auto
qed simp

lemma n_workers_update:
  assumes "worker_at s i w0"
  shows "length (filter P ((workers s)[i := w])) =
    n_workers P s + (if P w then 1 else 0) - (if P w0 then 1 else 0)"
  using assms length_filter_update[of i "workers s" P w] by (simp add: worker_at_def)

lemma worker_at_mem: "worker_at s i w \<Longrightarrow> w \<in> set (workers s)"
  by (auto simp: worker_at_def)

lemma worker_at_all: "worker_at s i w \<Longrightarrow> all_workers P s \<Longrightarrow> P w"
  by (auto simp: worker_at_def)

lemma mem_update_other:
  "worker_at s i w0 \<Longrightarrow> x \<in> set (workers s) \<Longrightarrow> w0 \<noteq> x \<Longrightarrow> x \<in> set ((workers s)[i := y])"
  unfolding worker_at_def by (metis in_set_conv_nth length_list_update nth_list_update_neq)

lemma mem_update_same: "worker_at s i w0 \<Longrightarrow> w \<in> set ((workers s)[i := w])"
  by (simp add: worker_at_def set_update_memI)

lemma mem_updateD: "w \<in> set (xs[i := x]) \<Longrightarrow> w = x \<or> w \<in> set xs"
  using set_update_subset_insert by fastforce

lemma wake_simps [simp]:
  "is_setup (wake w) = is_setup w" "is_ready (wake w) = is_ready w" "is_gone (wake w) = is_gone w"
  "wake At_Gate = At_Gate" "wake Leaving = Leaving"
  "wake w \<noteq> Parked" "Parked \<noteq> wake w" "wake w = Setup t \<longleftrightarrow> w = Setup t" "wake w = Measuring at \<longleftrightarrow> w = Measuring at"
  "wake w = Arriving \<longleftrightarrow> w = Arriving" "wake w = Gone \<longleftrightarrow> w = Gone" "wake w = Ended v \<longleftrightarrow> w = Ended v"
  by ((cases w; simp add: wake_def) | simp add: wake_def)+

lemma wake_coord_simps [simp]:
  "wake_coord c \<noteq> Parked_Ready" "starting (wake_coord c) = starting c"
  "closing (wake_coord c) = closing c" "needs_closed (wake_coord c) = needs_closed c"
  "pending_handles (wake_coord c) = pending_handles c" "wake_coord c = Stamping \<longleftrightarrow> c = Stamping"
  "wake_coord c = Notifying d \<longleftrightarrow> c = Notifying d"
  "wake_coord c = Check_Ready \<longleftrightarrow> c = Check_Ready \<or> c = Parked_Ready"
  "core (wake_coord c) = Joining at hs vs p \<longleftrightarrow> core c = Joining at hs vs p"
  "core (wake_coord c) = Dropping r \<longleftrightarrow> core c = Dropping r"
  "core (wake_coord c) = Returned r \<longleftrightarrow> core c = Returned r"
  by (cases c; simp add: wake_coord_def)+

lemma settle_simps [simp]:
  "phase (settle oc g) = phase g" "settled (settle oc g) = Suc (settled g)"
  by (cases oc; simp)+

lemma drop_settled [simp]: "drop_ticket (t\<lparr>ticket_settled := True\<rparr>) g = g"
  by (simp add: drop_ticket_def)

lemmas gate_defs = arrive_def fail_def ticket_def release_def abort_def must_wait_def wait_ready_def

lemma set_worker_simps [simp]:
  "workers (set_worker i w s) = (workers s)[i := w]" "gate (set_worker i w s) = gate s"
  "handles (set_worker i w s) = handles s" "planned (set_worker i w s) = planned s"
  "coord (set_worker i w s) = coord s" "worker_at (s\<lparr>gate := g\<rparr>) j x = worker_at s j x"
  by (simp_all add: set_worker_def worker_at_def)

lemma notify_all_simps [simp]:
  "workers (notify_all s) = map wake (workers s)" "gate (notify_all s) = gate s"
  "handles (notify_all s) = handles s" "planned (notify_all s) = planned s"
  "coord (notify_all s) = wake_coord (coord s)"
  by (simp_all add: notify_all_def)

lemma set_worker_notify_all:
  "wake w = w \<Longrightarrow> set_worker i w (notify_all s) = notify_all (set_worker i w s)"
  by (simp add: set_worker_def notify_all_def map_update)

subsection \<open>Workers\<close>

lemma worker_step_accounted: "worker_step s s' \<Longrightarrow> accounted s \<Longrightarrow> accounted s'"
  by (induction rule: worker_step.induct) (auto simp: gate_defs accounted_def drop_ticket_def)

lemma worker_step_at_opening:
  assumes "worker_step s s'" "measured s" "fresh_tickets s" "at_opening s"
  shows "at_opening s'"
  using assms
proof (induction rule: worker_step.induct)
  case (is_lost s i t)
  then have "\<not> ticket_settled t" by (auto simp: fresh_tickets_def dest: worker_at_mem)
  with is_lost show ?case by (auto simp: at_opening_def drop_ticket_def n_workers_update)
next
  case (finishes s i at v)
  then have "phase (gate s) = Released at" by (auto simp: measured_def dest: worker_at_mem)
  with finishes show ?case by (auto simp: at_opening_def)
qed (auto simp: gate_defs at_opening_def n_workers_update set_worker_notify_all filter_map comp_def
      split: phase.splits)

lemma stamping_all_ready:
  assumes "coord s = Stamping" "staffed s" "at_opening s"
  shows "all_workers is_ready s"
proof -
  have "length (filter is_ready (workers s)) = length (workers s)"
    using assms by (auto simp: staffed_def at_opening_def)
  then show ?thesis by (metis filter_id_conv length_filter_less not_less_iff_gr_or_eq)
qed

lemma worker_step_staffed:
  assumes "worker_step s s'" "at_opening s" "staffed s"
  shows "staffed s'"
proof (cases "coord s = Stamping")
  case True
  with stamping_all_ready assms have *: "all_workers is_ready s" by blast
  then have no: "\<not> worker_at s i (Setup t)" for i t
    using worker_at_all[of s i "Setup t" is_ready] by auto
  with assms(1) have "gate s' = gate s" by cases (auto simp: gate_defs)
  with assms show ?thesis by cases (auto simp: staffed_def)
next
  case False
  with assms show ?thesis by cases (auto simp: staffed_def)
qed

lemma worker_step_fresh_tickets: "worker_step s s' \<Longrightarrow> fresh_tickets s \<Longrightarrow> fresh_tickets s'"
  by (induction rule: worker_step.induct)
    (auto simp: fresh_tickets_def set_worker_notify_all dest!: mem_updateD)

lemma worker_step_measured: "worker_step s s' \<Longrightarrow> measured s \<Longrightarrow> measured s'"
  by (induction rule: worker_step.induct)
    (auto simp: measured_def set_worker_notify_all gate_defs drop_ticket_def
      dest!: mem_updateD split: phase.splits)

lemma worker_step_full_strength:
  assumes "worker_step s s'" "full_strength s"
  shows "full_strength s'"
  using assms
  by (induction rule: worker_step.induct)
    (auto simp: full_strength_def set_worker_notify_all gate_defs drop_ticket_def
      dest!: mem_updateD dest: worker_at_all[where P = "\<lambda>w. \<not> is_setup w"] split: phase.splits)

lemma worker_step_woken: "worker_step s s' \<Longrightarrow> woken s \<Longrightarrow> woken s'"
  by (induction rule: worker_step.induct)
    (auto simp: woken_def set_worker_notify_all gate_defs drop_ticket_def
      dest!: mem_updateD split: phase.splits)

lemma worker_step_coord_woken: "worker_step s s' \<Longrightarrow> coord_woken s \<Longrightarrow> coord_woken s'"
  by (induction rule: worker_step.induct)
    (auto simp: coord_woken_def set_worker_notify_all gate_defs drop_ticket_def
      intro: mem_update_same mem_update_other split: phase.splits)

lemma worker_step_gate_closed: "worker_step s s' \<Longrightarrow> gate_closed s \<Longrightarrow> gate_closed s'"
  by (induction rule: worker_step.induct)
    (auto simp: gate_closed_def gate_defs drop_ticket_def)

lemma tallied_frame:
  assumes "tallied s"
    and fr: "length (workers s') = length (workers s)" "phase (gate s') = phase (gate s)"
      "coord s' = coord s \<or> coord s' = wake_coord (coord s)"
    and keep: "\<And>i v. i < length (workers s) \<Longrightarrow> workers s ! i = Ended v \<Longrightarrow> workers s' ! i = Ended v"
  shows "tallied s'"
proof -
  have ended: "take n (workers s') = map Ended outs"
    if "take n (workers s) = map Ended outs" "n \<le> length (workers s)" for n outs
  proof (rule nth_equalityI)
    have len: "length outs = n" using that by (metis length_map length_take min.absorb2)
    then show "length (take n (workers s')) = length (map Ended outs)" using fr that by simp
    fix i assume "i < length (take n (workers s'))"
    with that fr have i: "i < n" by simp
    with that len have "workers s ! i = Ended (outs ! i)" by (metis nth_map nth_take)
    with keep[of i] that len i show "take n (workers s') ! i = map Ended outs ! i" by simp
  qed
  then have "joined_so_far s n vs p \<Longrightarrow> joined_so_far s' n vs p" for n vs p
    using fr by (force simp: joined_so_far_def)
  moreover have "workers s = map (Ended \<circ> Some) vs \<Longrightarrow> workers s' = map (Ended \<circ> Some) vs" for vs
    using ended[of "length (workers s)" "map Some vs"] fr by (simp add: comp_def)
  ultimately show ?thesis using assms(1) fr by (fastforce simp: tallied_def)
qed

lemma worker_step_tallied:
  assumes "worker_step s s'" "tallied s"
  shows "tallied s'"
proof (rule tallied_frame[OF assms(2)])
  show "length (workers s') = length (workers s)" "phase (gate s') = phase (gate s)"
    "coord s' = coord s \<or> coord s' = wake_coord (coord s)"
    using assms(1) by (cases; auto simp: gate_defs drop_ticket_def)+
  show "workers s' ! i = Ended v" if "i < length (workers s)" "workers s ! i = Ended v" for i v
    using assms(1) that by cases (auto simp: worker_at_def nth_list_update)
qed

lemma worker_step_inv:
  assumes "harness_inv s" "worker_step s s'"
  shows "harness_inv s'"
  using assms unfolding harness_inv_def
  by (intro conjI) (blast intro: worker_step_accounted worker_step_at_opening worker_step_staffed
      worker_step_fresh_tickets worker_step_measured worker_step_full_strength worker_step_woken
      worker_step_coord_woken worker_step_gate_closed worker_step_tallied)+

subsection \<open>Coordinator\<close>

lemma coord_step_accounted: "coord_step s s' \<Longrightarrow> accounted s \<Longrightarrow> accounted s'"
  by (induction rule: coord_step.induct)
    (auto simp: gate_defs accounted_def drop_ticket_def split: if_splits)

lemma closing_not_starting: "closing c \<Longrightarrow> \<not> starting c"
  by (cases c) auto

lemma coord_step_closing:
  assumes "coord_step s s'" "gate_closed s"
  shows "starting (coord s') \<Longrightarrow> starting (coord s)"
  using assms by cases (auto simp: gate_closed_def dest: closing_not_starting)

lemma coord_step_at_opening:
  assumes "coord_step s s'" "gate_closed s" "at_opening s"
  shows "at_opening s'"
  using assms by cases (auto simp: at_opening_def gate_closed_def gate_defs
      dest: closing_not_starting split: if_splits)

lemma coord_step_staffed:
  assumes "coord_step s s'" "gate_closed s" "at_opening s" "staffed s" "accounted s"
  shows "staffed s'"
  using assms length_filter_le[of is_ready "workers s"]
  by cases (auto simp: at_opening_def gate_closed_def gate_defs staffed_def accounted_def
      dest: closing_not_starting split: if_splits)

lemma coord_step_fresh_tickets: "coord_step s s' \<Longrightarrow> fresh_tickets s \<Longrightarrow> fresh_tickets s'"
  by (induction rule: coord_step.induct) (auto simp: fresh_tickets_def ticket_def)

lemma coord_step_measured: 
  assumes "coord_step s s'" "at_opening s" "measured s" 
  shows "measured s'"
  using assms by cases (auto simp: measured_def gate_defs drop_ticket_def at_opening_def split: if_splits)

lemma coord_step_full_strength:
  assumes "coord_step s s'" "at_opening s" "staffed s" "full_strength s"
  shows "full_strength s'"
proof -
  have "all_workers (\<lambda>w. \<not> is_setup w) s" if "coord s = Stamping"
    using stamping_all_ready[OF that assms(3,2)] by (metis is_ready.simps(4) is_setup.elims(2))
  with assms show ?thesis
    by cases (auto simp: full_strength_def gate_defs drop_ticket_def at_opening_def staffed_def
        split: if_splits)
qed

lemma coord_step_woken: 
  assumes "coord_step s s'" "at_opening s" "woken s" 
  shows "woken s'"
  using assms by cases (auto simp: woken_def gate_defs drop_ticket_def at_opening_def split: if_splits)

lemma coord_step_coord_woken: 
  assumes "coord_step s s'" "at_opening s" "gate_closed s" "coord_woken s" 
  shows "coord_woken s'"
  using assms by cases (auto simp: coord_woken_def gate_closed_def split: if_splits)

lemma coord_step_gate_closed: 
  assumes "coord_step s s'" "at_opening s" "gate_closed s" 
  shows "gate_closed s'"
  using assms by cases (auto simp: gate_closed_def gate_defs at_opening_def split: if_splits)

lemma joined_so_far_0 [simp]: "joined_so_far s 0 [] 0"
  by (auto simp: joined_so_far_def List.map_filter_def)

lemma joined_so_far_Suc:
  assumes "joined_so_far s n vs p" "worker_at s n (Ended v)"
  shows "joined_so_far s (Suc n) (vs @ (case v of Some x \<Rightarrow> [x] | None \<Rightarrow> []))
    (p + (case v of Some _ \<Rightarrow> 0 | None \<Rightarrow> 1))"
proof -
  obtain outs where "take n (workers s) = map Ended outs"
      "vs = List.map_filter id outs" "p = length (filter (\<lambda>v. v = None) outs)"
    using assms(1) unfolding joined_so_far_def by blast
  with assms(2) show ?thesis
    unfolding joined_so_far_def
    by (auto simp: worker_at_def take_Suc_conv_app_nth List.map_filter_def split: option.splits
        intro!: exI[of _ "outs @ [v]"])
qed

lemma joined_all:
  assumes "joined_so_far s (length (workers s)) vs 0"
  shows "workers s = map (Ended \<circ> Some) vs"
proof -
  obtain outs where outs: "workers s = map Ended outs" "vs = List.map_filter id outs"
      "\<forall>v \<in> set outs. v \<noteq> None"
    using assms unfolding joined_so_far_def by (auto simp: filter_empty_conv)
  have "outs = map Some vs"
    using outs(3) unfolding outs(2) by (induction outs) (auto simp: List.map_filter_def)
  with outs(1) show ?thesis by simp
qed

lemma joined_so_far_frame [simp]:
  "joined_so_far (s\<lparr>coord := c\<rparr>) n vs p = joined_so_far s n vs p"
  "joined_so_far (s\<lparr>gate := g\<rparr>) n vs p = joined_so_far s n vs p"
  "joined_so_far (s\<lparr>handles := hs\<rparr>) n vs p = joined_so_far s n vs p"
  by (simp_all add: joined_so_far_def)

lemma map_wake_Ended: "map wake ws = map Ended outs \<longleftrightarrow> ws = map Ended outs"
  by (auto simp: list_eq_iff_nth_eq)

lemma joined_so_far_wake:
  "workers s' = map wake (workers s) \<Longrightarrow> joined_so_far s' n vs p = joined_so_far s n vs p"
  by (simp add: joined_so_far_def take_map map_wake_Ended)

lemma tallied_JoiningD:
  assumes "tallied s" "coord s = Joining at hs vs p"
  shows "phase (gate s) = Released at"
    and "\<exists>n. [n..<length (workers s)] = hs \<and> n \<le> length (workers s) \<and> joined_so_far s n vs p"
  using assms by (auto simp: tallied_def joined_so_far_def)

lemma tallied_JoiningI:
  assumes "coord s = Joining at [n..<length (workers s)] vs p" "joined_so_far s n vs p"
    "phase (gate s) = Released at"
  shows "tallied s"
  using assms by (auto simp: tallied_def)

lemma coord_step_tallied:
  assumes "coord_step s s'" "at_opening s" "tallied s"
  shows "tallied s'"
  using assms(1)
proof cases
  case (join_value at h hs vs p v)
  with tallied_JoiningD[OF assms(3)] obtain n where n: "[n..<length (workers s)] = h # hs"
      "joined_so_far s n vs p" "phase (gate s) = Released at" by metis
  have h: "n = h" "[Suc n..<length (workers s)] = hs"
    using n(1)[unfolded upt_eq_Cons_conv] by (simp, metis Suc_eq_plus1)
  have "joined_so_far s (Suc n) (vs @ [v]) p"
    using joined_so_far_Suc[OF n(2)] join_value(3) unfolding h(1)[symmetric] by fastforce
  then show ?thesis using n(3) join_value unfolding h(2)[symmetric]
    by (intro tallied_JoiningI[of _ at "Suc n"]) simp_all
next
  case (join_panic at h hs vs p)
  with tallied_JoiningD[OF assms(3)] obtain n where n: "[n..<length (workers s)] = h # hs"
      "joined_so_far s n vs p" "phase (gate s) = Released at" by metis
  have h: "n = h" "[Suc n..<length (workers s)] = hs"
    using n(1)[unfolded upt_eq_Cons_conv] by (simp, metis Suc_eq_plus1)
  have "joined_so_far s (Suc n) vs (p + 1)"
    using joined_so_far_Suc[OF n(2)] join_panic(3) unfolding h(1)[symmetric] by fastforce
  then show ?thesis using n(3) join_panic unfolding h(2)[symmetric]
    by (intro tallied_JoiningI[of _ at "Suc n"]) simp_all
next
  case (joined at vs p)
  with tallied_JoiningD[OF assms(3)] have "joined_so_far s (length (workers s)) vs p"
      "phase (gate s) = Released at"
    by (auto simp: upt_eq_Nil_conv)
  with joined joined_all[of s vs] show ?thesis by (auto simp: tallied_def)
next
  case (notifies c)
  have "workers s = map (Ended \<circ> Some) vs \<Longrightarrow> map wake (workers s) = map (Ended \<circ> Some) vs" for vs
    using map_wake_Ended[of "workers s" "map Some vs"] by (simp add: comp_def)
  with notifies assms(3) show ?thesis by (auto simp: tallied_def joined_so_far_wake)
next
  case (releases at)
  with assms(2) show ?thesis by (auto simp: tallied_def gate_defs at_opening_def intro!: exI[of _ 0])
qed (insert assms, auto simp: tallied_def gate_defs split: if_splits)

lemma coord_step_inv:
  assumes "harness_inv s" "coord_step s s'"
  shows "harness_inv s'"
  using assms unfolding harness_inv_def
  by (intro conjI) (blast intro: coord_step_accounted coord_step_at_opening coord_step_staffed
      coord_step_fresh_tickets coord_step_measured coord_step_full_strength coord_step_woken
      coord_step_coord_woken coord_step_gate_closed coord_step_tallied)+

lemma spurious_inv:
  assumes "harness_inv s" "spurious s s'"
  shows "harness_inv s'"
  using assms(2)
proof cases
  case (worker_wakes i)
  have "tallied s'"
    by (rule tallied_frame[OF harness_invD(10)[OF assms(1)]])
      (use worker_wakes in \<open>auto simp: worker_at_def nth_list_update\<close>)
  moreover have "coord_woken s'"
    using harness_invD(8)[OF assms(1)] worker_wakes
    by (auto simp: coord_woken_def intro: mem_update_other)
  moreover have "at_opening s'"
    using harness_invD(2)[OF assms(1)] worker_wakes by (auto simp: at_opening_def n_workers_update)
  moreover have "accounted s'" "staffed s'" "gate_closed s'"
    using harness_invD(1,3,9)[OF assms(1)] worker_wakes
    by (simp_all add: accounted_def staffed_def gate_closed_def)
  moreover have "fresh_tickets s'" "measured s'"
    using harness_invD(4,5)[OF assms(1)] worker_wakes
    by (auto simp: fresh_tickets_def measured_def dest!: mem_updateD)
  moreover have "full_strength s'" "woken s'"
    using harness_invD(6,7)[OF assms(1)] worker_wakes
    by (auto simp: full_strength_def woken_def dest!: mem_updateD dest: worker_at_mem)
  ultimately show ?thesis by (simp add: harness_inv_def)
next
  case coord_wakes
  have "tallied s'" "coord_woken s'"
    using coord_wakes harness_invD(8,10)[OF assms(1)]
    by (auto simp: tallied_def coord_woken_def)
  moreover have "accounted s'" "at_opening s'" "staffed s'" "gate_closed s'"
    using coord_wakes harness_invD(1,2,3,9)[OF assms(1)]
    by (auto simp: accounted_def at_opening_def staffed_def gate_closed_def)
  moreover have "fresh_tickets s'" "measured s'" "full_strength s'" "woken s'"
    using coord_wakes harness_invD(4,5,6,7)[OF assms(1)]
    by (auto simp: fresh_tickets_def measured_def full_strength_def woken_def)
  ultimately show ?thesis by (simp add: harness_inv_def)
qed

section \<open>Progress\<close>

fun worker_notifies :: "'v worker \<Rightarrow> nat" where
  "worker_notifies (Setup _) = 1"
| "worker_notifies Arriving = 1"
| "worker_notifies Gone = 1"
| "worker_notifies _ = 0"

fun worker_weight :: "'v worker \<Rightarrow> nat" where
  "worker_weight (Setup _) = 5"
| "worker_weight Arriving = 4"
| "worker_weight Gone = 4"
| "worker_weight At_Gate = 3"
| "worker_weight Parked = 2"
| "worker_weight (Measuring _) = 1"
| "worker_weight Leaving = 1"
| "worker_weight (Ended _) = 0"

fun spawns_left :: "'v coordinator \<Rightarrow> nat" where
  "spawns_left (Spawning k) = Suc k"
| "spawns_left (Aborting c) = spawns_left c"
| "spawns_left (Notifying c) = spawns_left c"
| "spawns_left (Draining _ c) = spawns_left c"
| "spawns_left _ = 0"

fun coord_notifies :: "'v coordinator \<Rightarrow> nat" where
  "coord_notifies (Spawning _) = 0"
| "coord_notifies Check_Ready = 5"
| "coord_notifies Parked_Ready = 5"
| "coord_notifies Stamping = 4"
| "coord_notifies (Joining _ _ _ _) = 2"
| "coord_notifies (Aborting c) = Suc (coord_notifies c)"
| "coord_notifies (Notifying c) = Suc (coord_notifies c)"
| "coord_notifies (Draining _ c) = coord_notifies c"
| "coord_notifies (Dropping _) = 2"
| "coord_notifies (Returned _) = 0"

fun coord_weight :: "'v coordinator \<Rightarrow> nat" where
  "coord_weight (Check_Ready) = 1"
| "coord_weight (Joining _ hs _ _) = length hs + 2"
| "coord_weight (Aborting c) = Suc (coord_weight c)"
| "coord_weight (Notifying c) = coord_weight c"
| "coord_weight (Draining hs c) = Suc (length hs + coord_weight c)"
| "coord_weight _ = 0"

definition notifications_left :: "'v harness \<Rightarrow> nat" where
  "notifications_left s = sum_list (map worker_notifies (workers s)) + coord_notifies (coord s)"

definition work_left :: "'v harness \<Rightarrow> nat" where
  "work_left s = sum_list (map worker_weight (workers s)) + coord_weight (coord s)"

definition harness_order :: "('v harness \<times> 'v harness) set" where
  "harness_order = measures [spawns_left \<circ> coord, notifications_left, work_left]"

lemma sum_list_update_worker:
  fixes f :: "'v worker \<Rightarrow> nat"
  assumes "worker_at s i w0"
  shows "sum_list (map f ((workers s)[i := w])) = sum_list (map f (workers s)) + f w - f w0"
  using assms sum_list_update[of i "map f (workers s)" "f w"]
  by (simp add: worker_at_def map_update)

lemma worker_le_sum:
  fixes f :: "'v worker \<Rightarrow> nat"
  shows "worker_at s i w0 \<Longrightarrow> f w0 \<le> sum_list (map f (workers s))"
  by (auto simp: worker_at_def intro!: member_le_sum_list)

lemma wake_measures [simp]:
  "worker_notifies (wake w) = worker_notifies w" "worker_notifies \<circ> wake = worker_notifies"
  "coord_notifies (wake_coord c) = coord_notifies c" "spawns_left (wake_coord c) = spawns_left c"
  by (cases w; simp add: wake_def; fail | cases c; simp add: wake_coord_def; fail
      | rule ext, simp add: wake_def split: worker.split)+

lemma worker_step_order:
  assumes "worker_step s s'"
  shows "(s', s) \<in> harness_order"
  using assms
proof cases
  case (notifies_ready i)
  with worker_le_sum[of s i Arriving worker_notifies] show ?thesis
    by (auto simp: harness_order_def notifications_left_def set_worker_notify_all
        sum_list_update_worker)
next
  case (notifies_gone i)
  with worker_le_sum[of s i Gone worker_notifies] show ?thesis
    by (auto simp: harness_order_def notifications_left_def set_worker_notify_all
        sum_list_update_worker)
qed (auto simp: harness_order_def notifications_left_def work_left_def sum_list_update_worker
      dest: worker_le_sum[where f = worker_weight] worker_le_sum[where f = worker_notifies])

lemma coord_step_order:
  assumes "coord_step s s'"
  shows "(s', s) \<in> harness_order"
  using assms by cases (auto simp: harness_order_def notifications_left_def work_left_def)

lemma harness_step_wf: "wf {(s', s). harness_step s s'}"
  by (rule wf_subset[of harness_order])
    (auto simp: harness_step_def worker_step_order coord_step_order, simp add: harness_order_def)

lemma mem_worker_at: "w \<in> set (workers s) \<Longrightarrow> \<exists>i. worker_at s i w"
  by (auto simp: in_set_conv_nth worker_at_def)

lemma setup_can_step: "Setup t \<in> set (workers s) \<Longrightarrow> \<exists>s'. worker_step s s'"
  by (blast dest: mem_worker_at intro: worker_step.is_lost)

lemma pending_notifier_can_step:
  "Arriving \<in> set (workers s) \<or> Gone \<in> set (workers s) \<Longrightarrow> \<exists>s'. worker_step s s'"
  by (blast dest: mem_worker_at intro: worker_step.notifies_ready worker_step.notifies_gone)

text \<open>Once the gate is no longer waiting, a worker that has not ended and is not parked moves.\<close>

lemma live_worker_can_step:
  assumes "i < length (workers s)" "phase (gate s) \<noteq> Waiting" "workers s ! i \<noteq> Parked"
    and "\<And>v. workers s ! i \<noteq> Ended v"
  shows "\<exists>s'. worker_step s s'"
proof -
  have at: "worker_at s i (workers s ! i)" using assms(1) by (simp add: worker_at_def)
  show ?thesis
  proof (cases "workers s ! i")
    case At_Gate
    with at have at: "worker_at s i At_Gate" by simp
    show ?thesis
    proof (cases "phase (gate s)")
      case (Released start)
      then have "poll (gate s) = Some (Some start)" by simp
      with worker_step.measures[OF at] show ?thesis by blast
    next
      case Aborted
      then have "poll (gate s) = Some None" by simp
      with worker_step.leaves[OF at] show ?thesis by blast
    qed (use assms(2) in simp)
  qed (use at assms in \<open>auto intro: worker_step.intros setup_can_step
      pending_notifier_can_step dest: worker_at_mem\<close>)
qed

lemma parked_only_while_notifying:
  assumes "harness_inv s" "phase (gate s) \<noteq> Waiting" "\<And>c. coord s \<noteq> Notifying c"
  shows "i < length (workers s) \<Longrightarrow> workers s ! i \<noteq> Parked"
  using harness_invD(7)[OF assms(1)] assms(2,3) by (auto simp: woken_def in_set_conv_nth)

lemma waits_for_handle:
  assumes "harness_inv s" "\<And>c. coord s \<noteq> Notifying c" "h \<in> pending_handles (coord s)"
    and "needs_closed (coord s)"
  shows "(\<exists>v. worker_at s h (Ended v)) \<or> (\<exists>s'. worker_step s s')"
proof -
  have "h < length (workers s)" "phase (gate s) \<noteq> Waiting"
    using harness_invD(9)[OF assms(1)] assms(3,4) by (auto simp: gate_closed_def)
  with parked_only_while_notifying[OF assms(1)] assms(2) live_worker_can_step[of h s]
  show ?thesis by (auto simp: worker_at_def)
qed

text \<open>A coordinator parked in \<open>wait_ready\<close> still has a warming worker or a pending notification.\<close>

lemma parked_coordinator_not_alone:
  assumes "harness_inv s" "coord s = Parked_Ready"
  shows "\<exists>s'. worker_step s s'"
proof (cases "must_wait (length (handles s)) (gate s)")
  case False
  with harness_invD(8)[OF assms(1)] assms(2) show ?thesis
    by (auto simp: coord_woken_def intro: pending_notifier_can_step)
next
  case True
  note invs = harness_invD[OF assms(1)]
  have "phase (gate s) = Waiting" using invs(2) assms(2) by (simp add: at_opening_def)
  then have nm: "w \<noteq> Measuring at" if "w \<in> set (workers s)" for w at
    using invs(5) that by (auto simp: measured_def)
  have "\<exists>t. Setup t \<in> set (workers s)"
  proof (rule ccontr)
    assume none: "\<nexists>t. Setup t \<in> set (workers s)"
    have "is_ready w \<longleftrightarrow> \<not> is_gone w" if "w \<in> set (workers s)" for w
      using nm[OF that] none that by (cases w) (simp_all, blast)
    then have "filter is_ready (workers s) = filter (\<lambda>w. \<not> is_gone w) (workers s)"
      by (auto intro: filter_cong)
    then have "n_workers is_ready s + n_workers is_gone s = length (workers s)"
      using sum_length_filter_compl[of is_gone "workers s"] by simp
    with True invs(1,2) assms(2) show False
      by (auto simp: must_wait_def accounted_def at_opening_def)
  qed
  then show ?thesis using setup_can_step by blast
qed

lemma harness_not_stuck:
  assumes "harness_inv s" "\<not> returned s"
  shows "\<exists>s'. harness_step s s'"
proof (cases "coord s")
  case (Spawning k)
  then show ?thesis by (auto simp: harness_step_def intro: coord_step.early_exit)
next
  case Check_Ready
  then show ?thesis
    by (cases "must_wait (length (handles s)) (gate s)";
        cases "wait_ready (length (handles s)) (gate s)"; cases "fst (wait_ready (length (handles s)) (gate s))")
      (auto simp: harness_step_def intro: coord_step.wait_parks coord_step.wait_ok
        coord_step.wait_err)
next
  case Parked_Ready
  with parked_coordinator_not_alone assms(1) show ?thesis by (auto simp: harness_step_def)
next
  case (Joining at hs vs p)
  show ?thesis
  proof (cases hs)
    case (Cons h hs')
    with Joining waits_for_handle[OF assms(1), of h]
    consider (ended) v where "worker_at s h (Ended v)" | (moves) s' where "worker_step s s'"
      by auto
    then show ?thesis
    proof cases
      case ended
      with Joining Cons show ?thesis
        by (cases v) (auto simp: harness_step_def
            intro: coord_step.join_value coord_step.join_panic)
    qed (auto simp: harness_step_def)
  qed (use Joining in \<open>auto simp: harness_step_def intro: coord_step.joined\<close>)
next
  case (Draining hs c)
  show ?thesis
  proof (cases hs)
    case (Cons h hs')
    with Draining waits_for_handle[OF assms(1), of h] show ?thesis
      by (auto simp: harness_step_def intro: coord_step.drains)
  qed (use Draining in \<open>auto simp: harness_step_def intro: coord_step.drained\<close>)
qed (use assms(2) in \<open>auto simp: harness_step_def intro: coord_step.intros\<close>)

lemma new_pool_inv: "harness_inv (new_pool plan loops)"
  by (simp add: harness_inv_def inv_defs tallied_def new_pool_def new_gate_def)

interpretation start_gate: progress_system
  "\<lambda>s. \<exists>plan loops. s = new_pool plan loops" harness_step spurious harness_inv returned
proof unfold_locales
  show "wf {(s', s). harness_step s s'}" by (rule harness_step_wf)
qed (auto simp: harness_step_def new_pool_inv simp del: returned.simps
      intro: worker_step_inv coord_step_inv spurious_inv
      dest: harness_not_stuck[unfolded harness_step_def])

section \<open>Properties\<close>

lemma planned_frame:
  "worker_step s s' \<Longrightarrow> planned s' = planned s" "coord_step s s' \<Longrightarrow> planned s' = planned s"
  "spurious s s' \<Longrightarrow> planned s' = planned s"
  by (erule worker_step.cases coord_step.cases spurious.cases; simp)+

lemma planned_run: "harness_run s s' \<Longrightarrow> planned s' = planned s"
  unfolding harness_run_def harness_step_def
  by (induction rule: rtranclp_induct) (auto simp: planned_frame)

lemma run_inv:
  assumes "harness_run (new_pool plan loops) s"
  shows "harness_inv s" "planned s = plan"
  using assms start_gate.reachable_inv[of "new_pool plan loops" s] planned_run[OF assms]
  by (auto simp: harness_run_def new_pool_def)

lemma run_worker: "worker_step s t \<Longrightarrow> harness_run t u \<Longrightarrow> harness_run s u"
  unfolding harness_run_def harness_step_def by (erule converse_rtranclp_into_rtranclp[rotated]) simp

lemma run_coord: "coord_step s t \<Longrightarrow> harness_run t u \<Longrightarrow> harness_run s u"
  unfolding harness_run_def harness_step_def by (erule converse_rtranclp_into_rtranclp[rotated]) simp

text \<open>A run of one worker, up to its measured window, and on to the returned result.\<close>

lemmas run_simps = new_pool_def new_gate_def worker_at_def set_worker_def notify_all_def wake_def
  wake_coord_def gate_defs drop_ticket_def

abbreviation demo_gate :: gate_state where
  "demo_gate \<equiv> \<lparr>settled = 1, ready = 1, lost = 0, failures = [], phase = Released 5\<rparr>"

abbreviation demo_measuring :: "nat harness" where
  "demo_measuring \<equiv> \<lparr>gate = demo_gate, workers = [Measuring 5], handles = [], planned = 1,
     coord = Joining 5 [0] [] 0\<rparr>"

lemma demo_run_measuring: "harness_run (new_pool 1 1) demo_measuring"
  apply (rule run_coord, rule coord_step.spawn_ok[where k = 0], simp add: run_simps)
  apply (rule run_coord, rule coord_step.start_wait, simp add: run_simps, simp add: run_simps)
  apply (rule run_coord, rule coord_step.wait_parks, simp add: run_simps, simp add: run_simps)
  apply (rule run_worker, rule worker_step.arrives[where i = 0 and t = ticket],
      simp add: run_simps, simp add: run_simps)
  apply (rule run_worker, rule worker_step.notifies_ready[where i = 0], simp add: run_simps)
  apply (rule run_worker, rule worker_step.parks[where i = 0], simp add: run_simps, simp add: run_simps)
  apply (rule run_coord, rule coord_step.wait_ok, simp add: run_simps, simp add: run_simps,
      simp add: run_simps)
  apply (rule run_coord, rule coord_step.releases[where at = 5], simp add: run_simps)
  apply (rule run_coord, rule coord_step.notifies, simp add: run_simps)
  apply (rule run_worker, rule worker_step.measures[where i = 0 and at = 5],
      simp add: run_simps, simp add: run_simps)
  apply (simp add: run_simps harness_run_def)
  done

abbreviation demo_returned :: "nat harness" where
  "demo_returned \<equiv> \<lparr>gate = demo_gate, workers = [Ended (Some 42)], handles = [], planned = 1,
     coord = Returned (Inr ([42], 5))\<rparr>"

lemma demo_run_returned: "harness_run demo_measuring demo_returned"
  apply (rule run_worker, rule worker_step.finishes[where i = 0 and at = 5 and v = "Some 42"],
      simp add: run_simps)
  apply (rule run_coord, rule coord_step.join_value[where v = 42], simp add: run_simps,
      simp add: run_simps)
  apply (rule run_coord, rule coord_step.joined, simp add: run_simps)
  apply (rule run_coord, rule coord_step.drops[where r = "Inr ([42], 5)"], simp add: run_simps)
  apply (rule run_coord, rule coord_step.notifies, simp add: run_simps)
  apply (rule run_coord, rule coord_step.drained, simp add: run_simps)
  apply (simp add: run_simps harness_run_def)
  done

lemma run_trans: "harness_run s t \<Longrightarrow> harness_run t u \<Longrightarrow> harness_run s u"
  by (simp add: harness_run_def)

text \<open>
  C2: the synchronized start cannot hang.  In every state a harness reaches, under any interleaving
  and any spurious wake-ups, with any spawn refused, any worker failing setup, panicking or being
  lost, and any number of workers planned or spawned: if no thread can move then the coordinator has
  returned, and there is no endless sequence of moves.
\<close>

theorem start_cannot_hang:
  assumes "harness_run (new_pool plan loops) s"
  shows "((\<nexists>s'. harness_step s s') \<longrightarrow> returned s) \<and>
    \<not> (\<exists>f. f (0 :: nat) = s \<and> (\<forall>i. harness_step (f i) (f (Suc i)))) \<and>
    (\<exists>t. harness_step\<^sup>*\<^sup>* s t \<and> returned t)"
  using assms start_gate.stuck_is_final[of "new_pool plan loops" s]
    start_gate.no_endless_progress start_gate.reaches_final[of "new_pool plan loops" s]
  unfolding harness_run_def by blast

theorem start_cannot_hang_witness:
  "harness_run (new_pool 1 1) demo_measuring \<and>
   (\<exists>t. harness_step\<^sup>*\<^sup>* demo_measuring t \<and> returned t)"
  using demo_run_measuring start_cannot_hang[OF demo_run_measuring] by blast

text \<open>
  C7: a run is reported only at the concurrency it is labelled with.  When the pool returns \<open>Ok\<close>,
  as many workers as planned passed the gate together, none was lost or failed setup, none panicked,
  and the values returned are those of all the workers, in spawn order.
\<close>

theorem ok_means_full_strength:
  assumes "harness_run (new_pool plan loops) s" "coord s = Returned (Inr (vs, at))"
  shows "length vs = plan \<and> workers s = map (Ended \<circ> Some) vs \<and> phase (gate s) = Released at \<and>
    ready (gate s) = plan \<and> lost (gate s) = 0 \<and> failures (gate s) = []"
proof -
  note inv = run_inv[OF assms(1)]
  have "phase (gate s) = Released at" "workers s = map (Ended \<circ> Some) vs"
    using harness_invD(10)[OF inv(1)] assms(2) by (auto simp: tallied_def)
  with harness_invD(6)[OF inv(1)] inv(2) show ?thesis by (auto simp: full_strength_def)
qed

theorem ok_means_full_strength_witness:
  "length [42 :: nat] = 1 \<and> workers demo_returned = map (Ended \<circ> Some) [42] \<and>
   ready (gate demo_returned) = 1"
  using ok_means_full_strength[OF run_trans[OF demo_run_measuring demo_run_returned], of "[42]" 5]
  by simp

text \<open>
  C18: no worker measures anything before every planned worker is warmed and past the gate: a worker
  in its measured window has the released start instant, and by then nobody is still warming up,
  lost or failed.
\<close>

theorem measures_only_at_full_strength:
  assumes "harness_run (new_pool plan loops) s" "Measuring at \<in> set (workers s)"
  shows "phase (gate s) = Released at \<and> length (workers s) = plan \<and> ready (gate s) = plan \<and>
    lost (gate s) = 0 \<and> failures (gate s) = [] \<and> filter is_setup (workers s) = []"
proof -
  note inv = run_inv[OF assms(1)]
  have "phase (gate s) = Released at"
    using harness_invD(5)[OF inv(1)] assms(2) by (auto simp: measured_def)
  with harness_invD(6)[OF inv(1)] inv(2) show ?thesis
    by (auto simp: full_strength_def filter_empty_conv)
qed

theorem measures_only_at_full_strength_witness:
  "phase (gate demo_measuring) = Released 5 \<and> ready (gate demo_measuring) = 1 \<and>
   lost (gate demo_measuring) = 0"
  using measures_only_at_full_strength[OF demo_run_measuring, of 5] by simp

text \<open>
  The start signal fires once.  After the gate has been released or aborted no step changes its
  phase, so every worker that looks at it is told the same thing.
\<close>

theorem start_signal_fires_once:
  assumes "harness_run (new_pool plan loops) s" "harness_step s s'" "phase (gate s) \<noteq> Waiting"
  shows "phase (gate s') = phase (gate s)"
proof -
  note inv = run_inv[OF assms(1)]
  have "worker_step s s' \<Longrightarrow> ?thesis"
    by (erule worker_step.cases) (auto simp: gate_defs drop_ticket_def)
  moreover have "\<not> starting (coord s)"
    using harness_invD(2)[OF inv(1)] assms(3) by (auto simp: at_opening_def)
  then have "coord_step s s' \<Longrightarrow> ?thesis" using assms(3)
    by (elim coord_step.cases) (auto simp: gate_defs drop_ticket_def)
  ultimately show ?thesis using assms(2) by (auto simp: harness_step_def)
qed

theorem start_signal_fires_once_witness:
  "phase (gate (set_worker 0 (Ended (Some 42)) demo_measuring)) = Released 5"
  using start_signal_fires_once[OF demo_run_measuring,
      of "set_worker 0 (Ended (Some 42)) demo_measuring"]
    worker_step.finishes[of demo_measuring 0 5 "Some 42"]
  by (simp add: harness_step_def worker_at_def)

end
