(* ===== verification/Text.thy ===== *)
theory Text
  imports Prelude
begin

text \<open>
  The string operations of the Rust standard library that the components use, on UTF-8 byte strings:
  decimal and hexadecimal formatting, \<open>str::parse\<close> for unsigned integers, \<open>split\<close>, \<open>strip_prefix\<close>,
  \<open>to_ascii_lowercase\<close>.  The lemmas are the round trips the components rest on.
\<close>

definition byte :: "char \<Rightarrow> nat" where
  "byte c = of_char c"

definition digit :: "nat \<Rightarrow> char" where
  "digit d = char_of (48 + d)"

definition hex_digit :: "nat \<Rightarrow> char" where
  "hex_digit d = (if d < 10 then char_of (48 + d) else char_of (87 + d))"

fun nat_str :: "nat \<Rightarrow> string" where
  "nat_str n = (if n < 10 then [digit n] else nat_str (n div 10) @ [digit (n mod 10)])"

definition int_str :: "int \<Rightarrow> string" where
  "int_str i = (if i < 0 then ''-'' @ nat_str (nat (- i)) else nat_str (nat i))"

text \<open>\<open>{:0w x}\<close> with a fixed number of digits.\<close>

fun hex_str :: "nat \<Rightarrow> nat \<Rightarrow> string" where
  "hex_str 0 n = []"
| "hex_str (Suc w) n = hex_str w (n div 16) @ [hex_digit (n mod 16)]"

definition is_digit :: "char \<Rightarrow> bool" where
  "is_digit c \<longleftrightarrow> 48 \<le> byte c \<and> byte c \<le> 57"

definition is_lower :: "char \<Rightarrow> bool" where
  "is_lower c \<longleftrightarrow> 97 \<le> byte c \<and> byte c \<le> 122"

definition is_upper :: "char \<Rightarrow> bool" where
  "is_upper c \<longleftrightarrow> 65 \<le> byte c \<and> byte c \<le> 90"

definition is_alnum :: "char \<Rightarrow> bool" where
  "is_alnum c \<longleftrightarrow> is_digit c \<or> is_lower c \<or> is_upper c"

definition to_lower :: "char \<Rightarrow> char" where
  "to_lower c = (if is_upper c then char_of (byte c + 32) else c)"

definition digits_value :: "string \<Rightarrow> nat" where
  "digits_value s = foldl (\<lambda>n c. 10 * n + (byte c - 48)) 0 s"

text \<open>\<open>str::parse::<u64>\<close>: an optional \<open>+\<close>, then digits only, refused on overflow.\<close>

definition parse_u64 :: "string \<Rightarrow> nat option" where
  "parse_u64 s = (let d = (if s \<noteq> [] \<and> hd s = CHR ''+'' then tl s else s)
     in if d = [] \<or> \<not> list_all is_digit d \<or> digits_value d \<ge> 2 ^ 64 then None
        else Some (digits_value d))"

text \<open>\<open>str::parse::<i64>\<close>: an optional sign, then digits only, refused outside the range.\<close>

definition parse_i64 :: "string \<Rightarrow> int option" where
  "parse_i64 s =
     (let neg = (s \<noteq> [] \<and> hd s = CHR ''-'');
          d = (if s \<noteq> [] \<and> (hd s = CHR ''-'' \<or> hd s = CHR ''+'') then tl s else s);
          n = (if neg then - int (digits_value d) else int (digits_value d))
      in if d = [] \<or> \<not> list_all is_digit d \<or> n < - (2 ^ 63) \<or> n \<ge> 2 ^ 63 then None else Some n)"

text \<open>\<open>str::split\<close> by a character: always at least one piece.\<close>

fun split_on :: "char \<Rightarrow> string \<Rightarrow> string list" where
  "split_on c [] = [[]]"
| "split_on c (x # xs) = (if x = c then [] # split_on c xs
     else case split_on c xs of [] \<Rightarrow> [[x]] | p # ps \<Rightarrow> (x # p) # ps)"

definition starts_with :: "string \<Rightarrow> string \<Rightarrow> bool" where
  "starts_with p s \<longleftrightarrow> prefix p s"

definition strip_prefix :: "string \<Rightarrow> string \<Rightarrow> string option" where
  "strip_prefix p s = (if prefix p s then Some (drop (length p) s) else None)"

text \<open>\<open>str::trim\<close>: the Unicode \<open>White_Space\<close> characters, as UTF-8, off both ends.\<close>

definition white_space :: "string list" where
  "white_space = [[CHR 0x20], [CHR 0x09], [CHR 0x0A], [CHR 0x0B], [CHR 0x0C], [CHR 0x0D],
     [CHR 0xC2, CHR 0x85], [CHR 0xC2, CHR 0xA0], [CHR 0xE1, CHR 0x9A, CHR 0x80]] @
     map (\<lambda>n. [CHR 0xE2, CHR 0x80, char_of n]) ([0x80..<0x8B] @ [0xA8, 0xA9, 0xAF]) @
     [[CHR 0xE2, CHR 0x81, CHR 0x9F], [CHR 0xE3, CHR 0x80, CHR 0x80]]"

function strip_any :: "string list \<Rightarrow> string \<Rightarrow> string" where
  "strip_any ps s = (case List.find (\<lambda>p. p \<noteq> [] \<and> prefix p s) ps of
       None \<Rightarrow> s
     | Some p \<Rightarrow> strip_any ps (drop (length p) s))"
  by pat_completeness auto
termination
  by (relation "measure (\<lambda>(_, s). length s)") (auto simp: find_Some_iff prefix_def)

definition trim :: "string \<Rightarrow> string" where
  "trim s = rev (strip_any (map rev white_space) (rev (strip_any white_space s)))"

definition blank :: "string \<Rightarrow> bool" where
  "blank s \<longleftrightarrow> trim s = []"

fun join_with :: "string \<Rightarrow> string list \<Rightarrow> string" where
  "join_with sep [] = []"
| "join_with sep [x] = x"
| "join_with sep (x # y # ys) = x @ sep @ join_with sep (y # ys)"

text \<open>\<open>str::find\<close> by a string and by a predicate, \<open>str::contains\<close>.\<close>

fun find_sub :: "string \<Rightarrow> string \<Rightarrow> nat option" where
  "find_sub p [] = (if p = [] then Some 0 else None)"
| "find_sub p (c # s) = (if prefix p (c # s) then Some 0 else map_option Suc (find_sub p s))"

fun find_char :: "(char \<Rightarrow> bool) \<Rightarrow> string \<Rightarrow> nat option" where
  "find_char P [] = None"
| "find_char P (c # s) = (if P c then Some 0 else map_option Suc (find_char P s))"

definition contains :: "string \<Rightarrow> string \<Rightarrow> bool" where
  "contains s p \<longleftrightarrow> find_sub p s \<noteq> None"

definition eq_ignore_ascii_case :: "string \<Rightarrow> string \<Rightarrow> bool" where
  "eq_ignore_ascii_case a b \<longleftrightarrow> map to_lower a = map to_lower b"

text \<open>\<open>std::str::from_utf8\<close>: which byte sequences are UTF-8 (no overlong forms, no surrogates).\<close>

definition cont :: "nat \<Rightarrow> bool" where
  "cont b \<longleftrightarrow> 128 \<le> b \<and> b \<le> 191"

fun utf8_bytes :: "nat list \<Rightarrow> bool" where
  "utf8_bytes [] = True"
| "utf8_bytes (a # r) =
     (if a < 128 then utf8_bytes r
      else if 194 \<le> a \<and> a \<le> 223 then
        (case r of b # r1 \<Rightarrow> cont b \<and> utf8_bytes r1 | _ \<Rightarrow> False)
      else if 224 \<le> a \<and> a \<le> 239 then
        (case r of b # c # r1 \<Rightarrow> cont b \<and> cont c \<and> (a = 224 \<longrightarrow> 160 \<le> b) \<and> (a = 237 \<longrightarrow> b \<le> 159) \<and>
           utf8_bytes r1 | _ \<Rightarrow> False)
      else if 240 \<le> a \<and> a \<le> 244 then
        (case r of b # c # d # r1 \<Rightarrow> cont b \<and> cont c \<and> cont d \<and> (a = 240 \<longrightarrow> 144 \<le> b) \<and>
           (a = 244 \<longrightarrow> b \<le> 143) \<and> utf8_bytes r1 | _ \<Rightarrow> False)
      else False)"

definition valid_utf8 :: "string \<Rightarrow> bool" where
  "valid_utf8 s = utf8_bytes (map byte s)"

text \<open>
  \<open>String::from_utf8_lossy\<close>: the length of the first well-formed sequence, or of the longest prefix of one
  before the first byte that cannot continue it, which becomes a single U+FFFD.
\<close>

fun utf8_seq :: "nat list \<Rightarrow> bool \<times> nat" where
  "utf8_seq [] = (True, 0)"
| "utf8_seq (a # r) =
     (if a < 128 then (True, 1)
      else if 194 \<le> a \<and> a \<le> 223 then
        (case r of b # _ \<Rightarrow> if cont b then (True, 2) else (False, 1) | _ \<Rightarrow> (False, 1))
      else if 224 \<le> a \<and> a \<le> 239 then
        (case r of
           b # r1 \<Rightarrow>
             if cont b \<and> (a = 224 \<longrightarrow> 160 \<le> b) \<and> (a = 237 \<longrightarrow> b \<le> 159)
             then (case r1 of c # _ \<Rightarrow> if cont c then (True, 3) else (False, 2) | _ \<Rightarrow> (False, 2))
             else (False, 1)
         | _ \<Rightarrow> (False, 1))
      else if 240 \<le> a \<and> a \<le> 244 then
        (case r of
           b # r1 \<Rightarrow>
             if cont b \<and> (a = 240 \<longrightarrow> 144 \<le> b) \<and> (a = 244 \<longrightarrow> b \<le> 143)
             then (case r1 of
                 c # r2 \<Rightarrow>
                   if cont c
                   then (case r2 of d # _ \<Rightarrow> if cont d then (True, 4) else (False, 3) | _ \<Rightarrow> (False, 3))
                   else (False, 2)
               | _ \<Rightarrow> (False, 2))
             else (False, 1)
         | _ \<Rightarrow> (False, 1))
      else (False, 1))"

lemma utf8_seq_pos: "r \<noteq> [] \<Longrightarrow> 0 < snd (utf8_seq r)"
  by (cases r) (auto split: list.splits)

function from_utf8_lossy :: "string \<Rightarrow> string" where
  "from_utf8_lossy s = (if s = [] then [] else
     let (ok, n) = utf8_seq (map byte s)
     in (if ok then take n s else [CHR 0xEF, CHR 0xBF, CHR 0xBD]) @ from_utf8_lossy (drop n s))"
  by pat_completeness auto
termination
proof (relation "measure length", goal_cases)
  case (2 s ok n)
  then have "0 < snd (utf8_seq (map byte s))" by (simp add: utf8_seq_pos)
  with 2 show ?case by (cases "utf8_seq (map byte s)") auto
qed simp

declare from_utf8_lossy.simps [simp del]

declare nat_str.simps [simp del] strip_any.simps [simp del]

section \<open>Round trips\<close>

lemma byte_digit: "d < 10 \<Longrightarrow> byte (digit d) = 48 + d"
  by (simp add: byte_def digit_def of_char_of)

lemma is_digit_digit: "d < 10 \<Longrightarrow> is_digit (digit d)"
  by (simp add: is_digit_def byte_digit)

lemma nat_str_digits: "list_all is_digit (nat_str n)"
  by (induction n rule: nat_str.induct) (subst nat_str.simps, simp add: is_digit_digit)

lemma nat_str_not_Nil [simp]: "nat_str n \<noteq> []"
  by (subst nat_str.simps) simp

lemma digits_value_snoc: "digits_value (s @ [c]) = 10 * digits_value s + (byte c - 48)"
  by (simp add: digits_value_def)

lemma digits_value_nat_str [simp]: "digits_value (nat_str n) = n"
proof (induction n rule: nat_str.induct)
  case (1 n)
  show ?case
  proof (cases "n < 10")
    case True
    then show ?thesis by (subst nat_str.simps) (simp add: digits_value_def byte_digit)
  next
    case False
    with 1 show ?thesis by (subst nat_str.simps) (simp add: digits_value_snoc byte_digit)
  qed
qed

lemma nat_str_inject [simp]: "nat_str m = nat_str n \<longleftrightarrow> m = n"
  by (metis digits_value_nat_str)

lemma not_digit_notin_nat_str: "\<not> is_digit c \<Longrightarrow> c \<notin> set (nat_str n)"
  using nat_str_digits[of n] by (auto simp: list_all_iff)

lemma plus_notin_nat_str: "hd (nat_str n) \<noteq> CHR ''+''"
proof -
  have "is_digit (hd (nat_str n))"
    using nat_str_digits[of n] by (cases "nat_str n") (auto simp: list_all_iff)
  then show ?thesis by (auto simp: is_digit_def byte_def)
qed

lemma parse_u64_nat_str: "n < 2 ^ 64 \<Longrightarrow> parse_u64 (nat_str n) = Some n"
  using plus_notin_nat_str[of n] nat_str_digits[of n]
  by (simp add: parse_u64_def)

lemma length_hex_str [simp]: "length (hex_str w n) = w"
  by (induction w arbitrary: n) auto

lemma byte_hex_digit: "d < 16 \<Longrightarrow> byte (hex_digit d) = (if d < 10 then 48 + d else 87 + d)"
  by (simp add: byte_def hex_digit_def of_char_of)

lemma hex_digit_inject: "m < 16 \<Longrightarrow> n < 16 \<Longrightarrow> hex_digit m = hex_digit n \<longleftrightarrow> m = n"
proof
  assume "m < 16" "n < 16" "hex_digit m = hex_digit n"
  then have "(if m < 10 then 48 + m else 87 + m) = (if n < 10 then 48 + n else 87 + n)"
    by (metis byte_hex_digit)
  then show "m = n" by (simp split: if_splits)
qed simp

lemma hex_str_inject:
  "m < 16 ^ w \<Longrightarrow> n < 16 ^ w \<Longrightarrow> hex_str w m = hex_str w n \<longleftrightarrow> m = n"
proof (induction w arbitrary: m n)
  case (Suc w)
  then have "hex_str w (m div 16) = hex_str w (n div 16) \<longleftrightarrow> m div 16 = n div 16"
    by (auto simp: less_mult_imp_div_less mult.commute)
  then show ?case by (auto simp: hex_digit_inject) (metis div_mult_mod_eq)
qed simp

lemma split_on_not_Nil [simp]: "split_on c s \<noteq> []"
  by (induction s) (auto split: list.splits)

lemma split_on_no_sep: "c \<notin> set s \<Longrightarrow> split_on c s = [s]"
  by (induction s) auto

lemma split_on_append: "c \<notin> set s \<Longrightarrow> split_on c (s @ c # t) = s # split_on c t"
  by (induction s) auto

lemma join_split: "join_with [c] (split_on c s) = s"
proof (induction s)
  case (Cons x xs)
  then show ?case by (cases "split_on c xs") (auto split: list.splits, cases "tl (split_on c xs)", auto)
qed simp

lemma strip_prefix_iff: "strip_prefix p s = Some r \<longleftrightarrow> s = p @ r"
  by (auto simp: strip_prefix_def prefix_def)


section \<open>Lossy decoding keeps what is well-formed\<close>

lemma utf8_seq_valid:
  "utf8_bytes (a # r) \<Longrightarrow> fst (utf8_seq (a # r)) \<and> utf8_bytes (drop (snd (utf8_seq (a # r))) (a # r))"
proof -
  assume v: "utf8_bytes (a # r)"
  consider "a < 128" | "194 \<le> a" "a \<le> 223" | "224 \<le> a" "a \<le> 239" | "240 \<le> a" "a \<le> 244"
    using v by (fastforce split: if_splits)
  then show ?thesis
  proof cases
    case 2
    with v show ?thesis by (cases r) auto
  next
    case 3
    with v show ?thesis by (cases r; cases "tl r") auto
  next
    case 4
    with v show ?thesis by (cases r; cases "tl r"; cases "tl (tl r)") auto
  qed (use v in auto)
qed

lemma from_utf8_lossy_valid: "valid_utf8 s \<Longrightarrow> from_utf8_lossy s = s"
proof (induction s rule: from_utf8_lossy.induct)
  case (1 s)
  show ?case
  proof (cases s)
    case (Cons c r)
    obtain ok n where seq: "utf8_seq (map byte s) = (ok, n)" by fastforce
    from 1(2) Cons utf8_seq_valid [of "byte c" "map byte r"] seq
    have *: "ok" "utf8_bytes (map byte (drop n s))"
      by (simp_all add: valid_utf8_def drop_map [symmetric] del: utf8_seq.simps utf8_bytes.simps)
    then have "from_utf8_lossy (drop n s) = drop n s"
      using 1(1) [of "(ok, n)" ok n] Cons seq by (simp add: valid_utf8_def del: utf8_seq.simps utf8_bytes.simps)
    with * seq Cons show ?thesis by (subst from_utf8_lossy.simps) (simp del: utf8_seq.simps)
  qed (simp add: from_utf8_lossy.simps)
qed


section \<open>Trimming\<close>

lemma strip_any_id: "(\<And>p. p \<in> set ps \<Longrightarrow> p = [] \<or> \<not> prefix p s) \<Longrightarrow> strip_any ps s = s"
  by (subst strip_any.simps) (auto simp: find_None_iff split: option.splits dest!: find_Some_mem)

lemma white_space_bytes: "p \<in> set white_space \<Longrightarrow> p \<noteq> [] \<and> \<not> is_alnum (hd p) \<and> \<not> is_alnum (last p)"
proof -
  have "list_all (\<lambda>p. p \<noteq> [] \<and> \<not> is_alnum (hd p) \<and> \<not> is_alnum (last p)) white_space" by code_simp
  then show "p \<in> set white_space \<Longrightarrow> ?thesis" by (simp add: list_all_iff)
qed

text \<open>A visible ASCII character is no part of a white space character at either end.\<close>

definition visible :: "char \<Rightarrow> bool" where
  "visible c \<longleftrightarrow> 32 < byte c \<and> byte c < 127"

lemma white_space_visible: "p \<in> set white_space \<Longrightarrow> p \<noteq> [] \<and> \<not> visible (hd p) \<and> \<not> visible (last p)"
proof -
  have "list_all (\<lambda>p. p \<noteq> [] \<and> \<not> visible (hd p) \<and> \<not> visible (last p)) white_space" by code_simp
  then show "p \<in> set white_space \<Longrightarrow> ?thesis" by (simp add: list_all_iff)
qed

lemma strip_visible:
  assumes "w \<noteq> []"
  shows "visible (hd w) \<Longrightarrow> strip_any white_space (w @ s) = w @ s"
    and "visible (hd w) \<Longrightarrow> strip_any (map rev white_space) (w @ s) = w @ s"
proof -
  have *: "p = [] \<or> \<not> prefix p (w @ s)" if "hd p \<noteq> hd w" for p
    using that assms by (cases p; cases w) auto
  show "visible (hd w) \<Longrightarrow> strip_any white_space (w @ s) = w @ s"
    using * white_space_visible by (intro strip_any_id) metis
  show "visible (hd w) \<Longrightarrow> strip_any (map rev white_space) (w @ s) = w @ s"
  proof (rule strip_any_id)
    fix p assume "visible (hd w)" "p \<in> set (map rev white_space)"
    then have "hd p \<noteq> hd w" using white_space_visible by (force simp: hd_rev)
    then show "p = [] \<or> \<not> prefix p (w @ s)" by (rule *)
  qed
qed

lemma strip_space:
  "strip_any white_space (CHR '' '' # s) = strip_any white_space s"
  "strip_any (map rev white_space) (CHR '' '' # s) = strip_any (map rev white_space) s"
  by (subst strip_any.simps, simp add: white_space_def)+

lemma trim_visible:
  assumes "w \<noteq> []" and "visible (hd w)" and "visible (last w)"
  shows "trim w = w" "trim (w @ '' '') = w" "trim ('' '' @ w) = w" "trim ('' '' @ w @ '' '') = w"
proof -
  have *: "strip_any (map rev white_space) (rev w) = rev w"
    using strip_visible(2) [of "rev w" "[]"] assms by (simp add: hd_rev)
  show "trim w = w" "trim (w @ '' '') = w" "trim ('' '' @ w) = w" "trim ('' '' @ w @ '' '') = w"
    using strip_visible(1) [OF assms(1,2), of "[]"] strip_visible(1) [OF assms(1,2), of "'' ''"] *
    by (simp_all add: trim_def strip_space)
qed

lemma trim_alnum:
  assumes "s \<noteq> []" and "is_alnum (hd s)" and "is_alnum (last s)"
  shows "trim s = s"
proof -
  have "strip_any white_space s = s"
    using assms white_space_bytes by (intro strip_any_id) (fastforce simp: prefix_def)
  moreover have "strip_any (map rev white_space) (rev s) = rev s"
  proof (rule strip_any_id)
    fix p assume "p \<in> set (map rev white_space)"
    then obtain q where q: "p = rev q" "q \<in> set white_space" by auto
    have "last q = last s" if "prefix (rev q) (rev s)"
      using that white_space_bytes [OF q(2)] assms(1) by (auto simp: prefix_def rev_swap)
    with q white_space_bytes [OF q(2)] assms(3) show "p = [] \<or> \<not> prefix p (rev s)" by metis
  qed
  ultimately show ?thesis by (simp add: trim_def)
qed

lemma valid_utf8_ascii: "list_all (\<lambda>c. byte c < 128) s \<Longrightarrow> valid_utf8 s"
  unfolding valid_utf8_def by (induction s) auto

lemma valid_utf8_digits: "list_all is_digit s \<Longrightarrow> valid_utf8 s"
  by (rule valid_utf8_ascii) (auto simp: list_all_iff is_digit_def)

end
