(* ===== verification/Json.thy ===== *)
theory Json
  imports F64 Text
begin

text \<open>
  The values the program exchanges with its dependencies, with the constructors the source matches on:
  \<open>serde_json::Value\<close> (an object is its entries, keys distinct) with the accessors the source calls,
  and \<open>redis::Value\<close>, a decoded server reply.  A double that may have been read from a server is
  finite, infinite or NaN.
\<close>

datatype non_finite = Infinity | Minus_Infinity | NaN

datatype f64v = Finite real | Non_Finite non_finite

text \<open>
  \<open>str::parse::<f64>\<close>: an optional sign, then \<open>inf\<close>, \<open>infinity\<close>, \<open>nan\<close> in any case, or decimal digits with
  at most one point and an optional exponent; the exact value is rounded to the nearest double, and
  overflows to infinity from \<open>2 ^ 1024\<close> on.
\<close>

definition unsign :: "string \<Rightarrow> bool \<times> string" where
  "unsign s = (case s of
       [] \<Rightarrow> (False, s)
     | c # r \<Rightarrow> if c = CHR ''-'' then (True, r) else if c = CHR ''+'' then (False, r) else (False, s))"

definition parse_exponent :: "string \<Rightarrow> int option" where
  "parse_exponent s = (let (neg, d) = unsign s in
     if d = [] \<or> \<not> list_all is_digit d then None
     else Some (if neg then - int (digits_value d) else int (digits_value d)))"

definition parse_decimal :: "string \<Rightarrow> real option" where
  "parse_decimal s =
     (let is_e = (\<lambda>c. c = CHR ''e'' \<or> c = CHR ''E'');
          mant = takeWhile (\<lambda>c. \<not> is_e c) s; rest = dropWhile (\<lambda>c. \<not> is_e c) s;
          ip = takeWhile (\<lambda>c. c \<noteq> CHR ''.'') mant; fp = tl (dropWhile (\<lambda>c. c \<noteq> CHR ''.'') mant)
      in if ip @ fp = [] \<or> \<not> list_all is_digit (ip @ fp) then None
         else case (if rest = [] then Some 0 else parse_exponent (tl rest)) of
           None \<Rightarrow> None
         | Some e \<Rightarrow> Some (of_nat (digits_value (ip @ fp)) * 10 powi (e - int (length fp))))"

definition parse_f64 :: "string \<Rightarrow> f64v option" where
  "parse_f64 s = (let (neg, r) = unsign s in
     if map to_lower r = ''nan'' then Some (Non_Finite NaN)
     else if map to_lower r \<in> {''inf'', ''infinity''}
     then Some (Non_Finite (if neg then Minus_Infinity else Infinity))
     else case parse_decimal r of
       None \<Rightarrow> None
     | Some x \<Rightarrow> if rnd64 x < 2 ^ 1024 then Some (Finite (if neg then - rnd64 x else rnd64 x))
                 else Some (Non_Finite (if neg then Minus_Infinity else Infinity)))"

datatype number = PosInt nat | NegInt int | Float real

datatype json =
    Null
  | Bool bool
  | Number number
  | String string
  | Array "json list"
  | Object "(string \<times> json) list"

fun jget :: "string \<Rightarrow> json \<Rightarrow> json option" where
  "jget k (Object es) = map_of es k"
| "jget _ _ = None"

text \<open>\<open>value["key"]\<close>: a missing key, or a value that is no object, reads as \<open>Null\<close>.\<close>

definition jindex :: "json \<Rightarrow> string \<Rightarrow> json" where
  "jindex v k = (case jget k v of Some x \<Rightarrow> x | None \<Rightarrow> Null)"

fun as_array :: "json \<Rightarrow> json list option" where
  "as_array (Array a) = Some a"
| "as_array _ = None"

fun as_object :: "json \<Rightarrow> (string \<times> json) list option" where
  "as_object (Object es) = Some es"
| "as_object _ = None"

fun as_string :: "json \<Rightarrow> string option" where
  "as_string (String s) = Some s"
| "as_string _ = None"

fun as_u64 :: "json \<Rightarrow> nat option" where
  "as_u64 (Number (PosInt n)) = Some n"
| "as_u64 _ = None"

fun as_i64 :: "json \<Rightarrow> int option" where
  "as_i64 (Number (PosInt n)) = (if n < 2 ^ 63 then Some (int n) else None)"
| "as_i64 (Number (NegInt i)) = Some i"
| "as_i64 _ = None"

fun as_f64 :: "json \<Rightarrow> real option" where
  "as_f64 (Number (PosInt n)) = Some (f64_of_nat n)"
| "as_f64 (Number (NegInt i)) = Some (rnd64 (of_int i))"
| "as_f64 (Number (Float x)) = Some x"
| "as_f64 _ = None"

text \<open>\<open>value[0]\<close>.\<close>

fun jfirst :: "json \<Rightarrow> json" where
  "jfirst (Array (x # _)) = x"
| "jfirst _ = Null"

fun is_null :: "json \<Rightarrow> bool" where
  "is_null Null = True"
| "is_null _ = False"

datatype reply =
    RNil
  | RInt int
  | RBool bool
  | BulkString string
  | SimpleString string
  | VerbatimString string
  | Okay
  | Double f64v
  | RArray "reply list"
  | RMap "(reply \<times> reply) list"

lemma jget_Object_iff: "jget k v = Some x \<longleftrightarrow> (\<exists>es. v = Object es \<and> map_of es k = Some x)"
  by (cases v) auto

lemma jindex_Object [simp]: "jindex (Object es) k = (case map_of es k of Some x \<Rightarrow> x | None \<Rightarrow> Null)"
  by (simp add: jindex_def)

lemma as_array_iff: "as_array v = Some a \<longleftrightarrow> v = Array a"
  by (cases v) auto

lemma as_object_iff: "as_object v = Some es \<longleftrightarrow> v = Object es"
  by (cases v) auto

lemma as_string_iff: "as_string v = Some s \<longleftrightarrow> v = String s"
  by (cases v) auto

lemma as_u64_iff: "as_u64 v = Some n \<longleftrightarrow> v = Number (PosInt n)"
  by (cases v rule: as_u64.cases) auto

end
