(* ===== verification/Fulltext_Spec.thy ===== *)
theory Fulltext_Spec
  imports Json Workload "HOL-Library.List_Lexorder" "HOL-Library.Char_ord"
begin

text \<open>
  The full-text workload's configuration (\<open>src/src/fulltext.rs\<close>, the types of \<open>compound_text.rs\<close> and
  \<open>text_tag_profile.rs\<close> it carries, and \<open>hybrid_rrf::check_text_spec\<close>): the parsed \<open>fulltext\<close> block,
  the total-hits contract between the engines, the index profile all search configs of an engine
  config must agree on, the searched fields, and the query terms both engines receive.

  \<open>serde\<close>'s deserializer is the argument \<open>from_value\<close>.  Query text is a list of Unicode code points and
  the Unicode tables of the standard library are the record \<open>unicode\<close>.
\<close>

section \<open>Types\<close>

datatype scalar_indexing = All_Fields | TextTagOnly
datatype analysis = English | Parity
datatype total_hits = Exact | No_Total

record compound_query =
  cq_name :: string
  cq_family :: string
  cq_conditions :: json
  cq_expected_count :: "nat option"
  cq_minimum_count :: nat

record compound_spec =
  suite :: "string option"
  compound_queries :: "compound_query list option"
  family :: "string option"

record fulltext_spec =
  scalar_indexing :: scalar_indexing
  no_vector_index :: bool
  compound :: "compound_spec option"
  search_fields :: "(string \<times> f64v) list option"
  allow_multi_shard :: bool
  analysis :: analysis
  total_hits :: "total_hits option"

definition default_fulltext_spec :: fulltext_spec where
  "default_fulltext_spec = \<lparr>scalar_indexing = All_Fields, no_vector_index = False, compound = None,
     search_fields = None, allow_multi_shard = False, analysis = English, total_hits = None\<rparr>"

record total_hits_plan =
  mode :: total_hits
  declared :: bool
  symmetric :: bool

datatype text_error =
    Invalid_Block
  | Reduced_Needs_Parity_Compound
  | No_Fields
  | Bad_Boost string
  | None_With_Compound
  | Compound_Needs_Suite_Or_Queries
  | Empty_Compound_Family
  | Compound_Needs_Unit_Boosts
  | No_Total_Contract string
  | Rrf_Compound | Rrf_Multi_Shard | Rrf_No_Vector_Index | Rrf_Exact_Total
  | Multi_Shard_Only_OpenSearch string
  | Block_On_Workload workload
  | Scalar_Indexing_Disagrees
  | Mixed_Analysis nat
  | Parity_Needs_Fields nat
  | Parity_Field_Sets_Differ
  | Parity_With_Other_Workload workload
  | Marker_Mismatch
  | Query_Count_Only
  | Mixed_Text_Filters nat
  | No_Text_Fields
  | Not_A_Text_Field string
  | Not_Plain_Name string
  | No_Searchable_Query nat

section \<open>The block\<close>

fun is_reduced :: "scalar_indexing \<Rightarrow> bool" where
  "is_reduced TextTagOnly = True"
| "is_reduced All_Fields = False"

fun analysis_str :: "analysis \<Rightarrow> string" where
  "analysis_str English = ''english''"
| "analysis_str Parity = ''parity''"

fun total_hits_str :: "total_hits \<Rightarrow> string" where
  "total_hits_str Exact = ''exact''"
| "total_hits_str No_Total = ''none''"

definition validate_compound :: "compound_spec \<Rightarrow> text_error + unit" where
  "validate_compound c =
     rbind (case (suite c, compound_queries c) of
        (Some s, None) \<Rightarrow> if s = ''msmarco-v1'' then Inr () else Inl Compound_Needs_Suite_Or_Queries
      | (None, Some q) \<Rightarrow> if q \<noteq> [] then Inr () else Inl Compound_Needs_Suite_Or_Queries
      | _ \<Rightarrow> Inl Compound_Needs_Suite_Or_Queries) (\<lambda>_.
     if family c = Some [] then Inl Empty_Compound_Family else Inr ())"

definition check_total_hits :: "fulltext_spec \<Rightarrow> text_error + unit" where
  "check_total_hits spec =
     (if compound spec \<noteq> None \<and> total_hits spec = Some No_Total then Inl None_With_Compound
      else Inr ())"

definition total_hits_plan :: "string \<Rightarrow> fulltext_spec \<Rightarrow> text_error + total_hits_plan" where
  "total_hits_plan engine spec =
     (if engine \<notin> {''redis'', ''opensearch''} then Inl (No_Total_Contract engine)
      else rbind (check_total_hits spec) (\<lambda>_. Inr
        (case (total_hits spec, compound spec \<noteq> None) of
           (Some m, _) \<Rightarrow> \<lparr>mode = m, declared = True, symmetric = True\<rparr>
         | (None, True) \<Rightarrow> \<lparr>mode = Exact, declared = False, symmetric = True\<rparr>
         | (None, False) \<Rightarrow> \<lparr>mode = (if engine = ''opensearch'' then No_Total else Exact),
                            declared = False, symmetric = False\<rparr>)))"

fun check_boost :: "string \<times> f64v \<Rightarrow> text_error + unit" where
  "check_boost (name, Finite b) = (if b \<le> 0 then Inl (Bad_Boost name) else Inr ())"
| "check_boost (name, Non_Finite _) = Inl (Bad_Boost name)"

definition check_spec :: "fulltext_spec \<Rightarrow> text_error + unit" where
  "check_spec spec =
     (if is_reduced (scalar_indexing spec) \<and>
         (compound spec = None \<or> \<not> no_vector_index spec \<or> analysis spec \<noteq> Parity)
      then Inl Reduced_Needs_Parity_Compound
      else rbind (case search_fields spec of
             None \<Rightarrow> Inr ()
           | Some fs \<Rightarrow> if fs = [] then Inl No_Fields else check_each check_boost fs) (\<lambda>_.
           rbind (check_total_hits spec) (\<lambda>_.
           case compound spec of
             None \<Rightarrow> Inr ()
           | Some c \<Rightarrow> rbind (validate_compound c) (\<lambda>_.
               case search_fields spec of
                 Some fs \<Rightarrow> if list_all (\<lambda>(_, b). b = Finite 1) fs then Inr ()
                            else Inl Compound_Needs_Unit_Boosts
               | None \<Rightarrow> Inl Compound_Needs_Unit_Boosts))))"

definition parse_text_block ::
  "(json \<Rightarrow> fulltext_spec option) \<Rightarrow> json option \<Rightarrow> text_error + fulltext_spec" where
  "parse_text_block from_value block =
     rbind (case block of None \<Rightarrow> Inr default_fulltext_spec
            | Some v \<Rightarrow> ok_or Invalid_Block (from_value v)) (\<lambda>spec.
     rbind (check_spec spec) (\<lambda>_. Inr spec))"

definition check_text_spec :: "fulltext_spec \<Rightarrow> text_error + unit" where
  "check_text_spec spec =
     (if compound spec \<noteq> None then Inl Rrf_Compound
      else if allow_multi_shard spec then Inl Rrf_Multi_Shard
      else if no_vector_index spec \<or> is_reduced (scalar_indexing spec) then Inl Rrf_No_Vector_Index
      else if total_hits spec = Some Exact then Inl Rrf_Exact_Total
      else Inr ())"

definition parse_text_spec ::
  "(json \<Rightarrow> fulltext_spec option) \<Rightarrow> json option \<Rightarrow> text_error + fulltext_spec" where
  "parse_text_spec from_value block =
     rbind (parse_text_block from_value block) (\<lambda>spec.
     rbind (check_text_spec spec) (\<lambda>_. Inr spec))"

definition validate_text_declared ::
  "(json \<Rightarrow> fulltext_spec option) \<Rightarrow> string \<Rightarrow> workload \<Rightarrow> json option \<Rightarrow> text_error + unit" where
  "validate_text_declared from_value et w block =
     (if w \<in> {Fulltext, HybridRrf} then
        rbind (parse_text_block from_value block) (\<lambda>spec.
        rbind (if w = HybridRrf then check_text_spec spec else Inr ()) (\<lambda>_.
        if allow_multi_shard spec \<and> et \<noteq> ''opensearch''
        then Inl (Multi_Shard_Only_OpenSearch et) else Inr ()))
      else case block of Some _ \<Rightarrow> Inl (Block_On_Workload w) | None \<Rightarrow> Inr ())"

text \<open>The durations and rates are \<open>f64\<close>; only their difference from zero matters.\<close>

definition check_execution_params :: "f64v option \<Rightarrow> f64v option \<Rightarrow> text_error + unit" where
  "check_execution_params target_qps duration_seconds =
     (if (case target_qps of Some v \<Rightarrow> v \<noteq> Finite 0 | None \<Rightarrow> False) \<or>
         (case duration_seconds of Some v \<Rightarrow> v \<noteq> Finite 0 | None \<Rightarrow> False)
      then Inl Query_Count_Only else Inr ())"

section \<open>The index profile\<close>

text \<open>A \<open>BTreeSet\<close> of names is the sorted list of its elements.\<close>

record index_profile =
  profile_scalar_indexing :: scalar_indexing
  profile_analysis :: analysis
  text_fields :: "string list"

definition english_profile :: index_profile where
  "english_profile = \<lparr>profile_scalar_indexing = All_Fields, profile_analysis = English, text_fields = []\<rparr>"

definition indexes_text_field :: "index_profile \<Rightarrow> string \<Rightarrow> bool" where
  "indexes_text_field p field =
     (case profile_analysis p of English \<Rightarrow> True | Parity \<Rightarrow> field \<in> set (text_fields p))"

definition stems :: "index_profile \<Rightarrow> bool" where
  "stems p \<longleftrightarrow> profile_analysis p = English"

definition normalizes_whitespace :: "index_profile \<Rightarrow> bool" where
  "normalizes_whitespace p \<longleftrightarrow> profile_analysis p = Parity"

definition marker :: "index_profile \<Rightarrow> json" where
  "marker p = Object ([(''analysis'', String (analysis_str (profile_analysis p))),
       (''normalize_whitespace'', Bool (normalizes_whitespace p))] @
      (if is_reduced (profile_scalar_indexing p)
       then [(''scalar_indexing'', String ''text-tag-only'')] else []) @
      [(''text_fields'', Array (map String (text_fields p)))])"

definition check_marker :: "index_profile \<Rightarrow> json \<Rightarrow> text_error + unit" where
  "check_marker p recorded =
     (if (profile_analysis p = English \<and> recorded = Null) \<or> recorded = marker p then Inr ()
      else Inl Marker_Mismatch)"

record profile_state =
  seen_scalar :: "scalar_indexing option"
  seen_analysis :: "analysis option"
  parity_fields :: "string list option"
  other_workload :: "workload option"

definition differs :: "'a option \<Rightarrow> 'a \<Rightarrow> bool" where
  "differs old new = (case old of Some x \<Rightarrow> x \<noteq> new | None \<Rightarrow> False)"

definition profile_config ::
  "(json \<Rightarrow> fulltext_spec option) \<Rightarrow> nat \<Rightarrow> workload \<Rightarrow> json option \<Rightarrow> profile_state \<Rightarrow>
   text_error + profile_state" where
  "profile_config from_value i w block st =
     (if \<not> uses_text_index w then
        Inr (case other_workload st of None \<Rightarrow> st\<lparr>other_workload := Some w\<rparr> | Some _ \<Rightarrow> st)
      else rbind (parse_text_block from_value block) (\<lambda>spec.
        if differs (seen_scalar st) (scalar_indexing spec)
        then Inl Scalar_Indexing_Disagrees
        else let st1 = st\<lparr>seen_scalar := Some (scalar_indexing spec)\<rparr> in
        if differs (seen_analysis st1) (analysis spec) then Inl (Mixed_Analysis i)
        else let st2 = st1\<lparr>seen_analysis := Some (analysis spec)\<rparr> in
        if analysis spec \<noteq> Parity then Inr st2
        else (case search_fields spec of
           None \<Rightarrow> Inl (Parity_Needs_Fields i)
         | Some fs \<Rightarrow> let names = sort (remdups (map fst fs)) in
             if differs (parity_fields st2) names
             then Inl Parity_Field_Sets_Differ
             else Inr (st2\<lparr>parity_fields := Some names\<rparr>))))"

fun profile_configs ::
  "(json \<Rightarrow> fulltext_spec option) \<Rightarrow> nat \<Rightarrow> (workload \<times> json option) list \<Rightarrow> profile_state \<Rightarrow>
   text_error + profile_state" where
  "profile_configs fv i [] st = Inr st"
| "profile_configs fv i ((w, block) # cs) st =
     rbind (profile_config fv i w block st) (profile_configs fv (Suc i) cs)"

definition conclude_profile :: "profile_state \<Rightarrow> text_error + index_profile option" where
  "conclude_profile st = (case seen_analysis st of
        None \<Rightarrow> Inr None
      | Some a \<Rightarrow>
          (case (a, other_workload st) of
             (Parity, Some w) \<Rightarrow> Inl (Parity_With_Other_Workload w)
           | _ \<Rightarrow> Inr (Some \<lparr>
               profile_scalar_indexing = (case seen_scalar st of Some x \<Rightarrow> x | None \<Rightarrow> All_Fields),
               profile_analysis = a,
               text_fields = (case parity_fields st of Some f \<Rightarrow> f | None \<Rightarrow> [])\<rparr>)))"

definition index_profile ::
  "(json \<Rightarrow> fulltext_spec option) \<Rightarrow> (workload \<times> json option) list \<Rightarrow>
   text_error + index_profile option" where
  "index_profile from_value configs =
     rbind (profile_configs from_value 0 configs
       \<lparr>seen_scalar = None, seen_analysis = None, parity_fields = None, other_workload = None\<rparr>)
     conclude_profile"

section \<open>Filters on text fields\<close>

fun walk_conditions :: "json \<Rightarrow> string list" where
  "walk_conditions (Array a) = concat (map walk_conditions a)"
| "walk_conditions (Object es) =
     (if ''and'' \<in> set (map fst es) \<or> ''or'' \<in> set (map fst es)
      then concat (map (\<lambda>(k, v). if k = ''and'' then walk_conditions v else []) es) @
           concat (map (\<lambda>(k, v). if k = ''or'' then walk_conditions v else []) es)
      else map fst es)"
| "walk_conditions _ = []"

definition filtered_fields :: "json \<Rightarrow> string set" where
  "filtered_fields conditions = set (walk_conditions conditions)"

definition mixes_with_filtered_workloads :: "workload list \<Rightarrow> bool" where
  "mixes_with_filtered_workloads ws \<longleftrightarrow>
     list_ex uses_text_index ws \<and> list_ex (\<lambda>w. w \<in> {Vector, Hybrid}) ws"

definition check_mixed_text_filters :: "workload list \<Rightarrow> nat \<Rightarrow> text_error + unit" where
  "check_mixed_text_filters ws text_match_queries =
     (if mixes_with_filtered_workloads ws \<and> text_match_queries > 0
      then Inl (Mixed_Text_Filters text_match_queries) else Inr ())"

section \<open>Searched fields\<close>

record field_boost =
  field :: string
  boost :: f64v

definition schema_text_fields :: "json option \<Rightarrow> string list" where
  "schema_text_fields schema = sort (case schema of
       Some (Object es) \<Rightarrow> map fst (filter (\<lambda>(_, t). as_string t = Some ''text'') es)
     | _ \<Rightarrow> [])"

definition is_plain_field_name :: "string \<Rightarrow> bool" where
  "is_plain_field_name name = (case name of
       [] \<Rightarrow> False
     | c # cs \<Rightarrow> (is_lower c \<or> is_upper c \<or> c = CHR ''_'') \<and>
                list_all (\<lambda>d. is_alnum d \<or> d = CHR ''_'') cs)"

definition resolve_schema_fields ::
  "fulltext_spec \<Rightarrow> json option \<Rightarrow> text_error + field_boost list" where
  "resolve_schema_fields spec schema =
     (let tf = schema_text_fields schema in
      if tf = [] then Inl No_Text_Fields
      else case search_fields spec of
        None \<Rightarrow> Inr (map (\<lambda>f. \<lparr>field = f, boost = Finite 1\<rparr>) tf)
      | Some fs \<Rightarrow> traverse (\<lambda>(f, b). if f \<in> set tf then Inr \<lparr>field = f, boost = b\<rparr>
                                      else Inl (Not_A_Text_Field f)) fs)"

definition resolve_fields :: "fulltext_spec \<Rightarrow> json option \<Rightarrow> text_error + field_boost list" where
  "resolve_fields spec schema =
     rbind (resolve_schema_fields spec schema) (\<lambda>fs.
     case List.find (\<lambda>f. \<not> is_plain_field_name (field f)) fs of
       Some bad \<Rightarrow> Inl (Not_Plain_Name (field bad))
     | None \<Rightarrow> Inr fs)"

section \<open>Query terms\<close>

type_synonym uchar = nat

record unicode =
  alphanumeric :: "uchar \<Rightarrow> bool"
  whitespace :: "uchar \<Rightarrow> bool"
  lowercase :: "uchar list \<Rightarrow> uchar list"

definition codes :: "string \<Rightarrow> uchar list" where
  "codes = map byte"

definition REDISEARCH_SEPARATORS :: "uchar list" where
  "REDISEARCH_SEPARATORS = codes '',./(){}[]:;~!@#$%^&*-=+|`<>?'' @ [39, 34, 92]"

definition STOPWORDS :: "uchar list list" where
  "STOPWORDS = map codes [''a'', ''an'', ''and'', ''are'', ''as'', ''at'', ''be'', ''but'', ''by'', ''for'', ''if'', ''in'',
     ''into'', ''is'', ''it'', ''no'', ''not'', ''of'', ''on'', ''or'', ''such'', ''that'', ''the'', ''their'', ''then'',
     ''there'', ''these'', ''they'', ''this'', ''to'', ''was'', ''will'', ''with'']"

definition is_separator :: "unicode \<Rightarrow> uchar \<Rightarrow> bool" where
  "is_separator u c \<longleftrightarrow> whitespace u c \<or> c \<in> set REDISEARCH_SEPARATORS"

text \<open>
  The loop of \<open>strip_possessives\<close>; the second argument is the character before the current one.
  39 is the ASCII apostrophe, 8217 the right single quotation mark.
\<close>

fun strip_from :: "unicode \<Rightarrow> uchar option \<Rightarrow> uchar list \<Rightarrow> uchar list" where
  "strip_from u prev [] = []"
| "strip_from u prev (c # cs) =
     (if (c = 39 \<or> c = 8217) \<and> (case prev of Some p \<Rightarrow> alphanumeric u p | None \<Rightarrow> False) \<and>
         (case cs of n # r \<Rightarrow> (n = 115 \<or> n = 83) \<and> (case r of m # _ \<Rightarrow> \<not> alphanumeric u m | [] \<Rightarrow> True)
          | [] \<Rightarrow> False)
      then strip_from u (Some (hd cs)) (tl cs)
      else c # strip_from u (Some c) cs)"

definition strip_possessives :: "unicode \<Rightarrow> uchar list \<Rightarrow> uchar list" where
  "strip_possessives u text = strip_from u None text"

definition query_terms :: "unicode \<Rightarrow> uchar list \<Rightarrow> uchar list list" where
  "query_terms u text =
     dedup (filter (\<lambda>t. t \<notin> set STOPWORDS) (filter (list_ex (alphanumeric u))
       (map (lowercase u) (split_by (is_separator u) (strip_possessives u text)))))"

record text_query =
  query_id :: nat
  terms :: "uchar list list"

record text_query_set =
  queries :: "text_query list"
  skipped :: "nat list"
  total :: nat

definition build_text_query_set :: "unicode \<Rightarrow> uchar list list \<Rightarrow> text_error + text_query_set" where
  "build_text_query_set u texts =
     (let lines = enumerate 0 texts;
          qs = map (\<lambda>(i, t). \<lparr>query_id = i, terms = query_terms u t\<rparr>)
                 (filter (\<lambda>(_, t). query_terms u t \<noteq> []) lines);
          sk = map fst (filter (\<lambda>(_, t). query_terms u t = []) lines)
      in if qs = [] then Inl (No_Searchable_Query (length texts))
         else Inr \<lparr>queries = qs, skipped = sk, total = length texts\<rparr>)"

definition schedule :: "nat \<Rightarrow> int \<Rightarrow> nat list" where
  "schedule num_eligible num_queries =
     (let n = (if num_queries > 0 then nat num_queries else num_eligible)
      in map (\<lambda>i. i mod (max num_eligible 1)) [0..<n])"

section \<open>Lemmas\<close>

lemma is_reduced_iff [simp]: "is_reduced x \<longleftrightarrow> x = TextTagOnly"
  by (cases x) auto

lemma analysis_str_inject [simp]: "analysis_str a = analysis_str b \<longleftrightarrow> a = b"
  by (cases a; cases b) auto

lemma map_String_inject [simp]: "map String xs = map String ys \<longleftrightarrow> xs = ys"
  by (auto simp: inj_on_def dest!: map_inj_on)

lemma marker_inject: "marker p = marker q \<longleftrightarrow> p = (q :: index_profile)"
proof
  assume eq: "marker p = marker q"
  have s: "profile_scalar_indexing p = profile_scalar_indexing q"
    using eq by (cases "profile_scalar_indexing p"; cases "profile_scalar_indexing q")
      (auto simp: marker_def)
  from eq s show "p = q" by (auto simp: marker_def)
qed simp

lemma marker_not_Null [simp]: "marker p \<noteq> Null"
  by (simp add: marker_def)

subsection \<open>What the profile loop has seen\<close>

definition agrees :: "fulltext_spec \<Rightarrow> profile_state \<Rightarrow> bool" where
  "agrees spec st \<longleftrightarrow> seen_scalar st = Some (scalar_indexing spec) \<and>
     seen_analysis st = Some (analysis spec) \<and>
     (analysis spec = Parity \<longrightarrow> (\<exists>fs. search_fields spec = Some fs \<and>
        parity_fields st = Some (sort (remdups (map fst fs)))))"

definition recorded ::
  "(json \<Rightarrow> fulltext_spec option) \<Rightarrow> profile_state \<Rightarrow> workload \<times> json option \<Rightarrow> bool" where
  "recorded fv st c \<longleftrightarrow>
     (if uses_text_index (fst c) then \<exists>spec. parse_text_block fv (snd c) = Inr spec \<and> agrees spec st
      else other_workload st \<noteq> None)"

lemma differs_simps [simp]: "\<not> differs old new \<longleftrightarrow> old = None \<or> old = Some new"
  by (auto simp: differs_def split: option.splits)

lemma profile_config_records:
  assumes "profile_config fv i w block st = Inr st'"
  shows "recorded fv st' (w, block)" and "recorded fv st c \<Longrightarrow> recorded fv st' c"
  using assms
  by (auto simp: profile_config_def recorded_def agrees_def Let_def
      split: if_splits option.splits; fastforce simp: differs_def split: option.splits)+

lemma profile_configs_keep:
  "profile_configs fv i cs st = Inr st' \<Longrightarrow> recorded fv st c \<Longrightarrow> recorded fv st' c"
  by (induction fv i cs st rule: profile_configs.induct) (auto dest: profile_config_records(2))

lemma profile_configs_record:
  "profile_configs fv i cs st = Inr st' \<Longrightarrow> c \<in> set cs \<Longrightarrow> recorded fv st' c"
  by (induction fv i cs st rule: profile_configs.induct)
    (auto dest: profile_config_records(1) profile_configs_keep)

lemma conclude_profileD:
  assumes "conclude_profile st = Inr (Some p)"
  shows "seen_analysis st = Some (profile_analysis p)"
    and "profile_analysis p = Parity \<Longrightarrow> other_workload st = None"
    and "seen_scalar st = Some x \<Longrightarrow> profile_scalar_indexing p = x"
    and "parity_fields st = Some f \<Longrightarrow> text_fields p = f"
  using assms unfolding conclude_profile_def
  by (auto split: option.splits analysis.splits)

section \<open>Properties\<close>

text \<open>
  The \<open>symmetric\<close> flag recorded with a result is the truth.  Whenever both engines accept a
  full-text block, the two plans carry the same flag, and it is set exactly when Redis and OpenSearch
  are asked to do the same counting work.
\<close>

theorem total_hits_symmetric_iff:
  assumes "total_hits_plan ''redis'' spec = Inr p" "total_hits_plan ''opensearch'' spec = Inr q"
  shows "symmetric p = symmetric q \<and> (symmetric p \<longleftrightarrow> mode p = mode q) \<and>
    (declared p \<longleftrightarrow> total_hits spec \<noteq> None)"
  using assms by (auto simp: total_hits_plan_def split: option.splits bool.splits)

theorem total_hits_symmetric_iff_witness:
  "total_hits_plan ''redis'' default_fulltext_spec =
     Inr \<lparr>mode = Exact, declared = False, symmetric = False\<rparr> \<and>
   \<not> symmetric \<lparr>mode = No_Total, declared = False, symmetric = False\<rparr>"
proof -
  have "total_hits_plan ''redis'' default_fulltext_spec =
      Inr \<lparr>mode = Exact, declared = False, symmetric = False\<rparr>"
    "total_hits_plan ''opensearch'' default_fulltext_spec =
      Inr \<lparr>mode = No_Total, declared = False, symmetric = False\<rparr>"
    by (simp_all add: total_hits_plan_def check_total_hits_def default_fulltext_spec_def)
  from this total_hits_symmetric_iff[OF this] show ?thesis by simp
qed

text \<open>
  C37: one index serves every search config that shares it.  When the startup check resolves an index
  profile, each search config that uses the text index has a valid block with the profile's analysis
  and scalar indexing; in parity mode each of them searches exactly the profile's text fields, and no
  other workload shares the engine config.
\<close>

theorem index_profile_serves_all:
  assumes "index_profile fv configs = Inr (Some p)" "(w, block) \<in> set configs"
  shows "(uses_text_index w \<longrightarrow> (\<exists>spec. parse_text_block fv block = Inr spec \<and>
      analysis spec = profile_analysis p \<and> scalar_indexing spec = profile_scalar_indexing p \<and>
      (analysis spec = Parity \<longrightarrow> (\<exists>fs. search_fields spec = Some fs \<and>
         set (text_fields p) = fst ` set fs)))) \<and>
    (profile_analysis p = Parity \<longrightarrow> uses_text_index w)"
proof -
  obtain st where st: "profile_configs fv 0 configs \<lparr>seen_scalar = None, seen_analysis = None,
        parity_fields = None, other_workload = None\<rparr> = Inr st" "conclude_profile st = Inr (Some p)"
    using assms(1) by (auto simp: index_profile_def)
  from profile_configs_record[OF st(1) assms(2)] have "recorded fv st (w, block)" .
  with conclude_profileD[OF st(2)] show ?thesis
    by (cases "uses_text_index w") (auto simp: recorded_def agrees_def)
qed

abbreviation demo_parity_spec :: fulltext_spec where
  "demo_parity_spec \<equiv> default_fulltext_spec\<lparr>analysis := Parity, search_fields := Some [(''title'', Finite 2)]\<rparr>"

theorem index_profile_serves_all_witness:
  "\<exists>p. index_profile (\<lambda>_. Some demo_parity_spec) [(Fulltext, Some Null), (HybridRrf, Some Null)] =
      Inr (Some p) \<and> set (text_fields p) = {''title''}"
proof -
  let ?fv = "\<lambda>_. Some demo_parity_spec"
  let ?p = "\<lparr>profile_scalar_indexing = All_Fields, profile_analysis = Parity, text_fields = [''title'']\<rparr>"
  have ok: "parse_text_block ?fv (Some Null) = Inr demo_parity_spec"
    by (simp add: parse_text_block_def check_spec_def check_total_hits_def default_fulltext_spec_def)
  then have *: "index_profile ?fv [(Fulltext, Some Null), (HybridRrf, Some Null)] = Inr (Some ?p)"
    by (simp add: index_profile_def profile_config_def conclude_profile_def differs_def uses_text_index_def
        default_fulltext_spec_def)
  from index_profile_serves_all[OF this, of Fulltext "Some Null"] ok
  have "set (text_fields ?p) = {''title''}" by (simp add: uses_text_index_def)
  with * show ?thesis by blast
qed

text \<open>
  An index is reused only by the configuration that built it.  Checking the marker written by
  profile \<open>q\<close> against profile \<open>p\<close> succeeds exactly when the two agree on analysis, scalar indexing and
  text fields; an index without a marker passes only for the English analysis.
\<close>

theorem marker_roundtrip:
  "(check_marker p (marker q) = Inr () \<longleftrightarrow> p = q) \<and>
   (check_marker p Null = Inr () \<longleftrightarrow> profile_analysis p = English)"
  by (auto simp: check_marker_def marker_inject) (auto simp: marker_def)

text \<open>
  The query terms both engines receive are distinct, none is a stopword and each has at least one
  alphanumeric character, for every query text and whatever the Unicode tables say.
\<close>

theorem query_terms_clean:
  "distinct (query_terms u text) \<and> set (query_terms u text) \<inter> set STOPWORDS = {} \<and>
   list_all (list_ex (alphanumeric u)) (query_terms u text)"
  by (auto simp: query_terms_def list_all_iff)

end
