(* ===== verification/Ranked_Page.thy ===== *)
theory Ranked_Page
  imports Fulltext_Spec
begin

text \<open>
  The ranked replies of the full-text workload (\<open>src/src/fulltext.rs\<close>): validation of a Redis
  \<open>FT.SEARCH\<close> reply and of an OpenSearch response, and the probe that refuses \<open>WITHOUTCOUNT\<close> on a
  server where it changes the ranked page.  The server is the argument \<open>send\<close> of the probe.
\<close>

section \<open>Pages\<close>

datatype page_error =
    Not_A_Map | Redis_Warning | No_Total_Results | No_Results
  | Incomplete_Page nat nat nat
  | Invalid_Entry | Hit_Without_Id | Unparseable_Score | Hit_Without_Score
  | Duplicate_Hit string
  | Non_Finite_Score | Rank_Violation real real
  | Exact_Total_Missing | Unrequested_Total | Timed_Out_Or_Failed_Shards
  | Too_Many_Hits nat nat
  | Incomplete_Exact_Page
  | Withoutcount_Ranking nat
  | Server_Error nat
  | Probe_Counted nat page_error | Probe_Uncounted nat page_error
  | No_Total_In_Counted_Page
  | Probe_Pages_Differ nat | Probe_Documents_Differ nat
  | Probe_Inconclusive

record ranked_page =
  page_total :: "nat option"
  returned :: nat
  hits :: "(string \<times> real) list option"

text \<open>\<open>RankCheck::push\<close> on the last accepted score.\<close>

fun rank_push :: "real option \<Rightarrow> f64v \<Rightarrow> page_error + real" where
  "rank_push prev (Non_Finite _) = Inl Non_Finite_Score"
| "rank_push prev (Finite s) = (case prev of
       Some p \<Rightarrow> if s > p then Inl (Rank_Violation s p) else Inr s
     | None \<Rightarrow> Inr s)"

definition check_rank_violations :: "total_hits \<Rightarrow> nat \<Rightarrow> page_error + unit" where
  "check_rank_violations th violations =
     (if th = No_Total \<and> violations > 0 then Inl (Withoutcount_Ranking violations) else Inr ())"

section \<open>Redis\<close>

fun reply_text :: "reply \<Rightarrow> string option" where
  "reply_text (BulkString b) = (if valid_utf8 b then Some b else None)"
| "reply_text (SimpleString s) = Some s"
| "reply_text _ = None"

definition reply_field :: "(reply \<times> reply) list \<Rightarrow> string \<Rightarrow> reply option" where
  "reply_field fs name = map_option snd (List.find (\<lambda>(k, _). reply_text k = Some name) fs)"

fun reply_score :: "reply option \<Rightarrow> page_error + f64v" where
  "reply_score (Some (Double d)) = Inr d"
| "reply_score (Some v) =
     (case reply_text v of
        Some s \<Rightarrow> (case parse_f64 s of Some d \<Rightarrow> Inr d | None \<Rightarrow> Inl Unparseable_Score)
      | None \<Rightarrow> Inl Unparseable_Score)"
| "reply_score None = Inl Hit_Without_Score"

fun redis_entry :: "reply \<Rightarrow> page_error + string \<times> f64v" where
  "redis_entry (RMap r) =
     (case reply_field r ''id'' of
        None \<Rightarrow> Inl Hit_Without_Id
      | Some v \<Rightarrow> (case reply_text v of
            None \<Rightarrow> Inl Hit_Without_Id
          | Some i \<Rightarrow> rbind (reply_score (reply_field r ''score'')) (\<lambda>s. Inr (i, s))))"
| "redis_entry _ = Inl Invalid_Entry"

text \<open>
  The loop over the entries of a page: read an entry, refuse a repeated id, check the rank.  It is
  shared by both engines, which read an entry differently.
\<close>

fun read_hits ::
  "('a \<Rightarrow> page_error + string \<times> f64v) \<Rightarrow> string set \<Rightarrow> real option \<Rightarrow> 'a list \<Rightarrow>
   page_error + (string \<times> real) list" where
  "read_hits entry seen prev [] = Inr []"
| "read_hits entry seen prev (r # rs) =
     rbind (entry r) (\<lambda>(i, s).
     if i \<in> seen then Inl (Duplicate_Hit i)
     else rbind (rank_push prev s) (\<lambda>x.
          rbind (read_hits entry (insert i seen) (Some x) rs) (\<lambda>hs. Inr ((i, x) # hs))))"

text \<open>The checks before the loop: the announced total and the result entries.\<close>

definition redis_page_entries :: "reply \<Rightarrow> nat \<Rightarrow> page_error + nat \<times> reply list" where
  "redis_page_entries value page =
     rbind (case value of RMap fs \<Rightarrow> Inr fs | _ \<Rightarrow> Inl Not_A_Map) (\<lambda>fs.
     rbind (case reply_field fs ''warning'' of
         Some (RArray w) \<Rightarrow> if w = [] then Inr () else Inl Redis_Warning
       | _ \<Rightarrow> Inl Redis_Warning) (\<lambda>_.
     rbind (case reply_field fs ''total_results'' of
         Some (RInt n) \<Rightarrow> if n \<ge> 0 then Inr (nat n) else Inl No_Total_Results
       | _ \<Rightarrow> Inl No_Total_Results) (\<lambda>n.
     rbind (case reply_field fs ''results'' of
         Some (RArray results) \<Rightarrow> Inr results
       | _ \<Rightarrow> Inl No_Results) (\<lambda>results.
     if length results \<noteq> min n page then Inl (Incomplete_Page n (length results) page)
     else Inr (n, results)))))"

definition redis_ranked_page_with ::
  "reply \<Rightarrow> nat \<Rightarrow> bool \<Rightarrow> total_hits \<Rightarrow> page_error + ranked_page" where
  "redis_ranked_page_with value page keep_hits th =
     rbind (redis_page_entries value page) (\<lambda>(n, results).
     rbind (read_hits redis_entry {} None results) (\<lambda>hs.
     Inr \<lparr>page_total = (if th = Exact then Some n else None), returned = length results,
          hits = (if keep_hits then Some hs else None)\<rparr>))"

definition redis_ranked_page :: "reply \<Rightarrow> nat \<Rightarrow> bool \<Rightarrow> page_error + ranked_page" where
  "redis_ranked_page value page keep_hits = redis_ranked_page_with value page keep_hits Exact"

section \<open>OpenSearch\<close>

definition opensearch_entry :: "json \<Rightarrow> page_error + string \<times> f64v" where
  "opensearch_entry h =
     (case (case as_string (jindex h ''_id'') of Some i \<Rightarrow> Some i
            | None \<Rightarrow> as_string (jfirst (jindex (jindex h ''fields'') ''_id''))) of
        None \<Rightarrow> Inl Hit_Without_Id
      | Some i \<Rightarrow> (case as_f64 (jindex h ''_score'') of
            None \<Rightarrow> Inl Hit_Without_Score
          | Some s \<Rightarrow> Inr (i, Finite s)))"

definition opensearch_page_checked ::
  "json \<Rightarrow> nat \<Rightarrow> bool \<Rightarrow> total_hits option \<Rightarrow> page_error + ranked_page" where
  "opensearch_page_checked body page keep_hits expect =
     (let hs = jindex body ''hits''; tot = jindex hs ''total'';
          is_eq = (jindex tot ''relation'' = String ''eq'') in
      if expect = Some Exact \<and> \<not> is_eq then Inl Exact_Total_Missing
      else if expect = Some No_Total \<and> jget ''total'' hs \<noteq> None then Inl Unrequested_Total
      else if jindex body ''timed_out'' \<noteq> Bool False \<or>
              as_i64 (jindex (jindex body ''_shards'') ''failed'') \<noteq> Some 0
      then Inl Timed_Out_Or_Failed_Shards
      else case as_array (jindex hs ''hits'') of
        None \<Rightarrow> Inl No_Results
      | Some results \<Rightarrow>
          if length results > page then Inl (Too_Many_Hits (length results) page)
          else rbind (read_hits opensearch_entry {} None results) (\<lambda>found.
            let n = (if is_eq then as_u64 (jindex tot ''value'') else None) in
            if (case n of Some k \<Rightarrow> length results \<noteq> min k page | None \<Rightarrow> False)
            then Inl Incomplete_Exact_Page
            else Inr \<lparr>page_total = n, returned = length results,
                      hits = (if keep_hits then Some found else None)\<rparr>))"

definition opensearch_ranked_page :: "json \<Rightarrow> nat \<Rightarrow> bool \<Rightarrow> page_error + ranked_page" where
  "opensearch_ranked_page body page keep_hits = opensearch_page_checked body page keep_hits None"

definition opensearch_ranked_page_with ::
  "json \<Rightarrow> nat \<Rightarrow> bool \<Rightarrow> total_hits \<Rightarrow> page_error + ranked_page" where
  "opensearch_ranked_page_with body page keep_hits th =
     opensearch_page_checked body page keep_hits (Some th)"

section \<open>The \<open>WITHOUTCOUNT\<close> probe\<close>

record without_count_probe =
  compared :: nat
  over_limit :: nat

definition WITHOUTCOUNT_PROBE_QUERIES :: nat where
  "WITHOUTCOUNT_PROBE_QUERIES = 8"

text \<open>The loop of \<open>same_ranked_page\<close>: one tied-score group of both pages at a time.\<close>

function same_groups ::
  "bool \<Rightarrow> (string \<times> real) list \<Rightarrow> (string \<times> real) list \<Rightarrow> bool" where
  "same_groups truncated [] us = True"
| "same_groups truncated (c # cs) us =
     (let n = length (takeWhile (\<lambda>h. snd h = snd c) (c # cs)) in
      (truncated \<and> n = length (c # cs) \<or> fst ` set (take n (c # cs)) = fst ` set (take n us)) \<and>
      same_groups truncated (drop n (c # cs)) (drop n us))"
  by pat_completeness auto
termination
  by (relation "measure (\<lambda>(_, cs, _). length cs)") (auto simp: Let_def)

definition same_ranked_page ::
  "nat \<Rightarrow> (string \<times> real) list \<Rightarrow> (string \<times> real) list \<Rightarrow> bool \<Rightarrow> page_error + unit" where
  "same_ranked_page i counted uncounted truncated =
     (if length counted \<noteq> length uncounted \<or> map snd counted \<noteq> map snd uncounted
      then Inl (Probe_Pages_Differ i)
      else if same_groups truncated counted uncounted then Inr () else Inl (Probe_Documents_Differ i))"

text \<open>One turn of the loop of \<open>probe_withoutcount\<close>, and the loop.\<close>

definition probe_query ::
  "nat \<Rightarrow> (nat \<Rightarrow> total_hits \<Rightarrow> page_error + reply) \<Rightarrow> nat \<Rightarrow> without_count_probe \<Rightarrow>
   page_error + without_count_probe" where
  "probe_query page send i probe =
     rbind (map_err (Probe_Counted i) (rbind (send i Exact)
        (\<lambda>v. redis_ranked_page_with v page True Exact))) (\<lambda>counted.
     rbind (ok_or No_Total_In_Counted_Page (page_total counted)) (\<lambda>tot.
     if tot = 0 then Inr probe
     else rbind (map_err (Probe_Uncounted i) (rbind (send i No_Total)
            (\<lambda>v. redis_ranked_page_with v page True No_Total))) (\<lambda>uncounted.
       let truncated = tot > page in
       rbind (same_ranked_page i (case hits counted of Some h \<Rightarrow> h | None \<Rightarrow> [])
            (case hits uncounted of Some h \<Rightarrow> h | None \<Rightarrow> []) truncated) (\<lambda>_.
       Inr (probe\<lparr>compared := compared probe + 1,
                  over_limit := over_limit probe + (if truncated then 1 else 0)\<rparr>)))))"

fun probe_loop ::
  "nat \<Rightarrow> (nat \<Rightarrow> total_hits \<Rightarrow> page_error + reply) \<Rightarrow> nat list \<Rightarrow> without_count_probe \<Rightarrow>
   page_error + without_count_probe" where
  "probe_loop page send [] probe = Inr probe"
| "probe_loop page send (i # is) probe =
     (if over_limit probe \<ge> WITHOUTCOUNT_PROBE_QUERIES then Inr probe
      else rbind (probe_query page send i probe) (probe_loop page send is))"

definition probe_withoutcount ::
  "nat \<Rightarrow> nat \<Rightarrow> (nat \<Rightarrow> total_hits \<Rightarrow> page_error + reply) \<Rightarrow> page_error + without_count_probe" where
  "probe_withoutcount nqueries page send =
     rbind (probe_loop page send [0..<nqueries] \<lparr>compared = 0, over_limit = 0\<rparr>) (\<lambda>probe.
     if over_limit probe = 0 then Inl Probe_Inconclusive else Inr probe)"

section \<open>The contract of a page reader\<close>

definition ranked :: "(string \<times> real) list \<Rightarrow> bool" where
  "ranked hs \<longleftrightarrow> distinct (map fst hs) \<and> sorted_wrt (\<ge>) (map snd hs)"

text \<open>
  A reader validates a reply for a page size.  What a client may rely on: a kept page is ranked and
  duplicate-free, has as many hits as it says, at most the page size, and keeping the hits does not
  change the verdict.
\<close>

locale page_reader =
  fixes read :: "'v \<Rightarrow> nat \<Rightarrow> bool \<Rightarrow> page_error + ranked_page"
  assumes kept: "read v n True = Inr pg \<Longrightarrow>
      \<exists>hs. hits pg = Some hs \<and> ranked hs \<and> length hs = returned pg \<and> returned pg \<le> n"
    and dropped: "read v n False =
      rbind (read v n True) (\<lambda>pg. Inr (pg\<lparr>hits := None\<rparr>))"
begin

lemma accepted_page:
  assumes "read v n keep = Inr pg"
  shows "returned pg \<le> n \<and> (hits pg = None \<longleftrightarrow> \<not> keep) \<and>
    (\<forall>hs. hits pg = Some hs \<longrightarrow> ranked hs \<and> length hs = returned pg)"
proof (cases keep)
  case True
  with assms kept[of v n pg] show ?thesis by auto
next
  case False
  with assms dropped[of v n] obtain pg' where "read v n True = Inr pg'" "pg = pg'\<lparr>hits := None\<rparr>"
    by auto
  with kept[of v n pg'] False show ?thesis by auto
qed

lemma same_verdict: "is_ok (read v n keep) \<longleftrightarrow> is_ok (read v n True)"
  using dropped[of v n] by (cases keep; cases "read v n True") (auto simp: is_ok_def)

end

lemma rank_pushD:
  "rank_push prev s = Inr x \<Longrightarrow> s = Finite x \<and> (\<forall>p. prev = Some p \<longrightarrow> x \<le> p)"
  by (cases s) (auto split: option.splits if_splits)

lemma read_hits_ok:
  assumes "read_hits entry seen prev rs = Inr hs"
  shows "length hs = length rs \<and> ranked hs \<and> fst ` set hs \<inter> seen = {} \<and>
    (\<forall>p. prev = Some p \<longrightarrow> (\<forall>h \<in> set hs. snd h \<le> p))"
  using assms
proof (induction rs arbitrary: seen prev hs)
  case (Cons r rs)
  then obtain i s x ks where step: "entry r = Inr (i, s)" "i \<notin> seen" "rank_push prev s = Inr x"
      "read_hits entry (insert i seen) (Some x) rs = Inr ks" "hs = (i, x) # ks"
    by (auto split: if_splits)
  from Cons.IH[OF step(4)] rank_pushD[OF step(3)] step(2,5) show ?case
    by (fastforce simp: ranked_def image_iff)
qed (simp add: ranked_def)

lemma redis_page_entries_length:
  "redis_page_entries v n = Inr (k, rs) \<Longrightarrow> length rs = min k n"
  by (auto simp: redis_page_entries_def split: if_splits)

interpretation redis_reader: page_reader "\<lambda>v n keep. redis_ranked_page_with v n keep th"
proof
  show "\<exists>hs. hits pg = Some hs \<and> ranked hs \<and> length hs = returned pg \<and> returned pg \<le> n"
    if "redis_ranked_page_with v n True th = Inr pg" for v n pg
    using that by (auto simp: redis_ranked_page_with_def dest!: redis_page_entries_length read_hits_ok)
  show "redis_ranked_page_with v n False th =
      rbind (redis_ranked_page_with v n True th) (\<lambda>pg. Inr (pg\<lparr>hits := None\<rparr>))" for v n
    by (auto simp: redis_ranked_page_with_def rbind_def split: sum.splits)
qed

interpretation opensearch_reader: page_reader "\<lambda>v n keep. opensearch_page_checked v n keep expect"
proof
  show "\<exists>hs. hits pg = Some hs \<and> ranked hs \<and> length hs = returned pg \<and> returned pg \<le> n"
    if "opensearch_page_checked v n True expect = Inr pg" for v n pg
    using that by (auto simp: opensearch_page_checked_def Let_def
        split: option.splits if_splits dest: read_hits_ok)
  show "opensearch_page_checked v n False expect =
      rbind (opensearch_page_checked v n True expect) (\<lambda>pg. Inr (pg\<lparr>hits := None\<rparr>))" for v n
    by (auto simp: opensearch_page_checked_def Let_def rbind_def split: option.splits sum.splits)
qed

section \<open>What the probe establishes\<close>

text \<open>Two pages hold the same documents above a score (all of them, when nothing was cut off).\<close>

definition same_above :: "bool \<Rightarrow> (string \<times> real) list \<Rightarrow> (string \<times> real) list \<Rightarrow> bool" where
  "same_above truncated cs us \<longleftrightarrow>
     {h \<in> set cs. truncated \<longrightarrow> snd h > snd (last cs)} = {h \<in> set us. truncated \<longrightarrow> snd h > snd (last us)}"

lemma same_scores_group:
  assumes "map snd cs = map snd us" "\<forall>h \<in> set (take n cs). snd h = s"
    "fst ` set (take n cs) = fst ` set (take n us)"
  shows "set (take n cs) = set (take n (us :: (string \<times> real) list))"
proof -
  have "snd ` set (take n us) = snd ` set (take n cs)"
    using assms(1) by (metis list.set_map take_map)
  then have "\<forall>h \<in> set (take n us). snd h = s" using assms(2) by force
  moreover have "A = fst ` A \<times> {s}" if "\<forall>h \<in> A. snd h = s" for A
    using that by force
  ultimately show ?thesis using assms(2,3) by metis
qed

lemma same_groups_same_above:
  assumes "same_groups truncated cs us" "map snd cs = map snd us"
    and "sorted_wrt (\<ge>) (map snd cs)"
  shows "same_above truncated cs us"
  using assms
proof (induction truncated cs us rule: same_groups.induct)
  case (1 truncated us)
  then show ?case by (simp add: same_above_def)
next
  case (2 truncated c cs us)
  define n where "n = length (takeWhile (\<lambda>h. snd h = snd c) (c # cs))"
  have group: "\<forall>h \<in> set (take n (c # cs)). snd h = snd c"
    unfolding n_def by (metis (mono_tags, lifting) set_takeWhileD takeWhile_eq_take)
  have us: "us = take n us @ drop n us" "c # cs = take n (c # cs) @ drop n (c # cs)" by simp_all
  have lens: "length us = length (c # cs)" using 2(3) by (metis length_map)
  have last_eq: "snd (last us) = snd (last (c # cs))"
    using 2(3) lens by (metis last_map length_0_conv list.distinct(1))
  show ?case
  proof (cases "truncated \<and> n = length (c # cs)")
    case True
    then have "take n (c # cs) = c # cs" by simp
    with group have all: "\<And>h. h \<in> set (c # cs) \<Longrightarrow> snd h = snd c" by metis
    moreover have "snd ` set us = snd ` set (c # cs)" using 2(3) by (metis list.set_map)
    ultimately have "\<And>h. h \<in> set us \<Longrightarrow> snd h = snd c" by (metis imageE imageI)
    moreover have "snd (last (c # cs)) = snd c" using all[OF last_in_set] by simp
    ultimately show ?thesis using True all last_eq unfolding same_above_def
      by (metis (mono_tags, lifting) Collect_cong order_less_irrefl)
  next
    case False
    have IH: "same_above truncated (drop n (c # cs)) (drop n us)"
    proof (rule 2(1)[OF n_def])
      show "same_groups truncated (drop n (c # cs)) (drop n us)"
        using 2(2) unfolding same_groups.simps Let_def n_def by blast
      show "map snd (drop n (c # cs)) = map snd (drop n us)" using 2(3) by (metis drop_map)
      show "sorted_wrt (\<ge>) (map snd (drop n (c # cs)))"
        using 2(4) by (metis drop_map sorted_wrt_drop)
    qed
    have heads: "set (take n (c # cs)) = set (take n us)"
      using same_scores_group[OF 2(3) group] 2(2) False
      unfolding same_groups.simps Let_def n_def[symmetric] by blast
    have sets: "set us = set (take n us) \<union> set (drop n us)"
      "set (c # cs) = set (take n (c # cs)) \<union> set (drop n (c # cs))"
      using us by (metis set_append)+
    show ?thesis
    proof (cases truncated)
      case True
      have "n \<le> length (c # cs)" unfolding n_def by (rule length_takeWhile_le)
      with False True have "n < length (c # cs)" by simp
      with lens have "last (drop n (c # cs)) = last (c # cs)" "last (drop n us) = last us"
        by (metis last_drop)+
      with IH True sets heads last_eq show ?thesis
        unfolding same_above_def by (simp add: Collect_disj_eq conj_disj_distribR del: drop_Suc_Cons) 
    next
      case False
      with IH sets heads show ?thesis unfolding same_above_def by simp
    qed
  qed
qed

text \<open>
  What one probed query shows: the counted page and the \<open>WITHOUTCOUNT\<close> page carry the same scores rank
  by rank and the same documents above the cut-off score.
\<close>

definition pages_agree ::
  "(nat \<Rightarrow> total_hits \<Rightarrow> page_error + reply) \<Rightarrow> nat \<Rightarrow> nat \<Rightarrow> nat \<Rightarrow> bool" where
  "pages_agree send page i n \<longleftrightarrow>
     (\<exists>v w hs ks m. send i Exact = Inr v \<and> send i No_Total = Inr w \<and>
        redis_ranked_page_with v page True Exact = Inr \<lparr>page_total = Some n, returned = m, hits = Some hs\<rparr> \<and>
        redis_ranked_page_with w page True No_Total = Inr \<lparr>page_total = None, returned = m, hits = Some ks\<rparr> \<and>
        map snd hs = map snd ks \<and> same_above (n > page) hs ks)"

definition no_match :: "(nat \<Rightarrow> total_hits \<Rightarrow> page_error + reply) \<Rightarrow> nat \<Rightarrow> nat \<Rightarrow> bool" where
  "no_match send page i \<longleftrightarrow> (\<exists>v pg. send i Exact = Inr v \<and>
     redis_ranked_page_with v page True Exact = Inr pg \<and> page_total pg = Some 0)"

definition probe_ok :: "(nat \<Rightarrow> total_hits \<Rightarrow> page_error + reply) \<Rightarrow> nat \<Rightarrow> nat \<Rightarrow> bool" where
  "probe_ok send page i \<longleftrightarrow> no_match send page i \<or> (\<exists>n. pages_agree send page i n)"

lemma same_ranked_page_ok:
  assumes "same_ranked_page i cs us tr = Inr ()" "ranked cs"
  shows "map snd cs = map snd us" "same_above tr cs us"
  using assms same_groups_same_above[of tr cs us]
  by (auto simp: same_ranked_page_def ranked_def split: if_splits)

lemma redis_pageD:
  assumes "redis_ranked_page_with v page True th = Inr pg"
  shows "\<exists>n hs. pg = \<lparr>page_total = (if th = Exact then Some n else None), returned = length hs,
    hits = Some hs\<rparr> \<and> ranked hs"
  using assms by (auto simp: redis_ranked_page_with_def dest!: read_hits_ok)

lemma probe_query_ok:
  assumes "probe_query page send i pr = Inr pr'"
  shows "probe_ok send page i \<and> (over_limit pr' = over_limit pr \<or>
    (\<exists>n > page. pages_agree send page i n))"
proof -
  obtain v cp tot where c: "send i Exact = Inr v" "redis_ranked_page_with v page True Exact = Inr cp"
      "page_total cp = Some tot"
    and rest: "tot = 0 \<and> over_limit pr' = over_limit pr \<or> tot \<noteq> 0 \<and> (\<exists>w up. send i No_Total = Inr w \<and>
      redis_ranked_page_with w page True No_Total = Inr up \<and>
      same_ranked_page i (case hits cp of Some h \<Rightarrow> h | None \<Rightarrow> [])
        (case hits up of Some h \<Rightarrow> h | None \<Rightarrow> []) (tot > page) = Inr () \<and>
      over_limit pr' = over_limit pr + (if tot > page then 1 else 0))"
    using assms unfolding probe_query_def
    by (auto simp: Let_def split: if_splits) fastforce+
  show ?thesis
  proof (cases "tot = 0")
    case True
    with rest c show ?thesis by (auto simp: probe_ok_def no_match_def)
  next
    case False
    with rest obtain w up where u: "send i No_Total = Inr w"
        "redis_ranked_page_with w page True No_Total = Inr up"
        "same_ranked_page i (case hits cp of Some h \<Rightarrow> h | None \<Rightarrow> [])
          (case hits up of Some h \<Rightarrow> h | None \<Rightarrow> []) (tot > page) = Inr ()"
        "over_limit pr' = over_limit pr + (if tot > page then 1 else 0)" by blast
    obtain hs where hs: "cp = \<lparr>page_total = Some tot, returned = length hs, hits = Some hs\<rparr>" "ranked hs"
      using redis_pageD[OF c(2)] c(3) by auto
    obtain ks where ks: "up = \<lparr>page_total = None, returned = length ks, hits = Some ks\<rparr>"
      using redis_pageD[OF u(2)] by auto
    have same: "map snd hs = map snd ks" "same_above (tot > page) hs ks"
      using same_ranked_page_ok[of i hs ks "tot > page"] u(3) hs ks by simp_all
    then have "length ks = length hs" by (metis length_map)
    with same c(1,2) u(1,2) hs ks have "pages_agree send page i tot"
      unfolding pages_agree_def by (intro exI[of _ v] exI[of _ w] exI[of _ hs] exI[of _ ks]) auto
    with u(4) show ?thesis by (auto simp: probe_ok_def)
  qed
qed

lemma probe_loop_ok:
  assumes "probe_loop page send is pr = Inr pr'"
  shows "\<exists>k \<le> length is. (\<forall>i \<in> set (take k is). probe_ok send page i) \<and>
    (k = length is \<or> over_limit pr' \<ge> WITHOUTCOUNT_PROBE_QUERIES) \<and>
    (over_limit pr' \<noteq> over_limit pr \<longrightarrow> (\<exists>i \<in> set (take k is). \<exists>n > page. pages_agree send page i n))"
  using assms
proof (induction "is" arbitrary: pr)
  case (Cons i "is")
  show ?case
  proof (cases "over_limit pr \<ge> WITHOUTCOUNT_PROBE_QUERIES")
    case True
    with Cons.prems show ?thesis by (intro exI[of _ 0]) auto
  next
    case False
    with Cons.prems obtain q where q: "probe_query page send i pr = Inr q"
        "probe_loop page send is q = Inr pr'" by auto
    from Cons.IH[OF q(2)] obtain k where "k \<le> length is"
        "\<forall>j \<in> set (take k is). probe_ok send page j"
        "k = length is \<or> over_limit pr' \<ge> WITHOUTCOUNT_PROBE_QUERIES"
        "over_limit pr' \<noteq> over_limit q \<longrightarrow>
           (\<exists>j \<in> set (take k is). \<exists>n > page. pages_agree send page j n)" by blast
    with probe_query_ok[OF q(1)] show ?thesis by (intro exI[of _ "Suc k"]) auto
  qed
qed simp

section \<open>Properties\<close>

text \<open>
  C28: an accepted ranked page is a ranked page.  On both engines a reply that passes validation has at
  most the requested number of hits; when they are kept they are as many as reported, duplicate-free
  and in descending score order; a total is published from Redis only for a counted request; and
  whether hits are kept never changes the verdict.
\<close>

theorem accepted_pages_are_ranked:
  assumes "redis_ranked_page_with v page keep th = Inr pg"
    and "opensearch_page_checked body page keep expect = Inr og"
  shows "returned pg \<le> page \<and> returned og \<le> page \<and>
    (\<forall>p hs. p \<in> {pg, og} \<and> hits p = Some hs \<longrightarrow> ranked hs \<and> length hs = returned p) \<and>
    (page_total pg \<noteq> None \<longleftrightarrow> th = Exact) \<and>
    is_ok (redis_ranked_page_with v page (\<not> keep) th) \<and>
    is_ok (opensearch_page_checked body page (\<not> keep) expect)"
proof -
  have "page_total pg \<noteq> None \<longleftrightarrow> th = Exact"
    using assms(1) by (auto simp: redis_ranked_page_with_def split: if_splits)
  moreover have "is_ok (redis_ranked_page_with v page k th)"
    "is_ok (opensearch_page_checked body page k expect)" for k
    using assms redis_reader.same_verdict[of v page k th] redis_reader.same_verdict[of v page keep th]
      opensearch_reader.same_verdict[of body page k expect]
      opensearch_reader.same_verdict[of body page keep expect]
    by (auto simp: is_ok_def)
  ultimately show ?thesis
    using redis_reader.accepted_page[OF assms(1)] opensearch_reader.accepted_page[OF assms(2)] by blast
qed

abbreviation demo_hit :: "string \<Rightarrow> real \<Rightarrow> reply" where
  "demo_hit i s \<equiv> RMap [(SimpleString ''id'', SimpleString i), (SimpleString ''score'', Double (Finite s))]"

abbreviation demo_reply :: "int \<Rightarrow> reply list \<Rightarrow> reply" where
  "demo_reply n hs \<equiv> RMap [(SimpleString ''warning'', RArray []), (SimpleString ''total_results'', RInt n),
     (SimpleString ''results'', RArray hs)]"

abbreviation demo_body :: json where
  "demo_body \<equiv> Object [(''_shards'', Object [(''failed'', Number (PosInt 0))]),
     (''hits'', Object [(''hits'', Array [
        Object [(''_id'', String ''a''), (''_score'', Number (Float 3))],
        Object [(''_id'', String ''b''), (''_score'', Number (Float 2))]])]), (''timed_out'', Bool False)]"

theorem accepted_pages_are_ranked_witness:
  "ranked [(''a'', 3), (''b'', 2)] \<and>
   is_ok (redis_ranked_page_with (demo_reply 5 [demo_hit ''a'' 3, demo_hit ''b'' 2]) 2 False Exact) \<and>
   is_ok (opensearch_page_checked demo_body 2 False (Some No_Total))"
proof -
  have "redis_ranked_page_with (demo_reply 5 [demo_hit ''a'' 3, demo_hit ''b'' 2]) 2 True Exact =
      Inr \<lparr>page_total = Some 5, returned = 2, hits = Some [(''a'', 3), (''b'', 2)]\<rparr>"
    by (simp add: redis_ranked_page_with_def redis_page_entries_def reply_field_def)
  moreover have "opensearch_page_checked demo_body 2 True (Some No_Total) =
      Inr \<lparr>page_total = None, returned = 2, hits = Some [(''a'', 3), (''b'', 2)]\<rparr>"
    by (simp add: opensearch_page_checked_def opensearch_entry_def jindex_def)
  ultimately show ?thesis using accepted_pages_are_ranked by force
qed

text \<open>
  C29: \<open>WITHOUTCOUNT\<close> is used only on a server that keeps the ranking.  When the probe passes, a
  non-empty prefix of the query set was checked (all of it, or until enough queries overflowed the
  page); every query in it had no match, or returned counted and uncounted pages with the same scores
  and the same documents above the cut-off; and at least one of them had more matches than the page.
\<close>

theorem probe_means_ranking_kept:
  assumes "probe_withoutcount nqueries page send = Inr probe"
  shows "\<exists>m \<le> nqueries. (\<forall>i < m. probe_ok send page i) \<and>
    (m = nqueries \<or> over_limit probe \<ge> WITHOUTCOUNT_PROBE_QUERIES) \<and>
    (\<exists>i < m. \<exists>n > page. pages_agree send page i n)"
proof -
  from assms have loop: "probe_loop page send [0..<nqueries] \<lparr>compared = 0, over_limit = 0\<rparr> = Inr probe"
    and some: "over_limit probe \<noteq> 0"
    by (auto simp: probe_withoutcount_def split: if_splits)
  from probe_loop_ok[OF loop] obtain k where k: "k \<le> nqueries"
      "\<forall>i \<in> set (take k [0..<nqueries]). probe_ok send page i"
      "k = nqueries \<or> over_limit probe \<ge> WITHOUTCOUNT_PROBE_QUERIES"
      "\<exists>i \<in> set (take k [0..<nqueries]). \<exists>n > page. pages_agree send page i n"
    using some by (metis length_upt diff_zero without_count_probe.select_convs(2))
  moreover have "set (take k [0..<nqueries]) = {..<k}" using k(1) by (auto simp: take_upt)
  ultimately show ?thesis by (intro exI[of _ k]) auto
qed

theorem probe_means_ranking_kept_witness:
  "\<exists>i < 1. \<exists>n > 1. pages_agree (\<lambda>_ th. Inr (demo_reply (if th = Exact then 2 else 1) [demo_hit ''a'' 3])) 1 i n"
proof -
  let ?send = "\<lambda>_ th. Inr (demo_reply (if th = Exact then 2 else 1) [demo_hit ''a'' 3])"
  have "redis_ranked_page_with (demo_reply 2 [demo_hit ''a'' 3]) 1 True Exact =
      Inr \<lparr>page_total = Some 2, returned = 1, hits = Some [(''a'', 3)]\<rparr>"
    "redis_ranked_page_with (demo_reply 1 [demo_hit ''a'' 3]) 1 True No_Total =
      Inr \<lparr>page_total = None, returned = 1, hits = Some [(''a'', 3)]\<rparr>"
    by (simp_all add: redis_ranked_page_with_def redis_page_entries_def reply_field_def)
  then have "probe_withoutcount 1 1 ?send = Inr \<lparr>compared = 1, over_limit = 1\<rparr>"
    by (simp add: probe_withoutcount_def WITHOUTCOUNT_PROBE_QUERIES_def probe_query_def
        same_ranked_page_def)
  from probe_means_ranking_kept[OF this] show ?thesis by (meson order_less_le_trans)
qed

end
