(* ===== verification/Hybrid_Rrf.thy ===== *)
theory Hybrid_Rrf
  imports Ranked_Page "HOL-Library.Product_Lexorder" "HOL-Library.Multiset" "HOL-Library.Word"
begin

text \<open>
  The hybrid BM25 + KNN workload fused by reciprocal ranks (\<open>src/src/hybrid_rrf.rs\<close>): the \<open>rrf\<close> block and
  the startup checks, the query set, the fusion and the client-side reference, the tie-aware score of a
  returned page, the check that a returned score is a fusion score at all, and the requests and
  read-backs of the two engines.  Every \<open>f64\<close> operation is rounded (\<open>F64\<close>), in the order of the source.
\<close>

unbundle bit_operations_syntax

section \<open>The block and the startup checks\<close>

definition MIN_RANK_CONSTANT :: nat where "MIN_RANK_CONSTANT = 1"
definition MAX_RANK_CONSTANT :: nat where "MAX_RANK_CONSTANT = 10000"
definition MAX_WINDOW :: nat where "MAX_WINDOW = 10000"
definition TIE_TOLERANCE :: real where "TIE_TOLERANCE = rnd64 (1 / 10 ^ 5)"
definition REFERENCE_TIE_TOLERANCE :: real where "REFERENCE_TIE_TOLERANCE = rnd64 (1 / 10 ^ 12)"

record rrf_spec =
  window :: nat
  rank_constant :: nat

datatype rrf_error =
    Needs_Rrf_Block | Invalid_Rrf_Block | Bad_Window nat | Bad_Rank_Constant nat
  | Text_Error text_error
  | No_Rrf_Total_Contract string
  | Rrf_Block_On_Workload workload
  | Cluster_Api_Refused
  | Unreadable_Profile nat nat | Too_Many_Shards nat
  | Bad_Top int | Needs_Top | Top_Above_Window nat nat | Needs_Ef nat | Bad_Ef int nat
  | No_Rrf_Metadata | Stray_Rrf_Metadata workload
  | Conditions_Declared json
  | Query_Count_Mismatch nat nat | Short_Ground_Truth nat nat nat
  | Too_Many_Candidates nat nat | Duplicate_Candidate
  | Not_An_Rrf_Score | Page_Not_Ranked
  | Page_Too_Long nat nat | Duplicate_In_Page
  | Hybrid_Not_A_Map | Hybrid_Warnings "string list" | No_Warnings_Field | No_Hybrid_Total
  | No_Hybrid_Results | Incomplete_Hybrid_Page nat nat nat | Hybrid_Entry_Not_A_Map
  | No_Hybrid_Key | Unparseable_Hybrid_Score | No_Hybrid_Score | Duplicate_Hybrid_Key string
  | Too_Few_Calls nat nat
  | OpenSearch_Too_Old string
  | Pipeline_Not_Found | Pipeline_Extra_Processors string | Pipeline_Not_One_Processor
  | Pipeline_Not_Rrf | Pipeline_Wrong_Constant

definition parse_rrf_spec :: "(json \<Rightarrow> rrf_spec option) \<Rightarrow> json option \<Rightarrow> rrf_error + rrf_spec" where
  "parse_rrf_spec from_value block =
     rbind (ok_or Needs_Rrf_Block block) (\<lambda>b.
     rbind (ok_or Invalid_Rrf_Block (from_value b)) (\<lambda>spec.
     if window spec = 0 \<or> window spec > MAX_WINDOW then Inl (Bad_Window (window spec))
     else if \<not> (MIN_RANK_CONSTANT \<le> rank_constant spec \<and> rank_constant spec \<le> MAX_RANK_CONSTANT)
     then Inl (Bad_Rank_Constant (rank_constant spec))
     else Inr spec))"

definition rrf_total_hits_plan :: "string \<Rightarrow> fulltext_spec \<Rightarrow> rrf_error + total_hits_plan" where
  "rrf_total_hits_plan engine spec =
     (if engine \<notin> {''redis'', ''opensearch''} then Inl (No_Rrf_Total_Contract engine)
      else rbind (map_err Text_Error (check_text_spec spec)) (\<lambda>_.
        Inr \<lparr>mode = No_Total, declared = (total_hits spec \<noteq> None), symmetric = True\<rparr>))"

definition validate_rrf_declared ::
  "(json \<Rightarrow> rrf_spec option) \<Rightarrow> workload \<Rightarrow> json option \<Rightarrow> rrf_error + unit" where
  "validate_rrf_declared from_value w block =
     (if w = HybridRrf then rbind (parse_rrf_spec from_value block) (\<lambda>_. Inr ())
      else case block of Some _ \<Rightarrow> Inl (Rrf_Block_On_Workload w) | None \<Rightarrow> Inr ())"

definition check_redis_deployment :: "bool \<Rightarrow> workload list \<Rightarrow> rrf_error + unit" where
  "check_redis_deployment cluster_api ws =
     (if cluster_api \<and> HybridRrf \<in> set ws then Inl Cluster_Api_Refused else Inr ())"

definition redis_profile_shards :: "string list \<Rightarrow> rrf_error + nat" where
  "redis_profile_shards profile =
     (let ids = count_list profile ''Shard ID''; profiles = count_list profile ''Total profile time'';
          shards = max ids 1
      in if profiles \<noteq> shards then Inl (Unreadable_Profile profiles ids) else Inr shards)"

definition check_redis_shards :: "nat \<Rightarrow> rrf_error + unit" where
  "check_redis_shards shards = (if shards \<noteq> 1 then Inl (Too_Many_Shards shards) else Inr ())"

definition check_params ::
  "int option \<Rightarrow> int option \<Rightarrow> rrf_spec \<Rightarrow> f64v option \<Rightarrow> f64v option \<Rightarrow> rrf_error + nat" where
  "check_params topn ef spec target_qps duration_seconds =
     rbind (map_err Text_Error (check_execution_params target_qps duration_seconds)) (\<lambda>_.
     rbind (case topn of
         Some t \<Rightarrow> if t \<ge> 1 then Inr (nat t) else Inl (Bad_Top t)
       | None \<Rightarrow> Inl Needs_Top) (\<lambda>t.
     if t > window spec then Inl (Top_Above_Window t (window spec))
     else case ef of
       None \<Rightarrow> Inl (Needs_Ef (window spec))
     | Some e \<Rightarrow> if e < int (window spec) \<or> e > 2 ^ 31 - 1 then Inl (Bad_Ef e (window spec))
                else Inr t))"

definition rrf_verify_fingerprint :: "workload \<Rightarrow> bool \<Rightarrow> rrf_error + unit" where
  "rrf_verify_fingerprint w has_metadata =
     (if w = HybridRrf \<and> \<not> has_metadata then Inl No_Rrf_Metadata
      else if has_metadata \<and> w \<noteq> HybridRrf then Inl (Stray_Rrf_Metadata w)
      else Inr ())"

definition refuse_conditions :: "json \<Rightarrow> rrf_error + unit option" where
  "refuse_conditions conditions = Inl (Conditions_Declared conditions)"

section \<open>The query set\<close>

record hybrid_rrf_query =
  rrf_query_id :: nat
  rrf_terms :: "uchar list list"
  knn_truth :: "int list"

record rrf_query_set =
  rrf_queries :: "hybrid_rrf_query list"
  rrf_skipped :: "nat list"
  rrf_total :: nat

text \<open>The ids of a ground-truth row: valid ones, first occurrences, at most \<open>W\<close>.\<close>

definition rrf_truth :: "int list \<Rightarrow> nat \<Rightarrow> int list" where
  "rrf_truth row w = topk w (filter (\<lambda>i. i \<ge> 0) row)"

definition build_rrf_query ::
  "int list list \<Rightarrow> rrf_spec \<Rightarrow> text_query \<Rightarrow> rrf_error + hybrid_rrf_query" where
  "build_rrf_query neighbours spec q =
     (let truth = rrf_truth (neighbours ! query_id q) (window spec) in
      if length truth < window spec
      then Inl (Short_Ground_Truth (query_id q) (length truth) (window spec))
      else Inr \<lparr>rrf_query_id = query_id q, rrf_terms = terms q, knn_truth = truth\<rparr>)"

definition build_rrf_query_set ::
  "unicode \<Rightarrow> uchar list list \<Rightarrow> int list list \<Rightarrow> rrf_spec \<Rightarrow> rrf_error + rrf_query_set" where
  "build_rrf_query_set u texts neighbours spec =
     (if length texts \<noteq> length neighbours
      then Inl (Query_Count_Mismatch (length texts) (length neighbours))
      else rbind (map_err Text_Error (build_text_query_set u texts)) (\<lambda>text.
        rbind (traverse (build_rrf_query neighbours spec) (queries text)) (\<lambda>qs.
        Inr \<lparr>rrf_queries = qs, rrf_skipped = skipped text, rrf_total = total text\<rparr>)))"

section \<open>Fusion\<close>

text \<open>
  \<open>scores\<close> is a hash map; here its entries, a new id at the end.  Sorting by descending score and
  ascending id makes the order of the entries irrelevant.
\<close>

fun add_score :: "int \<Rightarrow> real \<Rightarrow> (int \<times> real) list \<Rightarrow> (int \<times> real) list" where
  "add_score i x [] = [(i, fadd 0 x)]"
| "add_score i x ((j, s) # es) = (if i = j then (j, fadd s x) # es else (j, s) # add_score i x es)"

definition rank_score :: "nat \<Rightarrow> nat \<Rightarrow> real" where
  "rank_score k rank = fdiv 1 (fadd (of_nat k) (f64_of_nat rank))"

fun fuse_list :: "nat \<Rightarrow> int set \<Rightarrow> nat \<Rightarrow> int list \<Rightarrow> (int \<times> real) list \<Rightarrow> (int \<times> real) list" where
  "fuse_list k seen rank [] es = es"
| "fuse_list k seen rank (i # is) es =
     (if i \<in> seen then fuse_list k seen rank is es
      else fuse_list k (insert i seen) (rank + 1) is (add_score i (rank_score k (rank + 1)) es))"

definition fuse_entries :: "int list list \<Rightarrow> nat \<Rightarrow> (int \<times> real) list" where
  "fuse_entries ls k = foldl (\<lambda>es l. fuse_list k {} 0 l es) [] ls"

definition fuse_sort :: "(int \<times> real) list \<Rightarrow> (int \<times> real) list" where
  "fuse_sort es = sort_key (\<lambda>(i, s). (- s, i)) es"

definition rrf_fuse :: "int list list \<Rightarrow> nat \<Rightarrow> (int \<times> real) list" where
  "rrf_fuse ls k = fuse_sort (fuse_entries ls k)"

record reference =
  fused :: "(int \<times> real) list"
  bm25_candidates :: nat
  in_both :: nat

definition reference :: "int list \<Rightarrow> int list \<Rightarrow> rrf_spec \<Rightarrow> rrf_error + reference" where
  "reference bm25 knn spec =
     (if length bm25 > window spec then Inl (Too_Many_Candidates (length bm25) (window spec))
      else if card (set bm25) \<noteq> length bm25 then Inl Duplicate_Candidate
      else let knn' = take (min (length knn) (window spec)) knn in
        Inr \<lparr>fused = rrf_fuse [bm25, knn'] (rank_constant spec), bm25_candidates = length bm25,
             in_both = length (filter (\<lambda>i. i \<in> set bm25) knn')\<rparr>)"

section \<open>The score of a page\<close>

record query_score =
  rrf_recall :: real
  strict_recall :: real
  rrf_precision :: real

definition cutoff_at :: "reference \<Rightarrow> nat \<Rightarrow> real" where
  "cutoff_at r expected = snd (fused r ! (expected - 1))"

definition tie_floor :: "real \<Rightarrow> real" where
  "tie_floor c = fsub c (fmul \<bar>c\<bar> REFERENCE_TIE_TOLERANCE)"

definition tie_ceil :: "real \<Rightarrow> real" where
  "tie_ceil c = fadd c (fmul \<bar>c\<bar> REFERENCE_TIE_TOLERANCE)"

definition above_score :: "reference \<Rightarrow> real \<Rightarrow> int \<Rightarrow> bool" where
  "above_score r c i = (case map_of (fused r) i of Some s \<Rightarrow> s > tie_ceil c | None \<Rightarrow> False)"

definition tied_score :: "reference \<Rightarrow> real \<Rightarrow> int \<Rightarrow> bool" where
  "tied_score r c i =
     (case map_of (fused r) i of Some s \<Rightarrow> \<not> s > tie_ceil c \<and> s \<ge> tie_floor c | None \<Rightarrow> False)"

definition tie_slots :: "reference \<Rightarrow> nat \<Rightarrow> nat" where
  "tie_slots r expected =
     expected - length (filter (\<lambda>(_, s). s > tie_ceil (cutoff_at r expected)) (fused r))"

definition rrf_hits :: "int list \<Rightarrow> reference \<Rightarrow> nat \<Rightarrow> nat" where
  "rrf_hits page r expected =
     (let c = cutoff_at r expected in
      length (filter (above_score r c) page) + min (length (filter (tied_score r c) page)) (tie_slots r expected))"

definition score_query :: "int list \<Rightarrow> reference \<Rightarrow> nat \<Rightarrow> query_score" where
  "score_query ids r topn =
     (let expected = min topn (length (fused r)); page = topk topn ids in
      if expected = 0 then
        let perfect = (if page = [] then 1 else 0) in
        \<lparr>rrf_recall = perfect, strict_recall = perfect, rrf_precision = perfect\<rparr>
      else let hit = rrf_hits page r expected;
               strict = set (map fst (take expected (fused r)));
               strict_hits = count_in strict page in
        \<lparr>rrf_recall = fdiv (f64_of_nat hit) (f64_of_nat expected),
         strict_recall = fdiv (f64_of_nat strict_hits) (f64_of_nat expected),
         rrf_precision = (if page = [] then 0 else fdiv (f64_of_nat hit) (f64_of_nat (length page)))\<rparr>)"

text \<open>\<open>f64::round\<close>: to the nearest integer, halves away from zero.\<close>

definition fround :: "real \<Rightarrow> real" where
  "fround x = (if x \<ge> 0 then of_int \<lfloor>x + 1 / 2\<rfloor> else - of_int \<lfloor>- x + 1 / 2\<rfloor>)"

definition close :: "real \<Rightarrow> real \<Rightarrow> bool" where
  "close a b \<longleftrightarrow> \<bar>fsub a b\<bar> \<le> fmul \<bar>b\<bar> TIE_TOLERANCE"

definition on_lattice :: "real \<Rightarrow> real \<Rightarrow> real \<Rightarrow> nat \<Rightarrow> bool" where
  "on_lattice score k w a =
     (let first = fdiv 1 (fadd k (f64_of_nat a)) in
      if close score first then True
      else let rest = fsub score first in
        if rest \<le> 0 then False
        else let b = fround (fsub (fdiv 1 rest) k) in
          1 \<le> b \<and> b \<le> w \<and> close score (fadd first (fdiv 1 (fadd k b))))"

fun check_rrf_score :: "f64v \<Rightarrow> rrf_spec \<Rightarrow> rrf_error + unit" where
  "check_rrf_score (Non_Finite _) spec = Inl Not_An_Rrf_Score"
| "check_rrf_score (Finite score) spec =
     (let k = of_nat (rank_constant spec); w = f64_of_nat (window spec);
          hi = fdiv 2 (fadd k 1); lo = fdiv 1 (fadd k w) in
      if score > fmul hi (fadd 1 TIE_TOLERANCE) \<or> score < fmul lo (fsub 1 TIE_TOLERANCE)
      then Inl Not_An_Rrf_Score
      else if list_ex (on_lattice score k w) [1..<Suc (window spec)] then Inr ()
      else Inl Not_An_Rrf_Score)"

fun check_page_from :: "f64v option \<Rightarrow> f64v list \<Rightarrow> rrf_spec \<Rightarrow> rrf_error + unit" where
  "check_page_from prev [] spec = Inr ()"
| "check_page_from prev (s # ss) spec =
     rbind (check_rrf_score s spec) (\<lambda>_.
     if (case (prev, s) of
           (Some (Finite p), Finite x) \<Rightarrow> x > fmul p (fadd 1 TIE_TOLERANCE)
         | _ \<Rightarrow> False)
     then Inl Page_Not_Ranked
     else check_page_from (Some s) ss spec)"

definition check_page_scores :: "f64v list \<Rightarrow> rrf_spec \<Rightarrow> rrf_error + unit" where
  "check_page_scores scores spec = check_page_from None scores spec"

definition score_page ::
  "(int \<times> f64v) list \<Rightarrow> reference \<Rightarrow> rrf_spec \<Rightarrow> nat \<Rightarrow> rrf_error + query_score" where
  "score_page page r spec topn =
     (if length page > topn then Inl (Page_Too_Long (length page) topn)
      else let ids = map fst page in
        if card (set ids) \<noteq> length ids then Inl Duplicate_In_Page
        else rbind (check_page_scores (map snd page) spec) (\<lambda>_. Inr (score_query ids r topn)))"

definition reference_top_ids :: "reference \<Rightarrow> nat \<Rightarrow> int list" where
  "reference_top_ids r topn = map fst (take topn (fused r))"

declare check_rrf_score.simps [simp del]

section \<open>What the fusion computes\<close>

definition pos :: "'a list \<Rightarrow> 'a \<Rightarrow> nat" where
  "pos xs x = length (takeWhile (\<lambda>y. y \<noteq> x) xs)"

text \<open>The contributions of the lists to one id: \<open>1 / (k + rank)\<close> per list it is in, in list order.\<close>

definition contributions :: "nat \<Rightarrow> int list list \<Rightarrow> int \<Rightarrow> real list" where
  "contributions k ls i =
     map (\<lambda>l. rank_score k (Suc (pos (dedup l) i))) (filter (\<lambda>l. i \<in> set l) ls)"

definition lookup0 :: "(int \<times> real) list \<Rightarrow> int \<Rightarrow> real" where
  "lookup0 es i = (case map_of es i of Some s \<Rightarrow> s | None \<Rightarrow> 0)"

lemma map_of_add_score:
  "map_of (add_score i x es) j = (if j = i then Some (fadd (lookup0 es i) x) else map_of es j)"
  by (induction i x es rule: add_score.induct) (auto simp: lookup0_def)

lemma keys_add_score: "fst ` set (add_score i x es) = insert i (fst ` set es)"
  by (induction i x es rule: add_score.induct) auto

lemma distinct_add_score: "distinct (map fst es) \<Longrightarrow> distinct (map fst (add_score i x es))"
  by (induction i x es rule: add_score.induct) (auto simp: keys_add_score)

lemma distinct_fuse_list: "distinct (map fst es) \<Longrightarrow> distinct (map fst (fuse_list k seen r is es))"
  by (induction k seen r "is" es rule: fuse_list.induct) (auto simp: distinct_add_score)

lemma map_of_fuse_list:
  "map_of (fuse_list k seen r is es) i =
     (if i \<in> set is - seen
      then Some (fadd (lookup0 es i) (rank_score k (r + Suc (pos (dedup_from seen is) i))))
      else map_of es i)"
proof (induction k seen r "is" es rule: fuse_list.induct)
  case (2 k seen r j "is" es)
  show ?case
  proof (cases "j \<in> seen")
    case True
    with 2(1) show ?thesis by auto
  next
    case False
    with 2(2)[OF False] show ?thesis
      by (auto simp: map_of_add_score lookup0_def pos_def)
  qed
qed simp

lemma lookup0_fuse_list:
  "lookup0 (fuse_list k {} 0 l es) i =
     foldl fadd (lookup0 es i) (contributions k [l] i)"
  by (auto simp: lookup0_def map_of_fuse_list contributions_def dedup_def)

lemma map_of_fuse_lists:
  "map_of (foldl (\<lambda>es l. fuse_list k {} 0 l es) es ls) i =
     (if i \<in> \<Union> (set ` set ls) then Some (foldl fadd (lookup0 es i) (contributions k ls i))
      else map_of es i)"
proof (induction ls arbitrary: es)
  case (Cons l ls)
  have split: "contributions k (l # ls) i = contributions k [l] i @ contributions k ls i"
    by (simp add: contributions_def)
  show ?case
  proof (cases "i \<in> \<Union> (set ` set ls)")
    case True
    then show ?thesis unfolding split by (simp add: Cons.IH lookup0_fuse_list)
  next
    case False
    then have "contributions k ls i = []" by (auto simp: contributions_def filter_empty_conv)
    with False show ?thesis unfolding split
      by (auto simp: Cons.IH map_of_fuse_list contributions_def dedup_def)
  qed
qed simp

lemma distinct_fuse_entries: "distinct (map fst (fuse_entries ls k))"
proof -
  have "distinct (map fst es) \<Longrightarrow> distinct (map fst (foldl (\<lambda>es l. fuse_list k {} 0 l es) es ls))" for es
    by (induction ls arbitrary: es) (auto simp: distinct_fuse_list)
  then show ?thesis by (simp add: fuse_entries_def)
qed

text \<open>Sorting: the key is injective, so only the multiset of entries matters.\<close>

abbreviation fuse_key :: "int \<times> real \<Rightarrow> real \<times> int" where
  "fuse_key \<equiv> \<lambda>(i, s). (- s, i)"

lemma inj_fuse_key: "inj fuse_key"
  by (auto simp: inj_def)

lemma map_key_sort: "map f (sort_key f xs) = sort (map f xs)"
  by (rule properties_for_sort[symmetric]) simp_all

lemma fuse_sort_mset: "mset es = mset es' \<Longrightarrow> fuse_sort es = fuse_sort es'"
proof -
  assume "mset es = mset es'"
  then have "sort (map fuse_key es) = sort (map fuse_key es')"
    by (intro properties_for_sort) simp_all
  then have "map fuse_key (fuse_sort es) = map fuse_key (fuse_sort es')"
    unfolding fuse_sort_def map_key_sort .
  then show ?thesis using inj_fuse_key by (simp add: inj_map_eq_map)
qed

lemma set_fuse_sort [simp]: "set (fuse_sort es) = set es"
  by (simp add: fuse_sort_def)

lemma distinct_fuse_sort: "distinct (map fst es) \<Longrightarrow> distinct (map fst (fuse_sort es))"
proof -
  assume d: "distinct (map fst es)"
  have "mset (map fst (fuse_sort es)) = mset (map fst es)" by (simp add: fuse_sort_def)
  with d show ?thesis by (metis distinct_count_atmost_1 set_mset_mset)
qed

lemma map_of_fuse_sort: "distinct (map fst es) \<Longrightarrow> map_of (fuse_sort es) = map_of es"
  by (rule ext) (metis distinct_fuse_sort map_of_eq_Some_iff not_Some_eq set_fuse_sort)

lemma fused_before_sorted:
  "distinct (map fst es) \<Longrightarrow>
   sorted_wrt (\<lambda>(i, s) (j, t). s > t \<or> s = t \<and> i < j) (fuse_sort es)"
proof -
  assume d: "distinct (map fst es)"
  have "sorted (map fuse_key (fuse_sort es))" by (simp add: fuse_sort_def)
  then have "sorted_wrt (\<lambda>x y. fuse_key x \<le> fuse_key y) (fuse_sort es)"
    by (simp add: sorted_map)
  moreover have "sorted_wrt (\<lambda>x y. fst x \<noteq> fst y) (fuse_sort es)"
    using distinct_fuse_sort[OF d] unfolding distinct_conv_nth sorted_wrt_iff_nth_less by simp
  ultimately show ?thesis
    unfolding sorted_wrt_iff_nth_less
    by (auto simp: less_eq_prod_def split: prod.splits) (metis fst_conv order_less_le)+
qed

section \<open>Well-formed references\<close>

definition wf_reference :: "reference \<Rightarrow> bool" where
  "wf_reference r \<longleftrightarrow> distinct (map fst (fused r)) \<and>
     sorted_wrt (\<lambda>x y. snd x \<ge> snd y) (fused r) \<and> (\<forall>(i, s) \<in> set (fused r). rnd64 s = s)"

lemma fadd_representable [simp]: "rnd64 (fadd a b) = fadd a b"
  by (simp add: fadd_def)

lemma foldl_fadd_representable: "rnd64 a = a \<Longrightarrow> rnd64 (foldl fadd a xs) = foldl fadd a xs"
  by (induction xs arbitrary: a) auto

lemma map_of_rrf_fuse:
  "map_of (rrf_fuse ls k) i =
     (if i \<in> \<Union> (set ` set ls) then Some (fsum (contributions k ls i)) else None)"
  unfolding rrf_fuse_def map_of_fuse_sort[OF distinct_fuse_entries]
  unfolding fuse_entries_def map_of_fuse_lists by (simp add: lookup0_def fsum_def)

lemma distinct_rrf_fuse: "distinct (map fst (rrf_fuse ls k))"
  by (simp add: rrf_fuse_def distinct_fuse_sort distinct_fuse_entries)

lemma sorted_rrf_fuse: "sorted_wrt (\<lambda>(i, s) (j, t). s > t \<or> s = t \<and> i < j) (rrf_fuse ls k)"
  unfolding rrf_fuse_def by (rule fused_before_sorted[OF distinct_fuse_entries])

lemma mem_rrf_fuse_iff:
  "(i, s) \<in> set (rrf_fuse ls k) \<longleftrightarrow> i \<in> \<Union> (set ` set ls) \<and> s = fsum (contributions k ls i)"
  using map_of_eq_Some_iff[OF distinct_rrf_fuse, of ls k i s]
  by (auto simp: map_of_rrf_fuse split: if_splits)

lemma ids_rrf_fuse: "fst ` set (rrf_fuse ls k) = \<Union> (set ` set ls)"
proof (intro set_eqI)
  fix i
  have "i \<in> fst ` set (rrf_fuse ls k) \<longleftrightarrow> (\<exists>s. (i, s) \<in> set (rrf_fuse ls k))" by force
  then show "i \<in> fst ` set (rrf_fuse ls k) \<longleftrightarrow> i \<in> \<Union> (set ` set ls)" by (simp add: mem_rrf_fuse_iff)
qed

lemma reference_wf:
  assumes "reference bm25 knn spec = Inr r"
  shows "wf_reference r"
proof -
  have fused: "fused r = rrf_fuse [bm25, take (min (length knn) (window spec)) knn] (rank_constant spec)"
    using assms by (auto simp: reference_def Let_def split: if_splits)
  have "sorted_wrt (\<lambda>x y. snd x \<ge> snd y) (fused r)"
    unfolding fused by (rule sorted_wrt_mono_rel[OF _ sorted_rrf_fuse]) auto
  moreover have "rnd64 s = s" if "(i, s) \<in> set (fused r)" for i s
    using that foldl_fadd_representable[of 0] unfolding fused by (auto simp: mem_rrf_fuse_iff fsum_def)
  ultimately show ?thesis using distinct_rrf_fuse by (auto simp: wf_reference_def fused)
qed

section \<open>Hits\<close>

lemma tie_bounds:
  assumes "rnd64 c = c"
  shows "tie_floor c \<le> c" "c \<le> tie_ceil c"
proof -
  have tol: "0 \<le> fmul \<bar>c\<bar> REFERENCE_TIE_TOLERANCE"
    by (simp add: fmul_def REFERENCE_TIE_TOLERANCE_def rnd64_nonneg)
  have "fsub c (fmul \<bar>c\<bar> REFERENCE_TIE_TOLERANCE) \<le> rnd64 c"
    unfolding fsub_def by (rule rnd64_mono) (use tol in simp)
  with assms show "tie_floor c \<le> c" by (simp add: tie_floor_def)
  have "rnd64 c \<le> fadd c (fmul \<bar>c\<bar> REFERENCE_TIE_TOLERANCE)"
    unfolding fadd_def by (rule rnd64_mono) (use tol in simp)
  with assms show "c \<le> tie_ceil c" by (simp add: tie_ceil_def)
qed

text \<open>
  One scored query: a well-formed reference and a cut-off position inside it.  The reference ids
  strictly above the cut-off score, those tied with it, and the id-tie-broken top of the reference.
\<close>

definition scored :: "reference \<Rightarrow> nat \<Rightarrow> bool" where
  "scored r e \<longleftrightarrow> wf_reference r \<and> 0 < e \<and> e \<le> length (fused r)"

definition ids_above :: "reference \<Rightarrow> nat \<Rightarrow> int set" where
  "ids_above r e = fst ` {x \<in> set (fused r). snd x > tie_ceil (cutoff_at r e)}"

definition ids_tied :: "reference \<Rightarrow> nat \<Rightarrow> int set" where
  "ids_tied r e = fst ` {x \<in> set (fused r). \<not> snd x > tie_ceil (cutoff_at r e) \<and>
     snd x \<ge> tie_floor (cutoff_at r e)}"

definition ids_top :: "reference \<Rightarrow> nat \<Rightarrow> int set" where
  "ids_top r e = set (map fst (take e (fused r)))"

lemma finite_id_sets [simp]: "finite (ids_above r e)" "finite (ids_tied r e)" "finite (ids_top r e)"
  by (simp_all add: ids_above_def ids_tied_def ids_top_def)

lemma scored_cutoff:
  assumes "scored r e"
  shows "tie_floor (cutoff_at r e) \<le> cutoff_at r e" "cutoff_at r e \<le> tie_ceil (cutoff_at r e)"
proof -
  have "fused r ! (e - 1) \<in> set (fused r)" using assms by (auto simp: scored_def)
  then have "rnd64 (cutoff_at r e) = cutoff_at r e"
    using assms by (auto simp: scored_def wf_reference_def cutoff_at_def)
  then show "tie_floor (cutoff_at r e) \<le> cutoff_at r e" "cutoff_at r e \<le> tie_ceil (cutoff_at r e)"
    by (simp_all add: tie_bounds)
qed

lemma score_classes:
  assumes "wf_reference r"
  shows "above_score r (cutoff_at r e) i \<longleftrightarrow> i \<in> ids_above r e" "tied_score r (cutoff_at r e) i \<longleftrightarrow> i \<in> ids_tied r e"
proof -
  have "map_of (fused r) i = Some s \<longleftrightarrow> (i, s) \<in> set (fused r)" for s
    using assms by (simp add: wf_reference_def)
  then show "above_score r (cutoff_at r e) i \<longleftrightarrow> i \<in> ids_above r e"
    "tied_score r (cutoff_at r e) i \<longleftrightarrow> i \<in> ids_tied r e"
    unfolding above_score_def tied_score_def ids_above_def ids_tied_def
    by (cases "map_of (fused r) i"; force simp del: map_of_eq_Some_iff)+
qed

lemma above_tied_disjoint:
  assumes "wf_reference r"
  shows "ids_above r e \<inter> ids_tied r e = {}"
  using score_classes[OF assms, of e, unfolded above_score_def tied_score_def]
  by (fastforce split: option.splits)

lemma card_strict:
  assumes "scored r e"
  shows "card (ids_top r e) = e"
  using assms unfolding scored_def wf_reference_def
  by (simp add: ids_top_def distinct_card take_map[symmetric] del: set_map)

lemma tie_slots_eq:
  assumes "scored r e"
  shows "tie_slots r e = e - card (ids_above r e)"
proof -
  let ?xs = "filter (\<lambda>(_, s). s > tie_ceil (cutoff_at r e)) (fused r)"
  have "distinct (map fst (fused r))" using assms by (simp add: scored_def wf_reference_def)
  then have "distinct (map fst ?xs)" using distinct_map_filter by blast
  moreover have "ids_above r e = set (map fst ?xs)" by (force simp: ids_above_def)
  ultimately show ?thesis using distinct_card[of "map fst ?xs"] by (simp add: tie_slots_def)
qed

lemma reference_descends:
  assumes "scored r e"
  shows "x \<in> set (take e (fused r)) \<Longrightarrow> cutoff_at r e \<le> snd x"
    and "x \<in> set (drop (e - 1) (fused r)) \<Longrightarrow> snd x \<le> cutoff_at r e"
proof -
  have desc: "snd (fused r ! j) \<le> snd (fused r ! i)" if "i \<le> j" "j < length (fused r)" for i j
    using assms that unfolding scored_def wf_reference_def sorted_wrt_iff_nth_less
    by (cases "i = j") auto
  show "cutoff_at r e \<le> snd x" if "x \<in> set (take e (fused r))"
  proof -
    obtain j where "j < e" "x = fused r ! j" using \<open>x \<in> set (take e (fused r))\<close> assms
      by (auto simp: in_set_conv_nth scored_def)
    with desc[of j "e - 1"] assms show ?thesis by (auto simp: cutoff_at_def scored_def)
  qed
  show "snd x \<le> cutoff_at r e" if "x \<in> set (drop (e - 1) (fused r))"
  proof -
    obtain j where "j < length (drop (e - 1) (fused r))" "x = drop (e - 1) (fused r) ! j"
      using \<open>x \<in> set (drop (e - 1) (fused r))\<close> unfolding in_set_conv_nth by blast
    then have "e - 1 + j < length (fused r)" "x = fused r ! (e - 1 + j)" by auto
    with desc[of "e - 1" "e - 1 + j"] show ?thesis by (simp add: cutoff_at_def)
  qed
qed

lemma above_before_cutoff:
  assumes "scored r e"
  shows "ids_above r e \<subseteq> set (map fst (take (e - 1) (fused r)))"
proof
  fix i assume "i \<in> ids_above r e"
  then obtain s where s: "(i, s) \<in> set (fused r)" "s > tie_ceil (cutoff_at r e)"
    by (auto simp: ids_above_def)
  have "(i, s) \<notin> set (drop (e - 1) (fused r))"
    using reference_descends(2)[OF assms, of "(i, s)"] scored_cutoff(2)[OF assms] s(2) by auto
  with s(1) have "(i, s) \<in> set (take (e - 1) (fused r))"
    by (metis Un_iff append_take_drop_id set_append)
  then show "i \<in> set (map fst (take (e - 1) (fused r)))" by force
qed

lemma above_strict:
  assumes "scored r e"
  shows "ids_above r e \<subseteq> ids_top r e" "card (ids_above r e) < e"
proof -
  show "ids_above r e \<subseteq> ids_top r e"
    using above_before_cutoff[OF assms] set_take_subset_set_take[of "e - 1" e "fused r"]
    by (fastforce simp: ids_top_def)
  have "card (ids_above r e) \<le> length (take (e - 1) (fused r))"
    by (metis above_before_cutoff[OF assms] card_length card_mono finite_set le_trans length_map)
  with assms show "card (ids_above r e) < e" by (simp add: scored_def min_def split: if_splits)
qed

lemma strict_covered:
  assumes "scored r e"
  shows "ids_top r e \<subseteq> ids_above r e \<union> ids_tied r e"
proof
  fix i assume "i \<in> ids_top r e"
  then obtain s where s: "(i, s) \<in> set (take e (fused r))" by (auto simp: ids_top_def)
  with reference_descends(1)[OF assms s] scored_cutoff(1)[OF assms]
  have "s \<ge> tie_floor (cutoff_at r e)" "(i, s) \<in> set (fused r)" by (auto dest: in_set_takeD)
  then show "i \<in> ids_above r e \<union> ids_tied r e" unfolding ids_above_def ids_tied_def by force
qed

lemma rrf_hits_eq:
  assumes "scored r e" "distinct page"
  shows "rrf_hits page r e =
    card (set page \<inter> ids_above r e) + min (card (set page \<inter> ids_tied r e)) (e - card (ids_above r e))"
proof -
  have "wf_reference r" using assms(1) by (simp add: scored_def)
  then have "Collect (above_score r (cutoff_at r e)) = ids_above r e"
    "Collect (tied_score r (cutoff_at r e)) = ids_tied r e"
    by (auto simp: score_classes)
  with assms(2) tie_slots_eq[OF assms(1)] show ?thesis
    by (simp add: rrf_hits_def Let_def distinct_length_filter Int_commute)
qed

lemma rrf_hits_le:
  assumes "scored r e" "distinct page"
  shows "rrf_hits page r e \<le> e" "rrf_hits page r e \<le> length page"
proof -
  have "card (set page \<inter> ids_above r e) \<le> card (ids_above r e)" by (rule card_mono) auto
  with above_strict(2)[OF assms(1)] rrf_hits_eq[OF assms] show "rrf_hits page r e \<le> e" by linarith
  have "card (set page \<inter> ids_above r e) + card (set page \<inter> ids_tied r e) =
      card (set page \<inter> (ids_above r e \<union> ids_tied r e))"
    using above_tied_disjoint[of r e] assms(1)
    by (subst card_Un_disjoint[symmetric]) (auto simp: scored_def Int_Un_distrib)
  also have "\<dots> \<le> length page" by (meson Int_lower1 card_length card_mono finite_set le_trans)
  finally show "rrf_hits page r e \<le> length page" using rrf_hits_eq[OF assms] by linarith
qed

lemma strict_hits_le:
  assumes "scored r e" "distinct page"
  shows "count_in (ids_top r e) page \<le> rrf_hits page r e"
proof -
  let ?A = "ids_above r e" and ?T = "ids_tied r e" and ?S = "ids_top r e" and ?P = "set page"
  have split: "?P \<inter> ?S = (?P \<inter> ?A) \<union> (?P \<inter> (?S - ?A))" "?S - ?A \<subseteq> ?T"
    using above_strict(1)[OF assms(1)] strict_covered[OF assms(1)] by auto
  then have "card (?P \<inter> ?S) = card (?P \<inter> ?A) + card (?P \<inter> (?S - ?A))"
    by (subst split(1), subst card_Un_disjoint) auto
  moreover have "card (?P \<inter> (?S - ?A)) \<le> card (?P \<inter> ?T)"
    using split(2) by (intro card_mono) auto
  moreover have "card (?P \<inter> (?S - ?A)) \<le> card (?S - ?A)" by (rule card_mono) auto
  moreover have "card (?S - ?A) = e - card ?A"
    using above_strict(1)[OF assms(1)] card_strict[OF assms(1)] by (simp add: card_Diff_subset)
  ultimately show ?thesis using assms(2) rrf_hits_eq[OF assms] by (simp add: count_in_distinct)
qed

lemma rrf_hits_full_iff:
  assumes "scored r e" "distinct page"
  shows "rrf_hits page r e = e \<longleftrightarrow>
    ids_above r e \<subseteq> set page \<and> e - card (ids_above r e) \<le> card (set page \<inter> ids_tied r e)"
proof -
  have le: "card (set page \<inter> ids_above r e) \<le> card (ids_above r e)" by (rule card_mono) auto
  have "card (set page \<inter> ids_above r e) = card (ids_above r e) \<longleftrightarrow> ids_above r e \<subseteq> set page"
    by (metis Int_lower2 card_subset_eq finite_id_sets(1) inf.absorb_iff2)
  with le above_strict(2)[OF assms(1)] show ?thesis unfolding rrf_hits_eq[OF assms] by linarith
qed

section \<open>Scores on the lattice\<close>

text \<open>The numbers involved: \<open>k\<close> and ranks up to 10000, so sums of two are exact and reciprocals normal.\<close>

definition recip :: "nat \<Rightarrow> real" where
  "recip m = rnd64 (1 / of_nat m)"

lemma sum_exact: "m \<le> 2 ^ 53 \<Longrightarrow> rnd64 (real m) = real m"
  by (rule rnd64_of_nat)

lemma rank_score_recip:
  assumes "k \<le> 10000" "a \<le> 10000"
  shows "rank_score k a = recip (k + a)" "fdiv 1 (fadd (real k) (real a)) = recip (k + a)"
proof -
  have "rnd64 (real k + real a) = real (k + a)" using sum_exact[of "k + a"] assms by simp
  then show "fdiv 1 (fadd (real k) (real a)) = recip (k + a)"
    by (simp add: fdiv_def fadd_def recip_def)
  then show "rank_score k a = recip (k + a)"
    using assms by (simp add: rank_score_def f64_of_nat_exact)
qed

lemma recip_bounds:
  assumes "2 \<le> m" "m \<le> 20000"
  shows "\<bar>recip m - 1 / real m\<bar> \<le> 1 / 1000000000000000" "1 / 20001 \<le> recip m" "recip m \<le> 51 / 100"
proof -
  have m: "1 / 20000 \<le> 1 / real m" "1 / real m \<le> 1 / 2" using assms by (simp_all add: field_simps)
  then have "\<bar>recip m - 1 / real m\<bar> \<le> 1 / real m / 1000000000000000"
    unfolding recip_def by (intro rnd64_error) simp
  also have "\<dots> \<le> 1 / 1000000000000000" using m by simp
  finally show err: "\<bar>recip m - 1 / real m\<bar> \<le> 1 / 1000000000000000" .
  from err m show "1 / 20001 \<le> recip m" "recip m \<le> 51 / 100" by linarith+
qed

lemma recip_representable [simp]: "rnd64 (recip m) = recip m"
  by (simp add: recip_def)

lemma recip_antimono: "0 < m \<Longrightarrow> m \<le> n \<Longrightarrow> recip n \<le> recip m"
  unfolding recip_def by (intro rnd64_mono) (simp add: field_simps)

text \<open>The second rank read back from the sum of two reciprocals.\<close>

lemma pair_sum_bounds:
  assumes "2 \<le> m" "m \<le> 20000" "2 \<le> n" "n \<le> 20000"
  defines "s \<equiv> fadd (recip m) (recip n)"
  shows "\<bar>s - (recip m + recip n)\<bar> \<le> 2 / 1000000000000000"
proof -
  let ?z = "recip m + recip n"
  note b = recip_bounds[OF assms(1,2)] recip_bounds[OF assms(3,4)]
  have "\<bar>rnd64 ?z - ?z\<bar> \<le> ?z / 1000000000000000" using b by (intro rnd64_error) linarith
  also have "\<dots> \<le> 2 / 1000000000000000" using b by simp
  finally show ?thesis by (simp add: s_def fadd_def)
qed

lemma rest_bounds:
  assumes "2 \<le> m" "m \<le> 20000" "2 \<le> n" "n \<le> 20000"
  defines "rest \<equiv> fsub (fadd (recip m) (recip n)) (recip m)"
  shows "\<bar>rest - 1 / real n\<bar> \<le> 4 / 1000000000000000" "1 / 20002 \<le> rest"
proof -
  let ?d = "fadd (recip m) (recip n) - recip m"
  note b = recip_bounds[OF assms(1,2)] recip_bounds[OF assms(3,4)]
  note s = pair_sum_bounds[OF assms(1-4)]
  have d: "\<bar>?d - recip n\<bar> \<le> 2 / 1000000000000000" using s by linarith
  then have d2: "1 / 1000000 \<le> ?d" "?d \<le> 1" using b by linarith+
  then have "\<bar>rest - ?d\<bar> \<le> ?d / 1000000000000000" unfolding rest_def fsub_def by (intro rnd64_error)
  also have "\<dots> \<le> 1 / 1000000000000000" using d2 by simp
  finally show r: "\<bar>rest - 1 / real n\<bar> \<le> 4 / 1000000000000000" using d b(4) by linarith
  have "1 / 20000 \<le> 1 / real n" using assms by (simp add: field_simps)
  with r show "1 / 20002 \<le> rest" by linarith
qed

lemma inverse_close:
  fixes x m :: real
  assumes "2 \<le> m" "m \<le> 20000" "\<bar>x - 1 / m\<bar> \<le> 4 / 1000000000000000"
  shows "\<bar>1 / x - m\<bar> \<le> 1 / 100000"
proof -
  have im: "1 / 20000 \<le> 1 / m" using assms by (simp add: field_simps)
  with assms(3) have x: "1 / 20002 \<le> x" by linarith
  have pos: "0 < x" using x by linarith
  have "1 / x - m = m * (1 / m - x) / x" using pos assms(1) by (simp add: field_simps)
  then have "\<bar>1 / x - m\<bar> = m * \<bar>1 / m - x\<bar> / x"
    using pos assms(1) by (simp add: abs_mult)
  also have "\<dots> \<le> 20000 * (4 / 1000000000000000) / (1 / 20002)"
    using x assms by (intro frac_le mult_mono) (simp_all add: abs_minus_commute)
  also have "\<dots> \<le> 1 / 100000" by simp
  finally show ?thesis .
qed

lemma fround_near:
  assumes "\<bar>x - real b\<bar> < 1 / 2" "0 \<le> x"
  shows "fround x = real b"
proof -
  have "\<lfloor>x + 1 / 2\<rfloor> = int b" using assms(1) by linarith
  with assms(2) show ?thesis by (simp add: fround_def)
qed

lemma second_rank:
  assumes "1 \<le> k" "k \<le> 10000" "1 \<le> a" "a \<le> 10000" "1 \<le> b" "b \<le> 10000"
  defines "rest \<equiv> fsub (fadd (recip (k + a)) (recip (k + b))) (recip (k + a))"
  shows "fround (fsub (fdiv 1 rest) (real k)) = real b"
proof -
  have kb: "2 \<le> k + b" "k + b \<le> 20000" "2 \<le> k + a" "k + a \<le> 20000" using assms by simp_all
  note r = rest_bounds[OF kb(3,4,1,2), folded rest_def]
  have inv: "\<bar>1 / rest - real (k + b)\<bar> \<le> 1 / 100000"
    by (rule inverse_close) (use kb r(1) in simp_all)
  then have i2: "1 \<le> 1 / rest" "1 / rest \<le> 20001" using kb by linarith+
  then have "\<bar>fdiv 1 rest - 1 / rest\<bar> \<le> 1 / rest / 1000000000000000"
    unfolding fdiv_def by (intro rnd64_error) linarith
  also have "\<dots> \<le> 1 / 100000" using i2 by simp
  finally have q: "\<bar>(fdiv 1 rest - real k) - real b\<bar> \<le> 2 / 100000" using inv unfolding of_nat_add by linarith
  then have q2: "1 / 2 \<le> fdiv 1 rest - real k" "fdiv 1 rest - real k \<le> 10001" using assms by linarith+
  then have "\<bar>fsub (fdiv 1 rest) (real k) - (fdiv 1 rest - real k)\<bar> \<le> (fdiv 1 rest - real k) / 1000000000000000"
    unfolding fsub_def by (intro rnd64_error) linarith
  also have "\<dots> \<le> 1 / 100000" using q2 by simp
  finally show ?thesis using q assms(5) by (intro fround_near) linarith+
qed

section \<open>A faithful server is never refused\<close>

text \<open>The scores a reference holds: one reciprocal, or the rounded sum of two.\<close>

definition lattice_score :: "rrf_spec \<Rightarrow> real \<Rightarrow> bool" where
  "lattice_score spec s \<longleftrightarrow>
     (\<exists>a. 1 \<le> a \<and> a \<le> window spec \<and> (s = recip (rank_constant spec + a) \<or>
        (\<exists>b. 1 \<le> b \<and> b \<le> window spec \<and>
           s = fadd (recip (rank_constant spec + a)) (recip (rank_constant spec + b)))))"

definition valid_spec :: "rrf_spec \<Rightarrow> bool" where
  "valid_spec spec \<longleftrightarrow> 1 \<le> window spec \<and> window spec \<le> MAX_WINDOW \<and>
     MIN_RANK_CONSTANT \<le> rank_constant spec \<and> rank_constant spec \<le> MAX_RANK_CONSTANT"

lemma parse_rrf_spec_valid: "parse_rrf_spec fv b = Inr spec \<Longrightarrow> valid_spec spec"
  by (auto simp: parse_rrf_spec_def valid_spec_def split: if_splits)

lemma tolerance_bounds: "1 / 200000 \<le> TIE_TOLERANCE" "TIE_TOLERANCE \<le> 1 / 50000"
proof -
  have tol: "TIE_TOLERANCE = rnd64 (1 / 100000)" by (simp add: TIE_TOLERANCE_def)
  have "\<bar>rnd64 (1 / 100000) - 1 / 100000\<bar> \<le> 1 / 100000 / 1000000000000000"
    by (rule rnd64_error) simp
  then show "1 / 200000 \<le> TIE_TOLERANCE" "TIE_TOLERANCE \<le> 1 / 50000"
    unfolding tol by linarith+
qed

lemma close_refl: "close s s"
  using tolerance_bounds(1) by (simp add: close_def fsub_def fmul_def rnd64_nonneg)

lemma lattice_score_found:
  assumes "valid_spec spec" "lattice_score spec s"
  shows "list_ex (on_lattice s (real (rank_constant spec)) (f64_of_nat (window spec)))
    [1..<Suc (window spec)]"
proof -
  let ?k = "rank_constant spec" and ?w = "window spec"
  have lim: "1 \<le> ?k" "?k \<le> 10000" "?w \<le> 10000"
    using assms(1) by (auto simp: valid_spec_def MIN_RANK_CONSTANT_def MAX_RANK_CONSTANT_def MAX_WINDOW_def)
  obtain a where a: "1 \<le> a" "a \<le> ?w"
    and s: "s = recip (?k + a) \<or> (\<exists>b. 1 \<le> b \<and> b \<le> ?w \<and> s = fadd (recip (?k + a)) (recip (?k + b)))"
    using assms(2) unfolding lattice_score_def by blast
  have first: "fdiv 1 (fadd (real ?k) (f64_of_nat a)) = recip (?k + a)"
    using rank_score_recip(1)[of ?k a] a lim by (simp add: rank_score_def)
  have "on_lattice s (real ?k) (f64_of_nat ?w) a"
  proof (cases "close s (recip (?k + a))")
    case True
    then show ?thesis by (simp add: on_lattice_def first)
  next
    case False
    with s close_refl obtain b where b: "1 \<le> b" "b \<le> ?w" "s = fadd (recip (?k + a)) (recip (?k + b))"
      by metis
    have "fround (fsub (fdiv 1 (fsub s (recip (?k + a)))) (real ?k)) = real b"
      unfolding b(3) using a b lim by (intro second_rank) simp_all
    moreover have "0 < fsub s (recip (?k + a))"
      using rest_bounds(2)[of "?k + a" "?k + b"] a b lim by simp
    moreover have "fdiv 1 (fadd (real ?k) (real b)) = recip (?k + b)"
      using b lim by (intro rank_score_recip) simp_all
    ultimately show ?thesis
      using b lim close_refl by (simp add: on_lattice_def first f64_of_nat_exact)
  qed
  with a show ?thesis unfolding list_ex_iff by (intro bexI[of _ a]) auto
qed

lemma range_top:
  assumes "1 \<le> k" "k \<le> 10000"
  shows "2 / real (k + 1) + 4 / 1000000000000000 \<le>
    fmul (fdiv 2 (fadd (real k) 1)) (fadd 1 TIE_TOLERANCE)"
proof -
  define H where "H = 2 / real (k + 1)"
  have H: "2 / 10001 \<le> H" "H \<le> 1" using assms by (simp_all add: H_def field_simps)
  have "fadd (real k) 1 = real (k + 1)" using sum_exact[of "k + 1"] assms by (simp add: fadd_def add.commute)
  then have hi: "fdiv 2 (fadd (real k) 1) = rnd64 H" by (simp add: fdiv_def H_def)
  have "\<bar>rnd64 H - H\<bar> \<le> H / 1000000000000000" using H by (intro rnd64_error) linarith
  moreover have "H * (1 - 1 / 1000000000000000) = H - H / 1000000000000000" by (simp add: field_simps)
  ultimately have h: "H * (1 - 1 / 1000000000000000) \<le> rnd64 H" by linarith
  have "\<bar>rnd64 (1 + TIE_TOLERANCE) - (1 + TIE_TOLERANCE)\<bar> \<le> (1 + TIE_TOLERANCE) / 1000000000000000"
    using tolerance_bounds by (intro rnd64_error) linarith
  also have "\<dots> \<le> 2 / 1000000000000000" using tolerance_bounds by simp
  finally have f: "1 + 1 / 300000 \<le> fadd 1 TIE_TOLERANCE"
    using tolerance_bounds unfolding fadd_def by linarith
  have "H * (1 - 1 / 1000000000000000) * (1 + 1 / 300000) \<le> rnd64 H * fadd 1 TIE_TOLERANCE"
    using h f H by (intro mult_mono) (simp_all add: rnd64_nonneg)
  moreover have "H * (1 + 1 / 400000) \<le> H * (1 - 1 / 1000000000000000) * (1 + 1 / 300000)"
    using H unfolding mult.assoc by (intro mult_left_mono) simp_all
  ultimately have p: "H * (1 + 1 / 400000) \<le> rnd64 H * fadd 1 TIE_TOLERANCE" by linarith
  let ?p = "rnd64 H * fadd 1 TIE_TOLERANCE"
  have big: "1 / 1000000 \<le> H * (1 + 1 / 400000)" using H by (simp add: field_simps)
  have "rnd64 (H * (1 + 1 / 400000)) \<le> rnd64 ?p" using p by (rule rnd64_mono)
  moreover have "\<bar>rnd64 (H * (1 + 1 / 400000)) - H * (1 + 1 / 400000)\<bar> \<le> H * (1 + 1 / 400000) / 1000000000000000"
    using big by (rule rnd64_error)
  moreover have "H + 4 / 1000000000000000 \<le> H * (1 + 1 / 400000) - H * (1 + 1 / 400000) / 1000000000000000"
    using H by (simp add: algebra_simps)
  ultimately show ?thesis unfolding hi fmul_def H_def[symmetric] by linarith
qed

lemma lattice_score_range:
  assumes "valid_spec spec" "lattice_score spec s"
  shows "recip (rank_constant spec + window spec) \<le> s"
    and "s \<le> 2 / real (rank_constant spec + 1) + 4 / 1000000000000000"
proof -
  let ?k = "rank_constant spec" and ?w = "window spec"
  have lim: "1 \<le> ?k" "?k \<le> 10000" "?w \<le> 10000"
    using assms(1) by (auto simp: valid_spec_def MIN_RANK_CONSTANT_def MAX_RANK_CONSTANT_def MAX_WINDOW_def)
  obtain a where a: "1 \<le> a" "a \<le> ?w"
    and s: "s = recip (?k + a) \<or> (\<exists>b. 1 \<le> b \<and> b \<le> ?w \<and> s = fadd (recip (?k + a)) (recip (?k + b)))"
    using assms(2) unfolding lattice_score_def by blast
  have up: "recip (?k + c) \<le> 1 / real (?k + 1) + 1 / 1000000000000000" "0 \<le> recip (?k + c)"
    if "1 \<le> c" "c \<le> ?w" for c
  proof -
    have "\<bar>recip (?k + c) - 1 / real (?k + c)\<bar> \<le> 1 / 1000000000000000"
      using that lim by (intro recip_bounds) simp_all
    moreover have "1 / real (?k + c) \<le> 1 / real (?k + 1)" using that by (simp add: field_simps)
    ultimately show "recip (?k + c) \<le> 1 / real (?k + 1) + 1 / 1000000000000000" by linarith
    show "0 \<le> recip (?k + c)" by (simp add: recip_def rnd64_nonneg)
  qed
  have two: "2 / real (?k + 1) = 1 / real (?k + 1) + 1 / real (?k + 1)" "0 \<le> 1 / real (?k + 1)" by simp_all
  have lo: "recip (?k + ?w) \<le> recip (?k + a)" using a by (intro recip_antimono) simp_all
  from s show "recip (?k + ?w) \<le> s"
  proof
    assume "\<exists>b. 1 \<le> b \<and> b \<le> ?w \<and> s = fadd (recip (?k + a)) (recip (?k + b))"
    then obtain b where b: "1 \<le> b" "b \<le> ?w" "s = fadd (recip (?k + a)) (recip (?k + b))" by blast
    have "rnd64 (recip (?k + a)) \<le> s" unfolding b(3) fadd_def
      using up(2)[OF b(1,2)] by (intro rnd64_mono) simp
    with lo show ?thesis by simp
  qed (use lo in simp)
  from s show "s \<le> 2 / real (?k + 1) + 4 / 1000000000000000"
  proof
    assume "\<exists>b. 1 \<le> b \<and> b \<le> ?w \<and> s = fadd (recip (?k + a)) (recip (?k + b))"
    then obtain b where b: "1 \<le> b" "b \<le> ?w" "s = fadd (recip (?k + a)) (recip (?k + b))" by blast
    have "\<bar>s - (recip (?k + a) + recip (?k + b))\<bar> \<le> 2 / 1000000000000000"
      unfolding b(3) using a b lim by (intro pair_sum_bounds) simp_all
    with up(1)[OF a] up(1)[OF b(1,2)] two show ?thesis by linarith
  qed (use up(1)[OF a] two in linarith)
qed

lemma lattice_score_accepted:
  assumes "valid_spec spec" "lattice_score spec s"
  shows "check_rrf_score (Finite s) spec = Inr ()"
proof -
  let ?k = "rank_constant spec" and ?w = "window spec"
  have lim: "1 \<le> ?k" "?k \<le> 10000" "?w \<le> 10000"
    using assms(1) by (auto simp: valid_spec_def MIN_RANK_CONSTANT_def MAX_RANK_CONSTANT_def MAX_WINDOW_def)
  have lo: "fdiv 1 (fadd (real ?k) (f64_of_nat ?w)) = recip (?k + ?w)"
    using rank_score_recip(1)[of ?k ?w] lim by (simp add: rank_score_def)
  have "fsub 1 TIE_TOLERANCE \<le> rnd64 1"
    unfolding fsub_def using tolerance_bounds by (intro rnd64_mono) linarith
  then have "fmul (recip (?k + ?w)) (fsub 1 TIE_TOLERANCE) \<le> rnd64 (recip (?k + ?w))"
    unfolding fmul_def by (intro rnd64_mono) (simp add: mult_left_le recip_def rnd64_nonneg)
  then show ?thesis
    using lattice_score_range[OF assms] range_top[OF lim(1,2)] lattice_score_found[OF assms]
    by (simp add: check_rrf_score.simps Let_def lo)
qed

lemma pos_less: "x \<in> set xs \<Longrightarrow> pos xs x < length xs"
  unfolding pos_def by (induction xs) auto

lemma rank_in_list:
  assumes "i \<in> set l" "length l \<le> w"
  shows "Suc (pos (dedup l) i) \<le> w"
  using pos_less[of i "dedup l"] assms length_dedup[of l] card_length[of l] by simp

lemma contribution_score:
  assumes "valid_spec spec" "length b \<le> window spec" "length c \<le> window spec" "i \<in> set b \<union> set c"
  shows "lattice_score spec (fsum (contributions (rank_constant spec) [b, c] i))"
proof -
  let ?k = "rank_constant spec" and ?w = "window spec"
  have lim: "?k \<le> 10000" "?w \<le> 10000"
    using assms(1) by (auto simp: valid_spec_def MAX_RANK_CONSTANT_def MAX_WINDOW_def)
  have rs: "rank_score ?k a = recip (?k + a)" if "a \<le> ?w" for a
    using that lim by (intro rank_score_recip) simp_all
  have ranks: "i \<in> set b \<Longrightarrow> Suc (pos (dedup b) i) \<le> ?w" "i \<in> set c \<Longrightarrow> Suc (pos (dedup c) i) \<le> ?w"
    using rank_in_list[OF _ assms(2)] rank_in_list[OF _ assms(3)] by simp_all
  have zero: "fadd 0 (recip m) = recip m" for m by (simp add: fadd_def)
  consider (both) "i \<in> set b" "i \<in> set c" | (first) "i \<in> set b" "i \<notin> set c" | (second) "i \<notin> set b" "i \<in> set c"
    using assms(4) by blast
  then show ?thesis
  proof cases
    case both
    then have "fsum (contributions ?k [b, c] i) =
        fadd (recip (?k + Suc (pos (dedup b) i))) (recip (?k + Suc (pos (dedup c) i)))"
      using ranks rs by (simp add: contributions_def fsum_def zero)
    with both ranks show ?thesis unfolding lattice_score_def by (metis le_add1 plus_1_eq_Suc)
  next
    case first
    then have "fsum (contributions ?k [b, c] i) = recip (?k + Suc (pos (dedup b) i))"
      using ranks rs by (simp add: contributions_def fsum_def zero)
    with first ranks show ?thesis unfolding lattice_score_def by (metis le_add1 plus_1_eq_Suc)
  next
    case second
    then have "fsum (contributions ?k [b, c] i) = recip (?k + Suc (pos (dedup c) i))"
      using ranks rs by (simp add: contributions_def fsum_def zero)
    with second ranks show ?thesis unfolding lattice_score_def by (metis le_add1 plus_1_eq_Suc)
  qed
qed

lemma reference_scores_lattice:
  assumes "valid_spec spec" "reference bm25 knn spec = Inr r" "(i, s) \<in> set (fused r)"
  shows "lattice_score spec s"
proof -
  let ?knn = "take (min (length knn) (window spec)) knn"
  have "fused r = rrf_fuse [bm25, ?knn] (rank_constant spec)" "length bm25 \<le> window spec"
    using assms(2) by (auto simp: reference_def Let_def split: if_splits)
  with assms(1,3) contribution_score[of spec bm25 ?knn i] show ?thesis
    by (auto simp: mem_rrf_fuse_iff)
qed

lemma check_page_descending:
  assumes "\<forall>x \<in> set xs. check_rrf_score (Finite x) spec = Inr () \<and> 0 \<le> x \<and> rnd64 x = x"
    and "sorted_wrt (\<ge>) xs" and "\<forall>p. prev = Some p \<longrightarrow> (\<exists>y. p = Finite y \<and> 0 \<le> y \<and> rnd64 y = y \<and> (\<forall>x \<in> set xs. x \<le> y))"
  shows "check_page_from prev (map Finite xs) spec = Inr ()"
  using assms
proof (induction xs arbitrary: prev)
  case (Cons x xs)
  have "\<not> x > fmul y (fadd 1 TIE_TOLERANCE)" if "prev = Some (Finite y)" for y
  proof -
    have y: "0 \<le> y" "rnd64 y = y" "x \<le> y" using Cons.prems(3) that by auto
    have "rnd64 1 \<le> fadd 1 TIE_TOLERANCE"
      unfolding fadd_def using tolerance_bounds by (intro rnd64_mono) linarith
    then have "rnd64 y \<le> fmul y (fadd 1 TIE_TOLERANCE)"
      unfolding fmul_def using y(1) by (intro rnd64_mono) (simp add: mult_le_cancel_left1)
    with y show ?thesis by simp
  qed
  moreover have "check_page_from (Some (Finite x)) (map Finite xs) spec = Inr ()"
    using Cons.prems by (intro Cons.IH) auto
  ultimately show ?case using Cons.prems(1)
    by (auto split: option.splits f64v.splits)
qed simp

lemma reference_page_accepted:
  assumes "valid_spec spec" "reference bm25 knn spec = Inr r"
  shows "check_page_scores (map (Finite \<circ> snd) (take n (fused r))) spec = Inr ()"
proof -
  have wf: "wf_reference r" by (rule reference_wf[OF assms(2)])
  have "check_rrf_score (Finite s) spec = Inr () \<and> 0 \<le> s \<and> rnd64 s = s"
    if "(i, s) \<in> set (take n (fused r))" for i s
  proof -
    have m: "(i, s) \<in> set (fused r)" using that by (rule in_set_takeD)
    note l = reference_scores_lattice[OF assms this]
    have "0 \<le> recip (rank_constant spec + window spec)" by (simp add: recip_def rnd64_nonneg)
    with lattice_score_range(1)[OF assms(1) l] lattice_score_accepted[OF assms(1) l] wf m
    show ?thesis by (auto simp: wf_reference_def)
  qed
  moreover have "sorted_wrt (\<ge>) (map snd (take n (fused r)))"
    using wf sorted_wrt_take[of "\<lambda>x y. snd x \<ge> snd y" "fused r" n]
    by (simp add: wf_reference_def sorted_wrt_map)
  ultimately have "check_page_from None (map Finite (map snd (take n (fused r)))) spec = Inr ()"
    by (intro check_page_descending) auto
  then show ?thesis by (simp add: check_page_scores_def)
qed

lemma reference_page_perfect:
  assumes "wf_reference r"
  shows "score_query (map fst (take n (fused r))) r n =
    \<lparr>rrf_recall = 1, strict_recall = 1, rrf_precision = 1\<rparr>"
proof -
  let ?e = "min n (length (fused r))" and ?page = "map fst (take n (fused r))"
  have d: "distinct ?page" using assms by (simp add: wf_reference_def take_map[symmetric])
  then have page: "topk n ?page = ?page" by (intro topk_id) auto
  show ?thesis
  proof (cases "?e = 0")
    case True
    then have "?page = []" by (auto simp: min_def split: if_splits)
    with True page show ?thesis unfolding score_query_def Let_def by (simp only: if_True refl)
  next
    case False
    then have sc: "scored r ?e" using assms by (simp add: scored_def)
    have len: "length ?page = ?e" by simp
    have "take ?e (fused r) = take n (fused r)" by (auto simp: min_def)
    then have top: "set (map fst (take ?e (fused r))) = set ?page" by simp
    then have strict: "count_in (set (map fst (take ?e (fused r)))) ?page = ?e"
      by (simp only: top count_in_all[OF order_refl] len)
    have "?e \<le> rrf_hits ?page r ?e" using strict_hits_le[OF sc d] unfolding ids_top_def strict .
    with rrf_hits_le(1)[OF sc d] have "rrf_hits ?page r ?e = ?e" by (rule le_antisym)
    moreover have "?page \<noteq> []" "0 < ?e" using False by auto
    ultimately show ?thesis unfolding score_query_def page Let_def strict len
      using fdiv_counts_eq_1[of ?e] by simp
  qed
qed

section \<open>Properties\<close>

text \<open>
  C14: the fusion is deterministic and is reciprocal rank fusion.  Whatever order the hash map yields
  its entries in, the fused list is the same; it holds each id of the input lists once, in descending
  score order with ties by ascending id; and the score of an id is the sum of \<open>1 / (k + rank)\<close> over the
  lists it is in, at its first rank in each, added in list order.
\<close>

theorem rrf_fuse_correct:
  assumes "mset es = mset (fuse_entries ls k)"
  shows "fuse_sort es = rrf_fuse ls k \<and> distinct (map fst (rrf_fuse ls k)) \<and>
    sorted_wrt (\<lambda>(i, s) (j, t). s > t \<or> s = t \<and> i < j) (rrf_fuse ls k) \<and>
    (\<forall>i. map_of (rrf_fuse ls k) i =
       (if i \<in> \<Union> (set ` set ls) then Some (fsum (contributions k ls i)) else None))"
  using fuse_sort_mset[OF assms] distinct_rrf_fuse sorted_rrf_fuse map_of_rrf_fuse
  by (auto simp: rrf_fuse_def)

theorem rrf_fuse_correct_witness:
  "fuse_sort (rev (fuse_entries [[4, 7], [7]] 60)) = rrf_fuse [[4, 7], [7]] 60 \<and>
   map_of (rrf_fuse [[4, 7], [7]] 60) 7 = Some (fsum [rank_score 60 2, rank_score 60 1])"
  using rrf_fuse_correct[of "rev (fuse_entries [[4, 7], [7]] 60)" "[[4, 7], [7]]" 60]
  by (simp add: contributions_def pos_def dedup_def numeral_2_eq_2)

text \<open>
  A page's scores are fractions, and tie-awareness only ever helps: for every reference the module
  builds and every returned page, \<open>0 \<le> strict_recall \<le> recall \<le> 1\<close> and \<open>0 \<le> precision \<le> 1\<close>, after rounding.
\<close>

theorem query_score_bounds:
  assumes "reference bm25 knn spec = Inr r"
  shows "0 \<le> strict_recall (score_query ids r n) \<and>
    strict_recall (score_query ids r n) \<le> rrf_recall (score_query ids r n) \<and>
    rrf_recall (score_query ids r n) \<le> 1 \<and>
    0 \<le> rrf_precision (score_query ids r n) \<and> rrf_precision (score_query ids r n) \<le> 1"
proof (cases "min n (length (fused r)) = 0")
  case True
  then show ?thesis by (simp add: score_query_def Let_def)
next
  case False
  let ?e = "min n (length (fused r))" and ?p = "topk n ids"
  have sc: "scored r ?e" using reference_wf[OF assms] False by (simp add: scored_def)
  have le: "rrf_hits ?p r ?e \<le> ?e" "rrf_hits ?p r ?e \<le> length ?p"
    "count_in (set (map fst (take ?e (fused r)))) ?p \<le> rrf_hits ?p r ?e"
    using rrf_hits_le[OF sc distinct_topk] strict_hits_le[OF sc distinct_topk]
    by (simp_all add: ids_top_def)
  have "fdiv (f64_of_nat (count_in (set (map fst (take ?e (fused r)))) ?p)) (f64_of_nat ?e) \<le>
      fdiv (f64_of_nat (rrf_hits ?p r ?e)) (f64_of_nat ?e)"
    unfolding fdiv_def f64_of_nat_def using le(3) by (intro f64.ratio_mono) simp_all
  with False fdiv_counts_bounds[OF le(1)] fdiv_counts_bounds[OF le(2)]
    fdiv_counts_bounds[OF order.trans[OF le(3,1)]]
  show ?thesis unfolding score_query_def Let_def by simp
qed

abbreviation demo_spec :: rrf_spec where
  "demo_spec \<equiv> \<lparr>window = 2, rank_constant = 60\<rparr>"

lemma demo_reference: "\<exists>r. reference [4, 7] [7, 9] demo_spec = Inr r \<and> length (fused r) = 3"
proof -
  have "length (fused r) = 3" if "reference [4, 7] [7, 9] demo_spec = Inr r" for r
  proof -
    have "fused r = rrf_fuse [[4, 7], [7, 9]] 60" using that by (auto simp: reference_def)
    then have "set (map fst (fused r)) = {4, 7, 9}" "distinct (map fst (fused r))"
      by (simp_all add: ids_rrf_fuse distinct_rrf_fuse insert_commute)
    moreover have "card {4, 7, 9 :: int} = 3" by simp
    ultimately show ?thesis by (metis distinct_card length_map)
  qed
  moreover have "\<exists>r. reference [4, 7] [7, 9] demo_spec = Inr r" by (simp add: reference_def)
  ultimately show ?thesis by blast
qed

theorem query_score_bounds_witness:
  "\<exists>r. reference [4, 7] [7, 9] demo_spec = Inr r \<and>
     strict_recall (score_query [9, 1] r 2) \<le> rrf_recall (score_query [9, 1] r 2) \<and>
     rrf_recall (score_query [9, 1] r 2) \<le> 1"
  using demo_reference query_score_bounds by blast

text \<open>
  A tied document never stands in for a missed better one.  A page gets recall 1 exactly when it
  holds every reference id that scores strictly above the cut-off, and fills the remaining slots with
  ids tied at the cut-off.
\<close>

theorem recall_1_iff:
  assumes "reference bm25 knn spec = Inr r" "0 < n" "fused r \<noteq> []" "n \<le> 2 ^ 53"
  defines "e \<equiv> min n (length (fused r))"
  shows "rrf_recall (score_query ids r n) = 1 \<longleftrightarrow> ids_above r e \<subseteq> set (topk n ids) \<and>
    e - card (ids_above r e) \<le> card (set (topk n ids) \<inter> ids_tied r e)"
proof -
  have sc: "scored r e" using reference_wf[OF assms(1)] assms(2,3) by (simp add: scored_def e_def)
  then have pos: "0 < e" by (simp add: scored_def)
  have "rrf_recall (score_query ids r n) = fdiv (f64_of_nat (rrf_hits (topk n ids) r e)) (f64_of_nat e)"
    using pos unfolding score_query_def Let_def e_def[symmetric] by simp
  moreover have "rrf_hits (topk n ids) r e \<le> e" using rrf_hits_le(1)[OF sc distinct_topk] .
  moreover have "e \<le> 2 ^ 53" using assms(4) by (simp add: e_def)
  ultimately have "rrf_recall (score_query ids r n) = 1 \<longleftrightarrow> rrf_hits (topk n ids) r e = e"
    using fdiv_counts_lt_1[of "rrf_hits (topk n ids) r e" e] fdiv_counts_eq_1[OF pos]
    by (metis order_le_less order_less_irrefl)
  then show ?thesis using rrf_hits_full_iff[OF sc distinct_topk] by simp
qed

theorem recall_1_iff_witness:
  "\<exists>r. reference [4, 7] [7, 9] demo_spec = Inr r \<and>
     (rrf_recall (score_query [9, 1] r 2) = 1 \<longleftrightarrow> ids_above r 2 \<subseteq> set (topk 2 [9, 1]) \<and>
        2 - card (ids_above r 2) \<le> card (set (topk 2 [9, 1]) \<inter> ids_tied r 2))"
proof -
  obtain r where r: "reference [4, 7] [7, 9] demo_spec = Inr r" "length (fused r) = 3"
    using demo_reference by blast
  then have "fused r \<noteq> []" by auto
  from recall_1_iff[OF r(1) _ this, of 2 "[9, 1]"] r show ?thesis by auto
qed

text \<open>
  C27: a server that fuses as the reference does is never refused and scores 1.  For every accepted
  \<open>rrf\<close> block and every reference, the page that returns the reference's own top documents with its own
  scores passes all checks (each score in range and on the lattice, the page descending, no duplicate)
  and gets recall, strict recall and precision 1.
\<close>

theorem faithful_server_scores_1:
  assumes "parse_rrf_spec fv block = Inr spec" "reference bm25 knn spec = Inr r"
  shows "score_page (map (\<lambda>(i, s). (i, Finite s)) (take n (fused r))) r spec n =
    Inr \<lparr>rrf_recall = 1, strict_recall = 1, rrf_precision = 1\<rparr>"
proof -
  let ?p = "map (\<lambda>(i, s). (i, Finite s)) (take n (fused r))"
  have fst: "map fst ?p = map fst (take n (fused r))" by (simp add: case_prod_beta)
  have snd: "map snd ?p = map (Finite \<circ> snd) (take n (fused r))" by (simp add: case_prod_beta)
  have wf: "wf_reference r" by (rule reference_wf[OF assms(2)])
  then have "distinct (map fst ?p)" unfolding fst by (simp add: wf_reference_def take_map[symmetric])
  then have "card (set (map fst ?p)) = length (map fst ?p)" by (rule distinct_card)
  moreover have "check_page_scores (map snd ?p) spec = Inr ()"
    unfolding snd by (rule reference_page_accepted[OF parse_rrf_spec_valid[OF assms(1)] assms(2)])
  ultimately show ?thesis
    unfolding score_page_def Let_def fst using reference_page_perfect[OF wf, of n] by simp
qed

theorem faithful_server_scores_1_witness:
  "\<exists>r. reference [4, 7] [7, 9] demo_spec = Inr r \<and>
     score_page (map (\<lambda>(i, s). (i, Finite s)) (take 2 (fused r))) r demo_spec 2 =
       Inr \<lparr>rrf_recall = 1, strict_recall = 1, rrf_precision = 1\<rparr>"
proof -
  have "parse_rrf_spec (\<lambda>_. Some demo_spec) (Some Null) = Inr demo_spec"
    by (simp add: parse_rrf_spec_def MAX_WINDOW_def MIN_RANK_CONSTANT_def MAX_RANK_CONSTANT_def)
  with demo_reference faithful_server_scores_1 show ?thesis by blast
qed

text \<open>
  The score check refuses everything off the lattice.  A score it accepts is finite and within the
  tolerance of \<open>1/(k+a)\<close> or of \<open>1/(k+a) + 1/(k+b)\<close> for ranks \<open>a\<close>, \<open>b\<close> in the window (rounded as the source
  rounds them).
\<close>

theorem accepted_score_on_lattice:
  assumes "check_rrf_score v spec = Inr ()" "valid_spec spec"
  shows "\<exists>s a. v = Finite s \<and> 1 \<le> a \<and> a \<le> window spec \<and>
    (close s (rank_score (rank_constant spec) a) \<or>
     (\<exists>b. 1 \<le> b \<and> b \<le> window spec \<and>
        close s (fadd (rank_score (rank_constant spec) a) (rank_score (rank_constant spec) b))))"
proof -
  obtain s where v: "v = Finite s" using assms(1) by (cases v) (auto simp: check_rrf_score.simps)
  let ?k = "rank_constant spec" and ?w = "window spec"
  have w: "?w \<le> 10000" using assms(2) by (simp add: valid_spec_def MAX_WINDOW_def)
  obtain a where a: "1 \<le> a" "a \<le> ?w" "on_lattice s (real ?k) (f64_of_nat ?w) a"
    using assms(1) unfolding v check_rrf_score.simps Let_def list_ex_iff
    by (auto split: if_splits)
  have "close s (rank_score ?k a) \<or>
     (\<exists>b. 1 \<le> b \<and> b \<le> ?w \<and> close s (fadd (rank_score ?k a) (rank_score ?k b)))"
  proof (cases "close s (rank_score ?k a)")
    case False
    define x where "x = fround (fsub (fdiv 1 (fsub s (rank_score ?k a))) (real ?k))"
    have x: "1 \<le> x" "x \<le> real ?w" "close s (fadd (rank_score ?k a) (fdiv 1 (fadd (real ?k) x)))"
      using a(3) False w
      by (auto simp: on_lattice_def rank_score_def x_def Let_def f64_of_nat_exact split: if_splits)
    have "\<exists>z. x = of_int z" unfolding x_def fround_def by (metis of_int_minus)
    then obtain z where "x = of_int z" by blast
    with x(1,2) have z: "x = real (nat z)" "1 \<le> nat z" "nat z \<le> ?w" by simp_all
    have "fdiv 1 (fadd (real ?k) x) = rank_score ?k (nat z)"
      using z w by (simp add: rank_score_def f64_of_nat_exact)
    with x(3) z show ?thesis by (intro disjI2 exI[of _ "nat z"]) simp
  qed simp
  with v a show ?thesis by blast
qed

theorem accepted_score_on_lattice_witness:
  "\<exists>a. 1 \<le> a \<and> a \<le> 2 \<and> (close (recip 61) (rank_score 60 a) \<or>
     (\<exists>b. 1 \<le> b \<and> b \<le> 2 \<and> close (recip 61) (fadd (rank_score 60 a) (rank_score 60 b))))"
proof -
  have v: "valid_spec demo_spec"
    by (simp add: valid_spec_def MAX_WINDOW_def MIN_RANK_CONSTANT_def MAX_RANK_CONSTANT_def)
  have "lattice_score demo_spec (recip 61)" unfolding lattice_score_def by (intro exI[of _ 1]) simp
  from accepted_score_on_lattice[OF lattice_score_accepted[OF v this] v] show ?thesis by simp
qed

lemma build_text_partition:
  assumes "build_text_query_set u texts = Inr qs"
  shows "set (map query_id (queries qs)) \<union> set (skipped qs) = {..<length texts}"
    "set (map query_id (queries qs)) \<inter> set (skipped qs) = {}"
    "sorted_wrt (<) (map query_id (queries qs))" "sorted_wrt (<) (skipped qs)"
    "\<And>q. q \<in> set (queries qs) \<Longrightarrow> terms q \<noteq> [] \<and> query_id q < length texts"
proof -
  have qs: "map query_id (queries qs) = map fst (filter (\<lambda>(_, t). query_terms u t \<noteq> []) (enumerate 0 texts))"
    "skipped qs = map fst (filter (\<lambda>(_, t). query_terms u t = []) (enumerate 0 texts))"
    using assms by (auto simp: build_text_query_set_def Let_def split: if_splits)
  have sorted: "sorted_wrt (<) (map fst (filter Q (enumerate 0 texts)))" for Q
  proof -
    have "sorted_wrt (\<lambda>x y. fst x < fst y) (enumerate 0 texts)"
      by (simp add: sorted_wrt_iff_nth_less nth_enumerate_eq)
    then show ?thesis using sorted_wrt_filter by (fastforce simp: sorted_wrt_map)
  qed
  show "sorted_wrt (<) (map query_id (queries qs))" "sorted_wrt (<) (skipped qs)"
    unfolding qs by (rule sorted)+
  have ids: "i \<in> fst ` {x \<in> set (enumerate 0 texts). case x of (_, t) \<Rightarrow> Q t} \<longleftrightarrow>
      i < length texts \<and> Q (texts ! i)" for i Q
    by (force simp: in_set_enumerate_eq image_iff)
  show "set (map query_id (queries qs)) \<union> set (skipped qs) = {..<length texts}"
    "set (map query_id (queries qs)) \<inter> set (skipped qs) = {}"
    unfolding qs set_map set_filter using ids by (auto simp: in_set_enumerate_eq)
  show "\<And>q. q \<in> set (queries qs) \<Longrightarrow> terms q \<noteq> [] \<and> query_id q < length texts"
    using assms by (auto simp: build_text_query_set_def Let_def in_set_enumerate_eq split: if_splits)
qed

lemma rrf_truth_ok:
  "distinct (rrf_truth row w) \<and> length (rrf_truth row w) \<le> w \<and> set (rrf_truth row w) \<subseteq> {i \<in> set row. 0 \<le> i}"
  using set_topk_subset[of w "filter (\<lambda>i. 0 \<le> i) row"]
  by (auto simp: rrf_truth_def distinct_topk length_topk_le)

lemma build_rrf_query_ok:
  assumes "build_rrf_query neighbours spec q = Inr h"
  shows "rrf_query_id h = query_id q" "rrf_terms h = terms q" "length (knn_truth h) = window spec"
    "distinct (knn_truth h)" "set (knn_truth h) \<subseteq> {i \<in> set (neighbours ! query_id q). 0 \<le> i}"
  using assms rrf_truth_ok[of "neighbours ! query_id q" "window spec"]
  by (auto simp: build_rrf_query_def Let_def split: if_splits)

text \<open>
  Every query of the set has a full exact-KNN reference.  A built query set covers the lines of
  \<open>tests.jsonl\<close> exactly once, as a query or as skipped, in line order; each query has at least one term
  and exactly \<open>W\<close> distinct valid neighbours, taken from its own ground-truth row.
\<close>

theorem rrf_query_set_complete:
  assumes "build_rrf_query_set u texts neighbours spec = Inr qs"
  shows "set (map rrf_query_id (rrf_queries qs)) \<union> set (rrf_skipped qs) = {..<rrf_total qs} \<and>
    set (map rrf_query_id (rrf_queries qs)) \<inter> set (rrf_skipped qs) = {} \<and>
    rrf_total qs = length texts \<and> sorted_wrt (<) (map rrf_query_id (rrf_queries qs)) \<and>
    list_all (\<lambda>h. rrf_terms h \<noteq> [] \<and> length (knn_truth h) = window spec \<and> distinct (knn_truth h) \<and>
      set (knn_truth h) \<subseteq> {i \<in> set (neighbours ! rrf_query_id h). 0 \<le> i}) (rrf_queries qs)"
proof -
  obtain tq hs where tq: "build_text_query_set u texts = Inr tq"
      "traverse (build_rrf_query neighbours spec) (queries tq) = Inr hs"
      "qs = \<lparr>rrf_queries = hs, rrf_skipped = skipped tq, rrf_total = total tq\<rparr>"
    using assms by (auto simp: build_rrf_query_set_def split: if_splits)
  have all2: "list_all2 (\<lambda>q h. build_rrf_query neighbours spec q = Inr h) (queries tq) hs"
    using tq(2) by (simp add: traverse_Inr_iff)
  then have "map rrf_query_id hs = map query_id (queries tq)"
    by (induction rule: list_all2_induct) (auto dest: build_rrf_query_ok)
  moreover have "rrf_terms h \<noteq> [] \<and> length (knn_truth h) = window spec \<and> distinct (knn_truth h) \<and>
      set (knn_truth h) \<subseteq> {i \<in> set (neighbours ! rrf_query_id h). 0 \<le> i}" if "h \<in> set hs" for h
  proof -
    obtain j where j: "j < length hs" "h = hs ! j" using \<open>h \<in> set hs\<close> unfolding in_set_conv_nth by blast
    then have q: "queries tq ! j \<in> set (queries tq)" "build_rrf_query neighbours spec (queries tq ! j) = Inr h"
      using all2 by (simp_all add: list_all2_conv_all_nth)
    from build_text_partition(5)[OF tq(1) q(1)] build_rrf_query_ok[OF q(2)] show ?thesis by simp
  qed
  moreover have "total tq = length texts"
    using tq(1) by (auto simp: build_text_query_set_def Let_def split: if_splits)
  ultimately show ?thesis
    using build_text_partition(1-3)[OF tq(1)] tq(3) by (simp add: list_all_iff)
qed

abbreviation demo_unicode :: unicode where
  "demo_unicode \<equiv> \<lparr>alphanumeric = (\<lambda>c. 97 \<le> c \<and> c \<le> 122), whitespace = (\<lambda>c. c = 32), lowercase = id\<rparr>"

theorem rrf_query_set_complete_witness:
  "\<exists>qs. build_rrf_query_set demo_unicode [codes ''red fox'', codes ''the''] [[5, -1, 5, 6], [1]] demo_spec = Inr qs \<and>
     rrf_skipped qs = [1] \<and> set (map rrf_query_id (rrf_queries qs)) = {0}"
proof -
  have "\<exists>qs. build_rrf_query_set demo_unicode [codes ''red fox'', codes ''the''] [[5, -1, 5, 6], [1]] demo_spec = Inr qs \<and>
     rrf_skipped qs = [1] \<and> rrf_total qs = 2"
    by (simp add: build_rrf_query_set_def build_text_query_set_def build_rrf_query_def rrf_truth_def topk_def
        query_terms_def strip_possessives_def is_separator_def REDISEARCH_SEPARATORS_def STOPWORDS_def
        codes_def byte_def dedup_def)
  then obtain qs where qs: "build_rrf_query_set demo_unicode [codes ''red fox'', codes ''the'']
      [[5, -1, 5, 6], [1]] demo_spec = Inr qs" "rrf_skipped qs = [1]" "rrf_total qs = 2" by blast
  from rrf_query_set_complete[OF qs(1)] qs(2,3)
  have "set (map rrf_query_id (rrf_queries qs)) \<union> {1} = {..<2}" "1 \<notin> set (map rrf_query_id (rrf_queries qs))"
    by simp_all
  then have "set (map rrf_query_id (rrf_queries qs)) = {..<2} - {1}" by blast
  also have "\<dots> = {0}" by auto
  finally show ?thesis using qs by blast
qed

interpretation hybrid_rrf_metadata: fingerprint HybridRrf rrf_verify_fingerprint
  by unfold_locales (auto simp: rrf_verify_fingerprint_def)

end
