(* ===== verification/Rrf_Engines.thy ===== *)
theory Rrf_Engines
  imports Hybrid_Rrf
begin

text \<open>
  The engine side of the \<open>hybrid-rrf\<close> workload (\<open>src/src/hybrid_rrf.rs\<close>): the \<open>FT.HYBRID\<close> request and its
  reply, the \<open>INFO commandstats\<close> evidence, the OpenSearch version gate, and the search pipeline (its id,
  its body and the check of what the server reads back).
\<close>

unbundle bit_operations_syntax

section \<open>Redis\<close>

definition redis_hybrid_args ::
  "string \<Rightarrow> string \<Rightarrow> int \<Rightarrow> rrf_spec \<Rightarrow> nat \<Rightarrow> int \<Rightarrow> string list" where
  "redis_hybrid_args index query ef spec topn timeout_ms =
     (let w = nat_str (window spec) in
      [index, ''SEARCH'', query, ''SCORER'', ''BM25STD'', ''VSIM'', ''@vector'', ''$BLOB'',
       ''KNN'', ''4'', ''K'', w, ''EF_RUNTIME'', int_str ef,
       ''COMBINE'', ''RRF'', ''4'', ''CONSTANT'', nat_str (rank_constant spec), ''WINDOW'', w,
       ''LIMIT'', ''0'', nat_str topn, ''TIMEOUT'', int_str timeout_ms, ''PARAMS'', ''2'', ''BLOB''])"

fun hybrid_text :: "reply \<Rightarrow> string option" where
  "hybrid_text (BulkString b) = (if valid_utf8 b then Some b else None)"
| "hybrid_text (SimpleString s) = Some s"
| "hybrid_text (VerbatimString s) = Some s"
| "hybrid_text _ = None"

fun text_keys :: "(reply \<times> reply) list \<Rightarrow> (string \<times> reply) list option" where
  "text_keys [] = Some []"
| "text_keys ((k, v) # es) =
     (case (hybrid_text k, text_keys es) of (Some s, Some r) \<Rightarrow> Some ((s, v) # r) | _ \<Rightarrow> None)"

fun chunk_pairs :: "reply list \<Rightarrow> (reply \<times> reply) list option" where
  "chunk_pairs [] = Some []"
| "chunk_pairs [_] = None"
| "chunk_pairs (k # v # r) = map_option (Cons (k, v)) (chunk_pairs r)"

fun reply_pairs :: "reply \<Rightarrow> (string \<times> reply) list option" where
  "reply_pairs (RMap m) = text_keys m"
| "reply_pairs (RArray a) = (case chunk_pairs a of Some m \<Rightarrow> text_keys m | None \<Rightarrow> None)"
| "reply_pairs _ = None"

fun hybrid_score :: "reply option \<Rightarrow> rrf_error + f64v" where
  "hybrid_score (Some (Double d)) = Inr d"
| "hybrid_score (Some v) =
     (case hybrid_text v of
        Some s \<Rightarrow> ok_or Unparseable_Hybrid_Score (parse_f64 s)
      | None \<Rightarrow> Inl Unparseable_Hybrid_Score)"
| "hybrid_score None = Inl No_Hybrid_Score"

definition hybrid_entry :: "reply \<Rightarrow> rrf_error + string \<times> f64v" where
  "hybrid_entry v =
     rbind (ok_or Hybrid_Entry_Not_A_Map (reply_pairs v)) (\<lambda>fs.
     rbind (ok_or No_Hybrid_Key (case map_of fs ''__key'' of Some k \<Rightarrow> hybrid_text k | None \<Rightarrow> None)) (\<lambda>key.
     rbind (hybrid_score (map_of fs ''__score'')) (\<lambda>s. Inr (key, s))))"

fun hybrid_entries :: "string set \<Rightarrow> reply list \<Rightarrow> rrf_error + (string \<times> f64v) list" where
  "hybrid_entries seen [] = Inr []"
| "hybrid_entries seen (r # rs) =
     rbind (hybrid_entry r) (\<lambda>(key, s).
     if key \<in> seen then Inl (Duplicate_Hybrid_Key key)
     else rbind (hybrid_entries (insert key seen) rs) (\<lambda>page. Inr ((key, s) # page)))"

definition parse_redis_hybrid_reply :: "reply \<Rightarrow> nat \<Rightarrow> rrf_error + (string \<times> f64v) list" where
  "parse_redis_hybrid_reply value topn =
     rbind (ok_or Hybrid_Not_A_Map (reply_pairs value)) (\<lambda>lvl.
     rbind (case map_of lvl ''warnings'' of
         Some (RArray w) \<Rightarrow> if w = [] then Inr () else Inl (Hybrid_Warnings (List.map_filter hybrid_text w))
       | _ \<Rightarrow> Inl No_Warnings_Field) (\<lambda>_.
     rbind (case map_of lvl ''total_results'' of
         Some (RInt n) \<Rightarrow> if n \<ge> 0 then Inr (nat n) else Inl No_Hybrid_Total
       | _ \<Rightarrow> Inl No_Hybrid_Total) (\<lambda>n.
     rbind (case map_of lvl ''results'' of
         Some (RArray rs) \<Rightarrow> Inr rs
       | _ \<Rightarrow> Inl No_Hybrid_Results) (\<lambda>rs.
     if length rs > topn \<or> length rs \<noteq> min n topn then Inl (Incomplete_Hybrid_Page n (length rs) topn)
     else hybrid_entries {} rs))))"

definition commandstats_calls :: "string \<Rightarrow> string \<Rightarrow> nat option" where
  "commandstats_calls info command =
     (let want = ''cmdstat_'' @ map to_lower command @ '':'' in
      find_map (\<lambda>line. let line = trim line in
        if \<not> prefix want (map to_lower line) then None
        else case find_map (strip_prefix ''calls='') (split_on CHR '','' (drop (length want) line)) of
          Some n \<Rightarrow> parse_u64 n
        | None \<Rightarrow> None) (split_on (CHR 0x0A) info))"

record calls_evidence =
  ft_hybrid_calls_delta :: "nat option"
  verified :: bool

definition check_redis_calls :: "nat option \<Rightarrow> nat option \<Rightarrow> nat \<Rightarrow> rrf_error + calls_evidence" where
  "check_redis_calls before after expected =
     (case (before, after) of
        (Some b, Some a) \<Rightarrow>
          let delta = a - b in
          if delta < expected then Inl (Too_Few_Calls delta expected)
          else Inr \<lparr>ft_hybrid_calls_delta = Some delta, verified = True\<rparr>
      | _ \<Rightarrow> Inr \<lparr>ft_hybrid_calls_delta = None, verified = False\<rparr>)"

section \<open>OpenSearch\<close>

definition check_opensearch_version :: "string \<Rightarrow> rrf_error + unit" where
  "check_opensearch_version version =
     (let pieces = split_on CHR ''.'' version;
          major = parse_u64 (hd pieces);
          minor = (case tl pieces of p # _ \<Rightarrow> parse_u64 p | [] \<Rightarrow> None) in
      case (major, minor) of
        (Some ma, Some mi) \<Rightarrow> if ma > 2 \<or> ma = 2 \<and> mi \<ge> 19 then Inr () else Inl (OpenSearch_Too_Old version)
      | _ \<Rightarrow> Inl (OpenSearch_Too_Old version))"

text \<open>
  The name of the pipeline.  The token maps characters, not bytes: a continuation byte of a UTF-8
  sequence belongs to the character before it.
\<close>

definition token_char :: "char \<Rightarrow> char" where
  "token_char c = (let d = to_lower c in if is_alnum d \<or> d = CHR ''-'' \<or> d = CHR ''_'' then d else CHR ''_'')"

definition pipeline_token :: "string \<Rightarrow> string" where
  "pipeline_token name = map token_char (filter (\<lambda>c. \<not> cont (byte c)) name)"

definition fnv1a :: "string \<Rightarrow> 64 word" where
  "fnv1a s = foldl (\<lambda>h c. (h XOR of_nat (byte c)) * 0x100000001b3) 0xcbf29ce484222325 s"

definition opensearch_pipeline_name :: "string \<Rightarrow> rrf_spec \<Rightarrow> string" where
  "opensearch_pipeline_name config_name spec =
     ''vdbb-hybrid-rrf-'' @ pipeline_token config_name @ ''-'' @
     hex_str 8 (unat (ucast (fnv1a config_name) :: 32 word)) @ ''-k'' @ nat_str (rank_constant spec)"

definition opensearch_pipeline_body :: "rrf_spec \<Rightarrow> json" where
  "opensearch_pipeline_body spec = Object
     [(''description'', String (''vector-db-benchmark hybrid-rrf (rrf-v1): reciprocal rank fusion, rank_constant '' @
          nat_str (rank_constant spec))),
      (''phase_results_processors'', Array [Object [(''score-ranker-processor'', Object
         [(''combination'', Object [(''rank_constant'', Number (PosInt (rank_constant spec))),
                                   (''technique'', String ''rrf'')])])]])]"

definition pipeline_constant :: "json \<Rightarrow> nat option" where
  "pipeline_constant k = (case as_u64 k of Some n \<Rightarrow> Some n
     | None \<Rightarrow> (case as_string k of Some s \<Rightarrow> parse_u64 s | None \<Rightarrow> None))"

definition has_processors :: "json \<Rightarrow> string \<Rightarrow> bool" where
  "has_processors p other =
     (case jget other p of Some v \<Rightarrow> (case as_array v of Some a \<Rightarrow> a \<noteq> [] | None \<Rightarrow> False) | None \<Rightarrow> False)"

definition check_opensearch_pipeline :: "json \<Rightarrow> string \<Rightarrow> rrf_spec \<Rightarrow> rrf_error + unit" where
  "check_opensearch_pipeline read_back name spec =
     rbind (ok_or Pipeline_Not_Found (jget name read_back)) (\<lambda>p.
     if has_processors p ''request_processors'' then Inl (Pipeline_Extra_Processors ''request_processors'')
     else if has_processors p ''response_processors'' then Inl (Pipeline_Extra_Processors ''response_processors'')
     else case as_array (jindex p ''phase_results_processors'') of
       Some [pr] \<Rightarrow>
         (let combination = jindex (jindex pr ''score-ranker-processor'') ''combination'' in
          if jindex combination ''technique'' \<noteq> String ''rrf'' then Inl Pipeline_Not_Rrf
          else if pipeline_constant (jindex combination ''rank_constant'') \<noteq> Some (rank_constant spec)
          then Inl Pipeline_Wrong_Constant
          else Inr ())
     | _ \<Rightarrow> Inl Pipeline_Not_One_Processor)"

section \<open>Aggregates\<close>

record reference_stats =
  stat_queries :: nat
  mean_bm25_candidates :: real
  mean_in_both :: real
  queries_short_bm25 :: nat

definition stats_of :: "reference list \<Rightarrow> nat \<Rightarrow> reference_stats" where
  "stats_of refs w =
     (let n = length refs; bm25 = sum_list (map bm25_candidates refs); both = sum_list (map in_both refs) in
      \<lparr>stat_queries = n,
       mean_bm25_candidates = (if n > 0 then fdiv (f64_of_nat bm25) (f64_of_nat n) else 0),
       mean_in_both = (if n > 0 then fdiv (f64_of_nat both) (f64_of_nat n) else 0),
       queries_short_bm25 = length (filter (\<lambda>r. bm25_candidates r < w) refs)\<rparr>)"

definition lattice_coverage :: "rrf_spec \<Rightarrow> real" where
  "lattice_coverage spec =
     (let k = of_nat (rank_constant spec); w = window spec;
          lo = fdiv 1 (fadd k (f64_of_nat w)); hi = fdiv 2 (fadd k 1);
          cover = (\<lambda>x. fmul (fmul 2 TIE_TOLERANCE) x);
          covered = foldl (\<lambda>c a.
            let one = fdiv 1 (fadd k (f64_of_nat a)) in
            foldl (\<lambda>c b. fadd c (cover (fadd one (fdiv 1 (fadd k (f64_of_nat b))))))
              (fadd c (cover one)) [a..<Suc w]) 0 [1..<Suc w]
      in min (fdiv covered (fsub hi lo)) 1)"

section \<open>Lemmas\<close>

lemma pipeline_name_parts:
  "opensearch_pipeline_name m s = opensearch_pipeline_name n t \<longleftrightarrow>
     pipeline_token m = pipeline_token n \<and>
     (ucast (fnv1a m) :: 32 word) = ucast (fnv1a n) \<and> rank_constant s = rank_constant t"
proof
  let ?h = "\<lambda>x. hex_str 8 (unat (ucast (fnv1a x) :: 32 word))"
  assume "opensearch_pipeline_name m s = opensearch_pipeline_name n t"
  then have whole: "(''vdbb-hybrid-rrf-'' @ pipeline_token m @ ''-'' @ ?h m @ ''-'') @ CHR ''k'' # nat_str (rank_constant s) =
      (''vdbb-hybrid-rrf-'' @ pipeline_token n @ ''-'' @ ?h n @ ''-'') @ CHR ''k'' # nat_str (rank_constant t)"
    by (simp add: opensearch_pipeline_name_def)
  have nk: "CHR ''k'' \<notin> set (nat_str a)" for a
    by (rule not_digit_notin_nat_str) (simp add: is_digit_def byte_def)
  have eq: "''vdbb-hybrid-rrf-'' @ pipeline_token m @ ''-'' @ ?h m @ ''-'' =
      ''vdbb-hybrid-rrf-'' @ pipeline_token n @ ''-'' @ ?h n @ ''-''"
    and k: "nat_str (rank_constant s) = nat_str (rank_constant t)"
    by (rule split_at_last[OF whole nk nk])+
  from eq have "(pipeline_token m @ ''-'') @ ?h m = (pipeline_token n @ ''-'') @ ?h n" by simp
  then have "pipeline_token m @ ''-'' = pipeline_token n @ ''-'' \<and> ?h m = ?h n"
    by (subst (asm) append_eq_append_conv) auto
  moreover have "unat (x :: 32 word) < 16 ^ 8" for x using unsigned_less[of x, where ?'a = nat] by simp
  ultimately show "pipeline_token m = pipeline_token n \<and>
      (ucast (fnv1a m) :: 32 word) = ucast (fnv1a n) \<and> rank_constant s = rank_constant t"
    using k hex_str_inject[of _ 8] by (auto simp: word_unat_eq_iff)
qed (simp add: opensearch_pipeline_name_def)

lemma fnv1a_collision:
  "(ucast (fnv1a ''openSEArcH_m.16.ef_128'') :: 32 word) = ucast (fnv1a ''opEnSEArch_M.16.Ef_128'')"
  by code_simp

lemma hybrid_entries_ok:
  "hybrid_entries seen rs = Inr page \<Longrightarrow>
     length page = length rs \<and> distinct (map fst page) \<and> fst ` set page \<inter> seen = {}"
proof (induction rs arbitrary: seen page)
  case (Cons r rs)
  then obtain key s pg where "hybrid_entry r = Inr (key, s)" "key \<notin> seen"
      "hybrid_entries (insert key seen) rs = Inr pg" "page = (key, s) # pg"
    by (auto split: if_splits)
  with Cons.IH[of "insert key seen" pg] show ?case by auto
qed simp

section \<open>Properties\<close>

text \<open>
  The pipeline check accepts the pipeline this run installs and no other constant.  Reading back
  the body the program sends, whatever other pipelines the cluster has, passes exactly when the
  rank constant is the one the run needs.
\<close>

theorem pipeline_readback_iff:
  "check_opensearch_pipeline (Object ((name, opensearch_pipeline_body sent) # others)) name spec = Inr () \<longleftrightarrow>
     rank_constant sent = rank_constant spec"
  by (simp add: check_opensearch_pipeline_def opensearch_pipeline_body_def has_processors_def
      pipeline_constant_def)

text \<open>
  C40: what a pipeline id tells apart.  Two configurations get the same id exactly when their names
  map to the same token, have the same low 32 bits of FNV-1a, and use the same rank constant; so the
  id separates rank constants, but distinct configuration names can share a pipeline.
\<close>

theorem pipeline_name_iff:
  "(opensearch_pipeline_name m s = opensearch_pipeline_name n t \<longleftrightarrow>
      pipeline_token m = pipeline_token n \<and> (ucast (fnv1a m) :: 32 word) = ucast (fnv1a n) \<and>
      rank_constant s = rank_constant t) \<and>
   (\<exists>a b. a \<noteq> b \<and> opensearch_pipeline_name a s = opensearch_pipeline_name b s)"
proof -
  have "pipeline_token ''openSEArcH_m.16.ef_128'' = pipeline_token ''opEnSEArch_M.16.Ef_128''"
    by code_simp
  then have "opensearch_pipeline_name ''openSEArcH_m.16.ef_128'' s =
      opensearch_pipeline_name ''opEnSEArch_M.16.Ef_128'' s"
    using fnv1a_collision unfolding pipeline_name_parts by (intro conjI refl)
  moreover have "''openSEArcH_m.16.ef_128'' \<noteq> ''opEnSEArch_M.16.Ef_128''" by simp
  ultimately have "\<exists>a b. a \<noteq> b \<and> opensearch_pipeline_name a s = opensearch_pipeline_name b s" by metis
  with pipeline_name_parts show ?thesis by (rule conjI)
qed

end
