(* ===== verification/Payloads.thy ===== *)
theory Payloads
  imports Json
begin

text \<open>
  Line-oriented files and the payload rows of a compound dataset:
  \<open>src/src/readers/metadata.rs\<close> and the payload half of \<open>src/src/readers/compound_reader.rs\<close>.

  A file is its bytes.  \<open>read_lines\<close> is the sequence of buffers successive \<open>read_line\<close> calls fill
  (terminator included) and \<open>buf_lines\<close> is \<open>BufRead::lines\<close> (\<open>\n\<close> or \<open>\r\n\<close> removed).  The JSON parser
  is a parameter, and so is the row count that the header of \<open>vectors.npy\<close> declares.
\<close>

section \<open>Lines\<close>

definition lf :: char where
  "lf = CHR 0x0A"

definition cr :: char where
  "cr = CHR 0x0D"

definition read_lines :: "string \<Rightarrow> string list" where
  "read_lines s = (let ps = split_on lf s in
     map (\<lambda>p. p @ [lf]) (butlast ps) @ (if last ps = [] then [] else [last ps]))"

definition strip_eol :: "string \<Rightarrow> string" where
  "strip_eol l = (if l \<noteq> [] \<and> last l = lf
     then let p = butlast l in if p \<noteq> [] \<and> last p = cr then butlast p else p
     else l)"

definition buf_lines :: "string \<Rightarrow> string list" where
  "buf_lines s = map strip_eol (read_lines s)"

text \<open>Lines that were each written with a terminator are read back one by one.\<close>

lemma split_on_terminated:
  "(\<And>l. l \<in> set ls \<Longrightarrow> lf \<notin> set l) \<Longrightarrow> split_on lf (concat (map (\<lambda>l. l @ [lf]) ls)) = ls @ [[]]"
  by (induction ls) (simp_all add: split_on_append)

lemma read_lines_terminated:
  "(\<And>l. l \<in> set ls \<Longrightarrow> lf \<notin> set l) \<Longrightarrow>
   read_lines (concat (map (\<lambda>l. l @ [lf]) ls)) = map (\<lambda>l. l @ [lf]) ls"
  by (simp add: read_lines_def split_on_terminated)

lemma strip_eol_terminated: "l = [] \<or> last l \<noteq> cr \<Longrightarrow> strip_eol (l @ [lf]) = l"
  by (auto simp: strip_eol_def)

lemma buf_lines_terminated:
  assumes "\<And>l. l \<in> set ls \<Longrightarrow> lf \<notin> set l \<and> cr \<notin> set l"
  shows "buf_lines (concat (map (\<lambda>l. l @ [lf]) ls)) = ls"
proof -
  have "strip_eol (l @ [lf]) = l" if "l \<in> set ls" for l
    using assms [OF that] by (intro strip_eol_terminated) (metis last_in_set)
  then show ?thesis
    using assms by (simp add: buf_lines_def read_lines_terminated comp_def map_idI)
qed

section \<open>Payload rows\<close>

datatype metadata_value =
    MString string
  | MInt int
  | MFloat real
  | MLabels "string list"
  | MGeo (lon: real) (lat: real)

record metadata_item =
  payload_fields :: "(string \<times> metadata_value) list"

definition is_multivalued_keyword_field :: "string \<Rightarrow> bool" where
  "is_multivalued_keyword_field field_name = (field_name = ''labels'')"

text \<open>The body of the loop over an object's entries: what, if anything, one entry pushes.\<close>

fun parse_number :: "number \<Rightarrow> metadata_value" where
  "parse_number (PosInt n) = (if n < 2 ^ 63 then MInt (int n) else MString (nat_str n))"
| "parse_number (NegInt i) = MInt i"
| "parse_number (Float x) = MFloat x"

fun parse_field :: "string \<Rightarrow> json \<Rightarrow> metadata_value option" where
  "parse_field key (String s) = Some (MString s)"
| "parse_field key (Number n) = Some (parse_number n)"
| "parse_field key (Array arr) =
     (if key = ''labels'' then Some (MLabels (List.map_filter as_string arr)) else None)"
| "parse_field key (Object obj) =
     (case (Option.bind (map_of obj ''lon'') as_f64, Option.bind (map_of obj ''lat'') as_f64) of
        (Some x, Some y) \<Rightarrow> Some (MGeo x y)
      | _ \<Rightarrow> None)"
| "parse_field key (Bool b) = Some (MString (if b then ''true'' else ''false''))"
| "parse_field key Null = None"

fun parse_metadata_from_json :: "json \<Rightarrow> metadata_item option" where
  "parse_metadata_from_json (Object es) =
     Some \<lparr>payload_fields =
       List.map_filter (\<lambda>(key, v). map_option (Pair key) (parse_field key v)) es\<rparr>"
| "parse_metadata_from_json _ = None"

section \<open>Visiting the rows\<close>

datatype 'e payload_error =
    Row_Not_Utf8 nat
  | Row_Parse nat
  | Rejected 'e
  | Count_Mismatch nat nat
  | Npy_Header string

text \<open>
  \<open>visit_payloads_jsonl\<close>: one item per line, a blank line being a missing payload; the callback
  threads its own state \<open>'s\<close> and may reject a row, which ends the reading.  The result is the
  number of rows read.
\<close>

definition payload_row :: "(string \<Rightarrow> json option) \<Rightarrow> nat \<Rightarrow> string \<Rightarrow> 'e payload_error + metadata_item option" where
  "payload_row parse_json rows line =
     (if \<not> valid_utf8 line then Inl (Row_Not_Utf8 rows)
      else if blank line then Inr None
      else case parse_json line of
          None \<Rightarrow> Inl (Row_Parse (rows + 1))
        | Some value \<Rightarrow> Inr (parse_metadata_from_json value))"

fun visit_lines ::
    "(string \<Rightarrow> json option) \<Rightarrow> ('s \<Rightarrow> metadata_item option \<Rightarrow> 'e + 's) \<Rightarrow> nat \<Rightarrow> 's \<Rightarrow> string list \<Rightarrow>
       'e payload_error + nat \<times> 's" where
  "visit_lines parse_json visit rows s [] = Inr (rows, s)"
| "visit_lines parse_json visit rows s (l # ls) =
     rbind (payload_row parse_json rows l) (\<lambda>item.
     rbind (map_err Rejected (visit s item)) (\<lambda>s'.
       visit_lines parse_json visit (rows + 1) s' ls))"

definition visit_payloads_jsonl ::
    "(string \<Rightarrow> json option) \<Rightarrow> ('s \<Rightarrow> metadata_item option \<Rightarrow> 'e + 's) \<Rightarrow> 's \<Rightarrow> string \<Rightarrow>
       'e payload_error + nat \<times> 's" where
  "visit_payloads_jsonl parse_json visit s file = visit_lines parse_json visit 0 s (read_lines file)"

definition push_item :: "'a list \<Rightarrow> 'a \<Rightarrow> string + 'a list" where
  "push_item acc item = Inr (acc @ [item])"

definition read_payloads_jsonl ::
    "(string \<Rightarrow> json option) \<Rightarrow> string \<Rightarrow> string payload_error + metadata_item option list" where
  "read_payloads_jsonl parse_json file =
     rbind (visit_payloads_jsonl parse_json push_item [] file) (\<lambda>(_, items). Inr items)"

text \<open>A dataset directory: what \<open>npy_row_count\<close> reports, and \<open>payloads.jsonl\<close> if the file exists.\<close>

record compound_dir =
  vectors_npy :: "string + nat"
  payloads_jsonl :: "string option"

definition visit_compound_metadata ::
    "(string \<Rightarrow> json option) \<Rightarrow> compound_dir \<Rightarrow> ('s \<Rightarrow> metadata_item option \<Rightarrow> 'e + 's) \<Rightarrow> 's \<Rightarrow>
       'e payload_error + 's" where
  "visit_compound_metadata parse_json dir visit s =
     rbind (map_err Npy_Header (vectors_npy dir)) (\<lambda>expected.
       case payloads_jsonl dir of
         None \<Rightarrow> Inr s
       | Some file \<Rightarrow>
           rbind (visit_payloads_jsonl parse_json visit s file) (\<lambda>(actual, s').
             if actual \<noteq> expected then Inl (Count_Mismatch actual expected) else Inr s'))"

text \<open>A callback that only collects: the rows are parsed in order, up to the first that fails.\<close>

lemma visit_lines_push:
  "visit_lines parse_json (\<lambda>acc item. Inr (acc @ [g item])) rows s ls =
     rbind (traverse (\<lambda>(i, l). payload_row parse_json i l) (enumerate rows ls)) (\<lambda>items.
       Inr (rows + length ls, s @ map g items))"
proof (induction ls arbitrary: rows s)
  case (Cons l ls)
  show ?case
    by (cases "payload_row parse_json rows l :: 'b payload_error + metadata_item option")
      (simp_all add: Cons.IH rbind_def split: sum.splits)
qed simp

lemma read_payloads_jsonl_eq:
  "read_payloads_jsonl parse_json file =
     traverse (\<lambda>(i, l). payload_row parse_json i l) (enumerate 0 (read_lines file))"
  by (simp add: read_payloads_jsonl_def visit_payloads_jsonl_def push_item_def [abs_def]
      visit_lines_push [where g = "\<lambda>x. x"])
    (simp add: rbind_def split: sum.splits)

end
