(* ===== verification/Results_Dump.thy ===== *)
theory Results_Dump
  imports Payloads Workload "HOL-Library.Multiset"
begin

text \<open>
  Per-query result records and the dump file: \<open>src/src/results_dump.rs\<close>.

  Row ids are \<open>i64\<close> read as \<open>int\<close>; query ids, ordinals and totals are \<open>nat\<close>.  Scores and latencies
  are only carried, so they stay \<open>f64v\<close>.  \<open>sort_by_key\<close> is stable, as \<open>sort_key\<close> is.  A \<open>HashMap\<close> that is
  only searched and counted is an association list with distinct keys, and a \<open>BTreeSet\<close> that is only
  iterated is its ascending list.  \<open>serde_json\<close> turns a dump line into text and back; both directions
  are parameters.
\<close>

section \<open>Captures\<close>

definition DUMP_SCHEMA_VERSION :: nat where
  "DUMP_SCHEMA_VERSION = 1"

record raw_hit =
  row :: int
  score :: "f64v option"

record raw_query_result =
  raw_query_id :: nat
  raw_seq :: nat
  raw_hits :: "raw_hit list"
  raw_total :: "nat option"
  raw_latency :: f64v
  raw_error :: "string option"

definition raw_ok :: "nat \<Rightarrow> nat \<Rightarrow> raw_hit list \<Rightarrow> nat option \<Rightarrow> f64v \<Rightarrow> raw_query_result" where
  "raw_ok q s hs t l = \<lparr>raw_query_id = q, raw_seq = s, raw_hits = hs, raw_total = t, raw_latency = l,
     raw_error = None\<rparr>"

definition raw_failed :: "nat \<Rightarrow> nat \<Rightarrow> f64v \<Rightarrow> string \<Rightarrow> raw_query_result" where
  "raw_failed q s l e = \<lparr>raw_query_id = q, raw_seq = s, raw_hits = [], raw_total = None, raw_latency = l,
     raw_error = Some e\<rparr>"

datatype id_space = Row_Space | Field_Space string

datatype external_ids = Ext_Row | Ext_Field string "string list"

datatype dump_error =
    Docid_Not_Compound string
  | Payload_Failure "string payload_error"
  | No_Payload_Rows
  | Row_Without_Field nat string
  | Negative_Row int
  | Row_Outside int nat string
  | In_Query nat dump_error
  | In_Ground_Truth nat dump_error
  | No_Ground_Truth_Row nat nat
  | Compound_Lacks_Analysis
  | Compound_Lacks_Query_Sha
  | Compound_Lacks_Preparation
  | Invalid_Analysis
  | Invalid_Sha256
  | Capture_Mismatch nat nat
  | Dir_Failure string
  | Dir_Not_Empty string
  | Write_Failure string
  | Line_Failure nat
  | Schema_Version nat
  | Second_Header nat
  | Query_Before_Header nat
  | No_Header

section \<open>External ids\<close>

definition EXTERNAL_ID_FIELD :: string where
  "EXTERNAL_ID_FIELD = ''docid''"

definition from_field :: "string \<Rightarrow> string option list \<Rightarrow> dump_error + external_ids" where
  "from_field field values =
     rbind (traverse (\<lambda>(r, v). ok_or (Row_Without_Field r field) v) (enumerate 0 values)) (\<lambda>out.
       Inr (Ext_Field field out))"

fun space :: "external_ids \<Rightarrow> id_space" where
  "space Ext_Row = Row_Space"
| "space (Ext_Field field _) = Field_Space field"

definition resolve :: "external_ids \<Rightarrow> int \<Rightarrow> dump_error + string" where
  "resolve ids r =
     (if r < 0 then Inl (Negative_Row r)
      else case ids of
          Ext_Row \<Rightarrow> Inr (int_str r)
        | Ext_Field field values \<Rightarrow>
            if nat r < length values then Inr (values ! nat r)
            else Inl (Row_Outside r (length values) field))"

fun docid_text :: "metadata_value \<Rightarrow> string option" where
  "docid_text (MString s) = Some s"
| "docid_text (MInt i) = Some (int_str i)"
| "docid_text _ = None"

definition docid_of :: "metadata_item option \<Rightarrow> string option" where
  "docid_of item = Option.bind item (\<lambda>m.
     Option.bind (List.find (\<lambda>(k, _). k = EXTERNAL_ID_FIELD) (payload_fields m)) (\<lambda>(_, v). docid_text v))"

definition external_ids_from_compound :: "(string \<Rightarrow> json option) \<Rightarrow> compound_dir \<Rightarrow> dump_error + external_ids" where
  "external_ids_from_compound parse_json dir =
     rbind (map_err Payload_Failure
             (visit_compound_metadata parse_json dir (\<lambda>values item. Inr (values @ [docid_of item])) []))
       (\<lambda>values. if values = [] then Inl No_Payload_Rows else from_field EXTERNAL_ID_FIELD values)"

definition external_ids_for_dataset ::
    "(string \<Rightarrow> json option) \<Rightarrow> string \<Rightarrow> string option \<Rightarrow> json option \<Rightarrow> dump_error + compound_dir \<Rightarrow>
       dump_error + external_ids" where
  "external_ids_for_dataset parse_json dataset_name dataset_type schema dir =
     (if Option.bind schema (jget EXTERNAL_ID_FIELD) = None then Inr Ext_Row
      else if dataset_type \<noteq> Some ''tar'' then Inl (Docid_Not_Compound dataset_name)
      else rbind dir (external_ids_from_compound parse_json))"

section \<open>Compound identity\<close>

record compound_identity =
  analysis :: string
  query_sha256 :: string
  preparation_sha256 :: "string option"

definition sha256_hex :: "string \<Rightarrow> bool" where
  "sha256_hex h \<longleftrightarrow> length h = 64 \<and>
     list_all (\<lambda>c. is_digit c \<or> (97 \<le> byte c \<and> byte c \<le> 102)) h"

definition validate_identity :: "compound_identity \<Rightarrow> dump_error + unit" where
  "validate_identity ci =
     (if analysis ci \<notin> {''english'', ''parity''} then Inl Invalid_Analysis
      else check_each (\<lambda>h. if sha256_hex h then Inr () else Inl Invalid_Sha256)
             (query_sha256 ci # (case preparation_sha256 ci of None \<Rightarrow> [] | Some p \<Rightarrow> [p])))"

definition preparation_of :: "json \<Rightarrow> dump_error + string option" where
  "preparation_of c = (case jget ''preparation_sha256'' c of
       Some Null \<Rightarrow> Inr None
     | Some (String s) \<Rightarrow> Inr (Some s)
     | _ \<Rightarrow> Inl Compound_Lacks_Preparation)"

definition identity_from_metadata :: "json option \<Rightarrow> dump_error + compound_identity option" where
  "identity_from_metadata metadata =
     (case Option.bind metadata (jget ''compound'') of
        None \<Rightarrow> Inr None
      | Some c \<Rightarrow>
          rbind (ok_or Compound_Lacks_Analysis
                  (Option.bind metadata (\<lambda>md. as_string (jindex md ''analysis'')))) (\<lambda>a.
          rbind (ok_or Compound_Lacks_Query_Sha (as_string (jindex c ''sha256''))) (\<lambda>q.
          rbind (preparation_of c) (\<lambda>p.
            let identity = \<lparr>analysis = a, query_sha256 = q, preparation_sha256 = p\<rparr>
            in rbind (validate_identity identity) (\<lambda>_. Inr (Some identity))))))"

section \<open>Dump records\<close>

record dump_header =
  schema_version :: nat
  engine :: string
  config :: string
  dataset :: string
  header_workload :: workload
  parallel :: nat
  header_top :: nat
  search_id :: nat
  header_id_space :: id_space
  header_layout :: "string option"
  identity :: "compound_identity option"

record query_record =
  query_id :: nat
  seq :: nat
  shape :: "string option"
  ids :: "string list"
  scores :: "f64v list option"
  total :: "nat option"
  latency :: f64v
  error :: "string option"
  expected :: "string list option"

definition answered :: "query_record \<Rightarrow> bool" where
  "answered r \<longleftrightarrow> error r = None"

datatype dump_line = Header dump_header | Query query_record

record dump =
  header :: dump_header
  records :: "query_record list"

text \<open>
  \<open>prepare_dump_dir\<close>: the outcome of \<open>create_dir_all\<close> and the entries \<open>read_dir\<close> yields are the
  file system's, each entry a name or the error of reading it.
\<close>

definition prepare_dump_dir :: "string + unit \<Rightarrow> string + (string + string) list \<Rightarrow> dump_error + unit" where
  "prepare_dump_dir created listing =
     rbind (map_err Dir_Failure created) (\<lambda>_.
     rbind (map_err Dir_Failure listing) (\<lambda>entries.
       case entries of
         [] \<Rightarrow> Inr ()
       | entry # _ \<Rightarrow> Inl (Dir_Not_Empty (case entry of Inl e \<Rightarrow> e | Inr name \<Rightarrow> name))))"

definition validate_capture :: "nat \<Rightarrow> nat \<Rightarrow> dump_error + unit" where
  "validate_capture n requested_queries =
     (if n \<noteq> requested_queries then Inl (Capture_Mismatch n requested_queries) else Inr ())"

definition raw_scores :: "raw_hit list \<Rightarrow> f64v list option" where
  "raw_scores hs =
     (if hs \<noteq> [] \<and> list_all (\<lambda>h. score h \<noteq> None) hs
      then Some (map (\<lambda>h. case score h of Some s \<Rightarrow> s | None \<Rightarrow> Finite 0) hs)
      else None)"

definition resolve_expected ::
    "external_ids \<Rightarrow> int list list option \<Rightarrow> nat \<Rightarrow> nat \<Rightarrow> dump_error + string list option" where
  "resolve_expected ext gt k q =
     (case gt of
        None \<Rightarrow> Inr None
      | Some rows \<Rightarrow>
          if q < length rows
          then rbind (map_err (In_Ground_Truth q)
                 (traverse (resolve ext) (take k (filter (\<lambda>i. i \<ge> 0) (rows ! q))))) (\<lambda>es.
               Inr (Some es))
          else Inl (No_Ground_Truth_Row q (length rows)))"

definition resolve_record ::
    "external_ids \<Rightarrow> int list list option \<Rightarrow> nat \<Rightarrow> (nat \<Rightarrow> string option) \<Rightarrow> raw_query_result \<Rightarrow>
       dump_error + query_record" where
  "resolve_record ext gt k shape_of r =
     rbind (map_err (In_Query (raw_query_id r)) (traverse (\<lambda>h. resolve ext (row h)) (raw_hits r))) (\<lambda>resolved.
     rbind (resolve_expected ext gt k (raw_query_id r)) (\<lambda>ex.
       Inr \<lparr>query_id = raw_query_id r, seq = raw_seq r, shape = shape_of (raw_query_id r),
            ids = resolved, scores = raw_scores (raw_hits r), total = raw_total r,
            latency = raw_latency r, error = raw_error r, expected = ex\<rparr>))"

definition resolve_records ::
    "raw_query_result list \<Rightarrow> external_ids \<Rightarrow> int list list option \<Rightarrow> nat \<Rightarrow> (nat \<Rightarrow> string option) \<Rightarrow>
       dump_error + query_record list" where
  "resolve_records raw ext gt k shape_of =
     rbind (traverse (resolve_record ext gt k shape_of) raw) (\<lambda>out. Inr (sort_key seq out))"

section \<open>The file\<close>

text \<open>
  Characters that are not ASCII take several bytes and become one \<open>_\<close>; continuation bytes add
  nothing.
\<close>

definition safe_char :: "char \<Rightarrow> bool" where
  "safe_char c \<longleftrightarrow> is_alnum c \<or> c \<in> {CHR ''-'', CHR ''_'', CHR ''.''}"

fun sanitize :: "string \<Rightarrow> string" where
  "sanitize [] = []"
| "sanitize (c # cs) =
     (if safe_char c then c # sanitize cs
      else if cont (byte c) then sanitize cs
      else CHR ''_'' # sanitize cs)"

definition dump_file_name :: "dump_header \<Rightarrow> string" where
  "dump_file_name h =
     sanitize (config h) @ ''--'' @ sanitize (dataset h) @ ''--'' @ as_str (header_workload h) @
     ''--p'' @ nat_str (parallel h) @ ''--s'' @ nat_str (search_id h) @ ''.jsonl''"

text \<open>Writing to a writer that accepts everything; a line that does not serialize is an error.\<close>

definition write_dump ::
    "(dump_line \<Rightarrow> string + string) \<Rightarrow> dump_header \<Rightarrow> query_record list \<Rightarrow> dump_error + string" where
  "write_dump to_line h rs =
     rbind (traverse (\<lambda>v. rbind (map_err Write_Failure (to_line v)) (\<lambda>l. Inr (l @ [lf])))
             (Header h # map Query rs)) (\<lambda>ls. Inr (concat ls))"

definition accept_header :: "dump_header \<Rightarrow> dump_error + unit" where
  "accept_header h =
     (if schema_version h \<noteq> DUMP_SCHEMA_VERSION then Inl (Schema_Version (schema_version h))
      else case identity h of None \<Rightarrow> Inr () | Some i \<Rightarrow> validate_identity i)"

fun read_loop ::
    "(string \<Rightarrow> dump_line option) \<Rightarrow> nat \<Rightarrow> dump_header option \<Rightarrow> query_record list \<Rightarrow> string list \<Rightarrow>
       dump_error + dump_header option \<times> query_record list" where
  "read_loop parse n hdr rs [] = Inr (hdr, rs)"
| "read_loop parse n hdr rs (l # ls) =
     (if \<not> valid_utf8 l then Inl (Line_Failure (n + 1))
      else if blank l then read_loop parse (n + 1) hdr rs ls
      else case parse l of
          None \<Rightarrow> Inl (Line_Failure (n + 1))
        | Some (Header h) \<Rightarrow>
            (if hdr = None then rbind (accept_header h) (\<lambda>_. read_loop parse (n + 1) (Some h) rs ls)
             else Inl (Second_Header (n + 1)))
        | Some (Query q) \<Rightarrow>
            (if hdr = None then Inl (Query_Before_Header (n + 1))
             else read_loop parse (n + 1) hdr (rs @ [q]) ls))"

definition read_dump :: "(string \<Rightarrow> dump_line option) \<Rightarrow> string \<Rightarrow> dump_error + dump" where
  "read_dump parse s =
     rbind (read_loop parse 0 None [] (buf_lines s)) (\<lambda>(hdr, rs).
     rbind (ok_or No_Header hdr) (\<lambda>h. Inr \<lparr>header = h, records = rs\<rparr>))"

definition first_step ::
    "query_record \<Rightarrow> (nat \<times> query_record) list \<times> nat set \<Rightarrow> (nat \<times> query_record) list \<times> nat set" where
  "first_step r acc = (case acc of (ans, att) \<Rightarrow>
     (if answered r \<and> map_of ans (query_id r) = None then ans @ [(query_id r, r)] else ans,
      insert (query_id r) att))"

definition first_answers :: "query_record list \<Rightarrow> (nat \<times> query_record) list \<times> nat list" where
  "first_answers rs =
     (let (ans, att) = fold first_step (sort_key seq rs) ([], {})
      in (ans, filter (\<lambda>q. map_of ans q = None) (sorted_list_of_set att)))"

section \<open>First answers\<close>

definition first_answer :: "query_record list \<Rightarrow> nat \<Rightarrow> query_record option" where
  "first_answer rs q = List.find (\<lambda>r. query_id r = q \<and> answered r) (sort_key seq rs)"

lemma fold_first_step:
  "fold first_step xs (ans, att) = (ans', att') \<Longrightarrow>
     att' = att \<union> query_id ` set xs \<and>
     map_of ans' q = (case map_of ans q of
        Some r \<Rightarrow> Some r
      | None \<Rightarrow> List.find (\<lambda>r. query_id r = q \<and> answered r) xs)"
proof (induction xs arbitrary: ans att)
  case (Cons x xs)
  obtain a t where step: "first_step x (ans, att) = (a, t)" by (cases "first_step x (ans, att)")
  with Cons.prems have "fold first_step xs (a, t) = (ans', att')" by simp
  note ih = Cons.IH [OF this]
  have "t = insert (query_id x) att"
    and a: "a = (if answered x \<and> map_of ans (query_id x) = None then ans @ [(query_id x, x)] else ans)"
    using step by (auto simp: first_step_def)
  moreover have "map_of a q = (case map_of ans q of
        Some r \<Rightarrow> Some r
      | None \<Rightarrow> if query_id x = q \<and> answered x then Some x else None)"
    unfolding a by (auto simp: map_add_def split: option.splits)
  ultimately show ?case using ih by (auto split: option.splits)
qed (simp split: option.splits)

lemma fold_first_step_distinct:
  "fold first_step xs (ans, att) = (ans', att') \<Longrightarrow> distinct (map fst ans) \<Longrightarrow> distinct (map fst ans')"
proof (induction xs arbitrary: ans att)
  case (Cons x xs)
  obtain a t where step: "first_step x (ans, att) = (a, t)" by (cases "first_step x (ans, att)")
  then have "distinct (map fst a)"
    using Cons.prems(2) by (auto simp: first_step_def map_of_eq_None_iff split: if_splits)
  with Cons.IH [of a t] Cons.prems step show ?case by simp
qed simp

lemma first_answers_lookup: "map_of (fst (first_answers rs)) q = first_answer rs q"
proof -
  obtain a t where f: "fold first_step (sort_key seq rs) ([], {}) = (a, t)" by (meson surj_pair)
  show ?thesis using fold_first_step [OF f, of q] by (simp add: first_answers_def f first_answer_def)
qed

lemma first_answers_distinct: "distinct (map fst (fst (first_answers rs)))"
proof -
  obtain a t where f: "fold first_step (sort_key seq rs) ([], {}) = (a, t)" by (meson surj_pair)
  show ?thesis using fold_first_step_distinct [OF f] by (simp add: first_answers_def f)
qed

lemma first_answers_unanswered:
  "snd (first_answers rs) =
     filter (\<lambda>q. first_answer rs q = None) (sorted_list_of_set (query_id ` set rs))"
proof -
  obtain a t where f: "fold first_step (sort_key seq rs) ([], {}) = (a, t)" by (meson surj_pair)
  have "t = query_id ` set rs" using fold_first_step [OF f] by simp
  moreover have "map_of a q = first_answer rs q" for q
    using fold_first_step [OF f, of q] by (simp add: first_answer_def)
  ultimately show ?thesis by (simp add: first_answers_def f)
qed

lemma first_answer_None_iff:
  "first_answer rs q = None \<longleftrightarrow> (\<forall>r \<in> set rs. query_id r = q \<longrightarrow> \<not> answered r)"
  by (auto simp: first_answer_def find_None_iff_all)

lemma sorted_key_find_least:
  assumes "List.find P xs = Some r" and "sorted (map f xs)" and "x \<in> set xs" and "P x"
  shows "f r \<le> f x"
  using assms
proof (induction xs)
  case (Cons y ys)
  then show ?case by (cases "P y") auto
qed simp

lemma first_answer_SomeD:
  assumes "first_answer rs q = Some r"
  shows "r \<in> set rs" and "query_id r = q" and "answered r"
    and "\<And>x. x \<in> set rs \<Longrightarrow> query_id x = q \<Longrightarrow> answered x \<Longrightarrow> seq r \<le> seq x"
  using assms find_Some_mem [of _ "sort_key seq rs" r]
    sorted_key_find_least [of "\<lambda>r. query_id r = q \<and> answered r" "sort_key seq rs" r seq]
  by (auto simp: first_answer_def)

section \<open>External ids of a dataset\<close>

lemma resolve_field_iff:
  "resolve (Ext_Field f vs) r = Inr s \<longleftrightarrow> 0 \<le> r \<and> nat r < length vs \<and> s = vs ! nat r"
  by (auto simp: resolve_def)

lemma from_field_Inr_iff:
  "from_field f vals = Inr e \<longleftrightarrow> (\<exists>vs. e = Ext_Field f vs \<and> vals = map Some vs)"
proof -
  have "traverse (\<lambda>(r, v). ok_or (Row_Without_Field r f) v) (enumerate n vals) = Inr vs \<longleftrightarrow>
      vals = map Some vs" for n vs
  proof (induction vals arbitrary: n vs)
    case (Cons v rest)
    then show ?case by (cases vs) auto
  qed auto
  then show ?thesis by (auto simp: from_field_def)
qed

lemma external_ids_from_compound_Inr:
  assumes "external_ids_from_compound parse dir = Inr e"
  obtains vs doc items where "e = Ext_Field EXTERNAL_ID_FIELD vs" and "payloads_jsonl dir = Some doc"
    and "vectors_npy dir = Inr (length vs)" and "vs \<noteq> []"
    and "read_payloads_jsonl parse doc = Inr items" and "map docid_of items = map Some vs"
proof -
  obtain vals where visit: "visit_compound_metadata parse dir
        (\<lambda>vals item. Inr (vals @ [docid_of item])) [] = (Inr vals :: string payload_error + _)"
    and ne: "vals \<noteq> []" and ff: "from_field EXTERNAL_ID_FIELD vals = Inr e"
    using assms by (auto simp: external_ids_from_compound_def split: if_splits)
  from ff obtain vs where vs: "e = Ext_Field EXTERNAL_ID_FIELD vs" "vals = map Some vs"
    by (auto simp: from_field_Inr_iff)
  from visit ne obtain doc where doc: "payloads_jsonl dir = Some doc"
    by (cases "payloads_jsonl dir") (auto simp: visit_compound_metadata_def)
  with visit obtain items where items:
      "traverse (\<lambda>(i, l). payload_row parse i l) (enumerate 0 (read_lines doc)) =
         (Inr items :: string payload_error + _)"
    and n: "vectors_npy dir = Inr (length (read_lines doc))" and veq: "vals = map docid_of items"
    by (auto simp: visit_compound_metadata_def visit_payloads_jsonl_def visit_lines_push split: if_splits)
  from items have "length items = length (read_lines doc)" using traverse_InrD(1) by fastforce
  with that vs doc items n veq ne show thesis
    by (metis length_map read_payloads_jsonl_eq list.map_disc_iff)
qed

section \<open>Writing and reading\<close>

lemma read_loop_Some:
  "read_loop parse n (Some h) rs ls = Inr (hdr, out) \<longleftrightarrow> hdr = Some h \<and> list_all valid_utf8 ls \<and>
    (\<exists>qs. out = rs @ qs \<and> map parse (filter (\<lambda>l. \<not> blank l) ls) = map (\<lambda>q. Some (Query q)) qs)"
proof (induction ls arbitrary: n rs)
  case (Cons l ls)
  show ?case
  proof (cases "valid_utf8 l \<and> \<not> blank l")
    case True
    then show ?thesis
      by (cases "parse l") (auto simp: Cons.IH Cons_eq_map_conv split: dump_line.splits)
  qed (auto simp: Cons.IH)
qed auto

lemma read_loop_None:
  "read_loop parse n None [] ls = Inr (Some h, out) \<longleftrightarrow> accept_header h = Inr () \<and> list_all valid_utf8 ls \<and>
    map parse (filter (\<lambda>l. \<not> blank l) ls) = map Some (Header h # map Query out)"
proof (induction ls arbitrary: n)
  case (Cons l ls)
  show ?case
  proof (cases "valid_utf8 l \<and> \<not> blank l")
    case True
    then show ?thesis
      by (cases "parse l") (auto simp: read_loop_Some comp_def split: dump_line.splits)
  qed (auto simp: Cons.IH)
qed simp

lemma write_lines_iff:
  "traverse (\<lambda>v. rbind (map_err Write_Failure (to_line v)) (\<lambda>l. Inr (l @ [lf]))) ls = Inr out \<longleftrightarrow>
    (\<exists>ts. map to_line ls = map Inr ts \<and> out = map (\<lambda>l. l @ [lf]) ts)"
proof (induction ls arbitrary: out)
  case (Cons l ls)
  then show ?case by (cases "to_line l") (auto simp: Cons_eq_map_conv)
qed auto

section \<open>File names\<close>

lemma set_sanitize: "c \<in> set (sanitize s) \<Longrightarrow> safe_char c"
  by (induction s) (auto simp: safe_char_def split: if_splits)

lemma suffix_free_append:
  assumes "u @ x # s = v @ x # t" and "x \<notin> set s" and "x \<notin> set t"
  shows "u = v \<and> s = t"
proof -
  have "takeWhile (\<lambda>c. c \<noteq> x) (rev (u @ x # s)) = rev s" "takeWhile (\<lambda>c. c \<noteq> x) (rev (v @ x # t)) = rev t"
    using assms(2,3) by (auto simp: takeWhile_append)
  with assms(1) have "s = t" by simp
  with assms(1) show ?thesis by simp
qed

section \<open>Properties\<close>

text \<open>
  C30: nothing is lost between the capture and the dump.  When \<open>resolve_records\<close> succeeds there is exactly
  one record per captured query, failed ones included, in dispatch order, with its query id, ordinal,
  total, latency and error unchanged; and every record names its documents, in engine rank order, by
  the external ids of the rows its capture returned, all of them resolved in the one id space of the
  dataset.
\<close>

theorem resolve_records_faithful:
  assumes "resolve_records raw ext gt k shape_of = Inr out"
  shows "sorted (map seq out) \<and>
    image_mset (\<lambda>r. (query_id r, seq r, total r, latency r, error r)) (mset out) =
      image_mset (\<lambda>c. (raw_query_id c, raw_seq c, raw_total c, raw_latency c, raw_error c)) (mset raw) \<and>
    (\<forall>r \<in> set out. \<exists>c \<in> set raw. query_id r = raw_query_id c \<and> seq r = raw_seq c \<and>
       list_all2 (\<lambda>h i. resolve ext (row h) = Inr i) (raw_hits c) (ids r))"
proof -
  obtain ys where t: "traverse (resolve_record ext gt k shape_of) raw = Inr ys" and o: "out = sort_key seq ys"
    using assms by (auto simp: resolve_records_def)
  have rec: "list_all2 (\<lambda>c r. (query_id r, seq r, total r, latency r, error r) =
        (raw_query_id c, raw_seq c, raw_total c, raw_latency c, raw_error c) \<and>
        list_all2 (\<lambda>h i. resolve ext (row h) = Inr i) (raw_hits c) (ids r)) raw ys"
    using t [unfolded traverse_Inr_iff]
    by (rule list_all2_mono) (auto simp: resolve_record_def traverse_Inr_iff)
  have "map (\<lambda>r. (query_id r, seq r, total r, latency r, error r)) ys =
      map (\<lambda>c. (raw_query_id c, raw_seq c, raw_total c, raw_latency c, raw_error c)) raw"
    using rec by (induction) auto
  then have "image_mset (\<lambda>r. (query_id r, seq r, total r, latency r, error r)) (mset out) =
      image_mset (\<lambda>c. (raw_query_id c, raw_seq c, raw_total c, raw_latency c, raw_error c)) (mset raw)"
    by (simp add: o flip: mset_map)
  moreover have "\<exists>c \<in> set raw. query_id r = raw_query_id c \<and> seq r = raw_seq c \<and>
      list_all2 (\<lambda>h i. resolve ext (row h) = Inr i) (raw_hits c) (ids r)" if "r \<in> set out" for r
  proof -
    from that obtain i where "i < length ys" "r = ys ! i" by (auto simp: o in_set_conv_nth)
    then show ?thesis
      using rec by (intro bexI [where x = "raw ! i"]) (auto simp: list_all2_conv_all_nth)
  qed
  ultimately show ?thesis by (simp add: o)
qed

definition sample_raw :: "raw_query_result list" where
  "sample_raw = [raw_ok 4 1 [\<lparr>row = 1, score = Some (Finite 2)\<rparr>, \<lparr>row = 0, score = None\<rparr>] None (Finite 1),
                 raw_failed 7 0 (Finite 1) ''timeout'']"

theorem resolve_records_faithful_witness:
  "\<exists>out. resolve_records sample_raw (Ext_Field ''docid'' [''a'', ''b'']) None 10 (\<lambda>_. None) = Inr out \<and>
     map seq out = [0, 1] \<and> sorted (map seq out)"
proof -
  have r: "resolve_records sample_raw (Ext_Field ''docid'' [''a'', ''b'']) None 10 (\<lambda>_. None) = Inr
     [\<lparr>query_id = 7, seq = 0, shape = None, ids = [], scores = None, total = None,
       latency = Finite 1, error = Some ''timeout'', expected = None\<rparr>,
      \<lparr>query_id = 4, seq = 1, shape = None, ids = [''b'', ''a''], scores = None, total = None,
       latency = Finite 1, error = None, expected = None\<rparr>]"
    by (simp add: sample_raw_def resolve_records_def resolve_record_def resolve_def resolve_expected_def
        raw_ok_def raw_failed_def raw_scores_def)
  from resolve_records_faithful [OF r] r show ?thesis by simp
qed

text \<open>
  C34: what a dump file holds.  \<open>write_dump\<close> succeeds exactly when every line serializes, and then writes the header
  line, the lines of the records in order, and nothing else, each ended by a line feed.  \<open>read_dump\<close> accepts a file
  exactly when all its lines are UTF-8, the first line that is not blank parses as a header of the supported schema
  with a valid compound identity, and every other line that is not blank parses as a record; it then returns that
  header and the records of those lines in file order, none skipped, merged or repeated.  Nothing is assumed of
  \<open>serde_json\<close>: whether a number survives its text form is a property of the two parameters.
\<close>

theorem dump_file_iff:
  "(write_dump to_line h rs = Inr s \<longleftrightarrow>
      (\<exists>ts. map to_line (Header h # map Query rs) = map Inr ts \<and> s = concat (map (\<lambda>t. t @ [lf]) ts))) \<and>
   (read_dump parse s = Inr d \<longleftrightarrow>
      list_all valid_utf8 (buf_lines s) \<and> accept_header (header d) = Inr () \<and>
      map parse (filter (\<lambda>l. \<not> blank l) (buf_lines s)) = map Some (Header (header d) # map Query (records d)))"
proof
  show "write_dump to_line h rs = Inr s \<longleftrightarrow>
      (\<exists>ts. map to_line (Header h # map Query rs) = map Inr ts \<and> s = concat (map (\<lambda>t. t @ [lf]) ts))"
    unfolding write_dump_def rbind_Inr_iff write_lines_iff sum.inject by blast
  have "read_dump parse s = Inr d \<longleftrightarrow> read_loop parse 0 None [] (buf_lines s) = Inr (Some (header d), records d)"
    by (cases d) (auto simp: read_dump_def rbind_Inr_iff split: option.splits)
  then show "read_dump parse s = Inr d \<longleftrightarrow>
      list_all valid_utf8 (buf_lines s) \<and> accept_header (header d) = Inr () \<and>
      map parse (filter (\<lambda>l. \<not> blank l) (buf_lines s)) = map Some (Header (header d) # map Query (records d))"
    unfolding read_loop_None by blast
qed

text \<open>
  An external id is the id of its row.  When the dataset's schema declares \<open>docid\<close>, an accepted map
  comes from a compound dataset whose payload file has one line per vector, covers every row id of the
  corpus and no other, and sends row \<open>i\<close> to the \<open>docid\<close> of payload line \<open>i\<close>; there is no row for which
  it silently falls back to the decimal row id.
\<close>

theorem external_ids_by_row:
  assumes "external_ids_for_dataset parse name ty schema (Inr dir) = Inr ext"
    and "Option.bind schema (jget EXTERNAL_ID_FIELD) \<noteq> None"
  shows "ty = Some ''tar'' \<and> space ext = Field_Space ''docid'' \<and>
    (\<exists>doc items n. payloads_jsonl dir = Some doc \<and> vectors_npy dir = Inr n \<and>
       read_payloads_jsonl parse doc = Inr items \<and> length items = n \<and> 0 < n \<and>
       (\<forall>i s. resolve ext i = Inr s \<longleftrightarrow> 0 \<le> i \<and> i < int n \<and> docid_of (items ! nat i) = Some s))"
proof -
  from assms have ty: "ty = Some ''tar''" and "external_ids_from_compound parse dir = Inr ext"
    by (auto simp: external_ids_for_dataset_def split: if_splits)
  from external_ids_from_compound_Inr [OF this(2)] obtain vs doc items where
    ext: "ext = Ext_Field EXTERNAL_ID_FIELD vs" and p: "payloads_jsonl dir = Some doc"
    and n: "vectors_npy dir = Inr (length vs)" and ne: "vs \<noteq> []"
    and items: "read_payloads_jsonl parse doc = Inr items" and d: "map docid_of items = map Some vs"
    by metis
  from d have len: "length items = length vs" by (metis length_map)
  have "docid_of (items ! j) = Some (vs ! j)" if "j < length vs" for j
    using arg_cong [OF d, of "\<lambda>l. l ! j"] that len by simp
  then have res: "resolve ext i = Inr s \<longleftrightarrow>
      0 \<le> i \<and> i < int (length vs) \<and> docid_of (items ! nat i) = Some s" for i s
    by (auto simp: ext resolve_field_iff nat_less_iff)
  show ?thesis
  proof (intro conjI exI)
    show "space ext = Field_Space ''docid''" by (simp add: ext EXTERNAL_ID_FIELD_def)
    show "\<forall>i s. resolve ext i = Inr s \<longleftrightarrow>
        0 \<le> i \<and> i < int (length vs) \<and> docid_of (items ! nat i) = Some s" using res by blast
  qed (use ty p n items len ne in simp_all)
qed

theorem external_ids_by_row_witness:
  "\<exists>ext. external_ids_for_dataset (\<lambda>_. Some (Object [(''docid'', String ''d7'')])) ''msmarco'' (Some ''tar'')
      (Some (Object [(''docid'', String ''keyword'')]))
      (Inr \<lparr>vectors_npy = Inr 1, payloads_jsonl = Some (''x'' @ [lf])\<rparr>) = Inr ext \<and>
     space ext = Field_Space ''docid''"
proof -
  let ?parse = "\<lambda>_. Some (Object [(''docid'', String ''d7'')])"
  let ?dir = "\<lparr>vectors_npy = Inr 1, payloads_jsonl = Some (''x'' @ [lf])\<rparr>"
  have r: "external_ids_for_dataset ?parse ''msmarco'' (Some ''tar'')
      (Some (Object [(''docid'', String ''keyword'')])) (Inr ?dir) = Inr (Ext_Field ''docid'' [''d7''])"
    by (simp add: external_ids_for_dataset_def external_ids_from_compound_def visit_compound_metadata_def
        visit_payloads_jsonl_def read_lines_def lf_def payload_row_def valid_utf8_def blank_def trim_def white_space_def strip_any.simps byte_def
        docid_of_def EXTERNAL_ID_FIELD_def from_field_def map_filter_simps)
  have h: "Option.bind (Some (Object [(''docid'', String ''keyword'')])) (jget EXTERNAL_ID_FIELD) \<noteq> None"
    by (simp add: EXTERNAL_ID_FIELD_def)
  from external_ids_by_row [OF r h] r show ?thesis by blast
qed

end
