(* ===== verification/Compare_Results.thy ===== *)
theory Compare_Results
  imports Results_Dump "HOL-Library.List_Lexorder" "HOL-Library.Char_ord"
    "HOL-Library.Product_Lexorder" "HOL-Library.Option_ord"
begin

text \<open>
  The \<open>compare-results\<close> command: \<open>src/src/compare_results.rs\<close>.  Two sets of dumps are paired, the queries
  of a pair are classified by who answered them, and the answers are scored per query shape.

  A \<open>BTreeMap\<close> is its entries in ascending key order: strings compare bytewise, tuples and options
  lexicographically, as Rust's derived orders do.  Scores are \<open>f64\<close>, rounded operation by operation.
\<close>

section \<open>Reports\<close>

record side_info =
  side_engine :: string
  side_config :: string
  side_file :: string
  side_parallel :: nat
  queries_attempted :: nat
  queries_answered :: nat
  failed_attempts :: nat

record count_agreement =
  ca_queries :: nat
  exact_matches :: nat
  fraction :: "real option"
  max_abs_diff :: nat
  complete_pages :: nat
  complete_page_set_agreement :: "real option"

record shape_report =
  sr_shape :: string
  sr_queries :: nat
  sr_overlap :: "real option"
  sr_jaccard :: "real option"
  sr_rank_correlation :: "real option"
  rank_correlation_queries :: nat
  sr_count_agreement :: "count_agreement option"
  recall_reference :: "real option"
  recall_candidate :: "real option"

datatype side = Reference | Candidate

record one_sided =
  os_query_id :: nat
  answered_by :: side

datatype compare_warning =
    Compound_Layouts string string
  | Layout_Kinds string string bool string string bool

record pair_report =
  pr_dataset :: string
  pr_workload :: workload
  pr_k :: nat
  pr_reference :: side_info
  pr_candidate :: side_info
  shapes :: "shape_report list"
  pr_one_sided :: "one_sided list"
  unanswered_by_both :: "nat list"
  warnings :: "compare_warning list"

record report =
  reference_engine :: string
  pairs :: "pair_report list"
  unpaired :: "string list"
  one_sided_total :: nat
  failed_attempts_total :: nat

datatype compare_error =
    Identity_Differs string string
  | Dataset_Differs string string string string
  | Workload_Differs string string workload workload
  | Id_Space_Differs string string id_space id_space
  | Top_Differs string string nat nat
  | Truth_Differs nat string string
  | Truth_One_Side nat string string
  | Empty_Side
  | Not_The_Reference string
  | Duplicate_Key side string string
  | No_Pairs "string list"

definition passed_allowing_unpaired :: "report \<Rightarrow> bool \<Rightarrow> bool" where
  "passed_allowing_unpaired r allow_unpaired \<longleftrightarrow>
     one_sided_total r = 0 \<and> failed_attempts_total r = 0 \<and> (allow_unpaired \<or> unpaired r = [])"

definition passed :: "report \<Rightarrow> bool" where
  "passed r = passed_allowing_unpaired r False"

section \<open>Scores of one query\<close>

definition top_k :: "string list \<Rightarrow> nat \<Rightarrow> string list" where
  "top_k xs k = topk k xs"

definition overlap_at_k :: "string list \<Rightarrow> string list \<Rightarrow> nat \<Rightarrow> real" where
  "overlap_at_k reference candidate k =
     (let r = top_k reference k; c = set (top_k candidate k) in
      if r = [] then (if c = {} then 1 else 0)
      else fdiv (f64_of_nat (count_in c r)) (f64_of_nat (length r)))"

definition jaccard_at_k :: "string list \<Rightarrow> string list \<Rightarrow> nat \<Rightarrow> real" where
  "jaccard_at_k reference candidate k =
     (let r = set (top_k reference k); c = set (top_k candidate k); u = card (r \<union> c) in
      if u = 0 then 1 else fdiv (f64_of_nat (card (r \<inter> c))) (f64_of_nat u))"

text \<open>The double loop over \<open>i < j\<close>.\<close>

fun tau_score :: "nat list \<Rightarrow> int" where
  "tau_score [] = 0"
| "tau_score (p # ps) = sum_list (map (\<lambda>q. if p < q then 1 else - 1) ps) + tau_score ps"

definition shared_positions :: "string list \<Rightarrow> string list \<Rightarrow> nat \<Rightarrow> nat list" where
  "shared_positions reference candidate k =
     (let c = top_k candidate k
      in List.map_filter (map_of (zip c [0..<length c])) (top_k reference k))"

definition rank_correlation :: "string list \<Rightarrow> string list \<Rightarrow> nat \<Rightarrow> real option" where
  "rank_correlation reference candidate k =
     (let pos = shared_positions reference candidate k; n = length pos in
      if n < 2 then None
      else Some (fdiv (rnd64 (of_int (tau_score pos))) (f64_of_nat (n * (n - 1) div 2))))"

definition recall_at_k :: "string list \<Rightarrow> string list \<Rightarrow> nat \<Rightarrow> real option" where
  "recall_at_k xs truth k =
     (let ex = set truth in
      if ex = {} then None
      else Some (fdiv (f64_of_nat (count_in ex (top_k xs k))) (f64_of_nat (card ex))))"

definition mean :: "real list \<Rightarrow> real option" where
  "mean v = (if v = [] then None else Some (fdiv (fsum v) (f64_of_nat (length v))))"

section \<open>Scores of a shape\<close>

fun both_totals :: "query_record \<times> query_record \<Rightarrow> (nat \<times> nat \<times> bool) option" where
  "both_totals (r, c) = (case (total r, total c) of
       (Some rt, Some ct) \<Rightarrow> Some (rt, ct, set (ids r) = set (ids c))
     | _ \<Rightarrow> None)"

definition count_totals :: "nat \<Rightarrow> (query_record \<times> query_record) list \<Rightarrow> count_agreement" where
  "count_totals k qs =
     (let ts = List.map_filter both_totals qs;
          with_totals = length ts;
          exact = length (filter (\<lambda>(rt, ct, _). rt = ct) ts);
          comp = filter (\<lambda>(rt, ct, _). rt \<le> k \<and> ct \<le> k) ts;
          complete = length comp;
          complete_equal = length (filter (\<lambda>(_, _, same). same) comp)
      in \<lparr>ca_queries = with_totals, exact_matches = exact,
          fraction = (if with_totals > 0 then Some (fdiv (f64_of_nat exact) (f64_of_nat with_totals)) else None),
          max_abs_diff = foldl (\<lambda>d (rt, ct, _). max d (abs_diff rt ct)) 0 ts,
          complete_pages = complete,
          complete_page_set_agreement =
            (if complete > 0 then Some (fdiv (f64_of_nat complete_equal) (f64_of_nat complete)) else None)\<rparr>)"

definition recalls :: "workload \<Rightarrow> nat \<Rightarrow> query_record list \<Rightarrow> real list" where
  "recalls w k rs =
     (if has_ground_truth w
      then List.map_filter (\<lambda>r. Option.bind (expected r) (\<lambda>ex. recall_at_k (ids r) ex k)) rs
      else [])"

definition ranked_scores :: "workload \<Rightarrow> (query_record \<times> query_record \<Rightarrow> 'a) \<Rightarrow>
    (query_record \<times> query_record) list \<Rightarrow> 'a list" where
  "ranked_scores w f qs = (if is_ranked w then map f qs else [])"

definition shape_report_of ::
    "string \<Rightarrow> workload \<Rightarrow> nat \<Rightarrow> (query_record \<times> query_record) list \<Rightarrow> shape_report" where
  "shape_report_of name w k qs =
     (let overlap = ranked_scores w (\<lambda>(r, c). overlap_at_k (ids r) (ids c) k) qs;
          jaccard = ranked_scores w (\<lambda>(r, c). jaccard_at_k (ids r) (ids c) k) qs;
          tau = List.map_filter (\<lambda>t. t) (ranked_scores w (\<lambda>(r, c). rank_correlation (ids r) (ids c) k) qs)
      in \<lparr>sr_shape = name, sr_queries = length qs, sr_overlap = mean overlap, sr_jaccard = mean jaccard,
          sr_rank_correlation = mean tau, rank_correlation_queries = length tau,
          sr_count_agreement =
            (if \<not> is_ranked w \<or> list_ex (\<lambda>(r, c). total r \<noteq> None \<and> total c \<noteq> None) qs
             then Some (count_totals k qs) else None),
          recall_reference = mean (recalls w k (map fst qs)),
          recall_candidate = mean (recalls w k (map snd qs))\<rparr>)"

section \<open>One pair of dumps\<close>

definition side_info_of :: "string \<Rightarrow> dump \<Rightarrow> side_info" where
  "side_info_of name d =
     \<lparr>side_engine = engine (header d), side_config = config (header d), side_file = name,
      side_parallel = parallel (header d),
      queries_attempted = card (query_id ` set (records d)),
      queries_answered = length (fst (first_answers (records d))),
      failed_attempts = length (filter (\<lambda>r. \<not> answered r) (records d))\<rparr>"

definition dump_layout :: "dump_header \<Rightarrow> string \<times> bool" where
  "dump_layout h = (case header_layout h of
       Some l \<Rightarrow> (l, False)
     | None \<Rightarrow> if header_workload h = FilterOnly then (''no-vector'', True) else (''vector'', True))"

definition all_queries :: "dump \<Rightarrow> dump \<Rightarrow> nat list" where
  "all_queries rd cd = sorted_list_of_set (query_id ` (set (records rd) \<union> set (records cd)))"

type_synonym answers = "(nat \<times> query_record) list"

definition both_answered :: "answers \<Rightarrow> answers \<Rightarrow> nat \<Rightarrow> (nat \<times> query_record \<times> query_record) option" where
  "both_answered ra ca q = (case (map_of ra q, map_of ca q) of
       (Some r, Some c) \<Rightarrow> Some (q, r, c)
     | _ \<Rightarrow> None)"

definition one_answered :: "answers \<Rightarrow> answers \<Rightarrow> nat \<Rightarrow> one_sided option" where
  "one_answered ra ca q = (case (map_of ra q, map_of ca q) of
       (Some _, None) \<Rightarrow> Some \<lparr>os_query_id = q, answered_by = Reference\<rparr>
     | (None, Some _) \<Rightarrow> Some \<lparr>os_query_id = q, answered_by = Candidate\<rparr>
     | _ \<Rightarrow> None)"

definition none_answered :: "answers \<Rightarrow> answers \<Rightarrow> nat \<Rightarrow> bool" where
  "none_answered ra ca q \<longleftrightarrow> map_of ra q = None \<and> map_of ca q = None"

text \<open>\<open>groups.entry(key).or_default().push(v)\<close> on a \<open>BTreeMap\<close>.\<close>

fun entry_push :: "'k :: linorder \<Rightarrow> 'v \<Rightarrow> ('k \<times> 'v list) list \<Rightarrow> ('k \<times> 'v list) list" where
  "entry_push k v [] = [(k, [v])]"
| "entry_push k v ((k', vs) # m) =
     (if k < k' then (k, [v]) # (k', vs) # m
      else if k = k' then (k', vs @ [v]) # m
      else (k', vs) # entry_push k v m)"

definition check_truth :: "string \<Rightarrow> string \<Rightarrow> nat \<times> query_record \<times> query_record \<Rightarrow> compare_error + unit" where
  "check_truth rf cf t = (case t of (q, r, c) \<Rightarrow> (case (expected r, expected c) of
       (Some re, Some ce) \<Rightarrow> if re \<noteq> ce then Inl (Truth_Differs q rf cf) else Inr ()
     | (Some _, None) \<Rightarrow> Inl (Truth_One_Side q rf cf)
     | (None, Some _) \<Rightarrow> Inl (Truth_One_Side q rf cf)
     | (None, None) \<Rightarrow> Inr ()))"

definition shape_of_pair :: "workload \<Rightarrow> query_record \<Rightarrow> query_record \<Rightarrow> string" where
  "shape_of_pair w r c = (case shape r of
       Some s \<Rightarrow> s
     | None \<Rightarrow> (case shape c of Some s \<Rightarrow> s | None \<Rightarrow> as_str w))"

type_synonym groups = "(string \<times> (query_record \<times> query_record) list) list"

fun group_queries ::
    "string \<Rightarrow> string \<Rightarrow> workload \<Rightarrow> (nat \<times> query_record \<times> query_record) list \<Rightarrow> groups \<Rightarrow> compare_error + groups" where
  "group_queries rf cf w [] g = Inr g"
| "group_queries rf cf w ((q, r, c) # bs) g =
     rbind (check_truth rf cf (q, r, c)) (\<lambda>_.
       group_queries rf cf w bs (entry_push (shape_of_pair w r c) (r, c) g))"

definition layout_warnings :: "string \<Rightarrow> string \<Rightarrow> dump_header \<Rightarrow> dump_header \<Rightarrow> compare_warning list" where
  "layout_warnings rf cf rh ch =
     (case (dump_layout rh, dump_layout ch) of ((rl, r_inferred), (cl, c_inferred)) \<Rightarrow>
        (if identity rh \<noteq> None \<and> rl \<noteq> cl then [Compound_Layouts rl cl] else []) @
        (if (rl = ''vector'') \<noteq> (cl = ''vector'')
         then [Layout_Kinds rf rl r_inferred cf cl c_inferred] else []))"

definition compatible :: "string \<Rightarrow> dump_header \<Rightarrow> string \<Rightarrow> dump_header \<Rightarrow> compare_error + unit" where
  "compatible rf rh cf ch =
     (if identity rh \<noteq> identity ch then Inl (Identity_Differs rf cf)
      else if dataset rh \<noteq> dataset ch then Inl (Dataset_Differs rf cf (dataset rh) (dataset ch))
      else if header_workload rh \<noteq> header_workload ch
        then Inl (Workload_Differs rf cf (header_workload rh) (header_workload ch))
      else if header_id_space rh \<noteq> header_id_space ch
        then Inl (Id_Space_Differs rf cf (header_id_space rh) (header_id_space ch))
      else if header_top rh \<noteq> header_top ch then Inl (Top_Differs rf cf (header_top rh) (header_top ch))
      else Inr ())"

definition compare_pair :: "string \<times> dump \<Rightarrow> string \<times> dump \<Rightarrow> compare_error + pair_report" where
  "compare_pair reference candidate =
     (case (reference, candidate) of ((rf, rd), (cf, cd)) \<Rightarrow>
      let rh = header rd; ch = header cd; k = header_top rh; w = header_workload rh;
          ra = fst (first_answers (records rd)); ca = fst (first_answers (records cd));
          qs = all_queries rd cd
      in rbind (compatible rf rh cf ch) (\<lambda>_.
         rbind (group_queries rf cf w (List.map_filter (both_answered ra ca) qs) []) (\<lambda>groups.
           Inr \<lparr>pr_dataset = dataset rh, pr_workload = w, pr_k = k,
                pr_reference = side_info_of rf rd, pr_candidate = side_info_of cf cd,
                shapes = map (\<lambda>(name, gs). shape_report_of name w k gs) groups,
                pr_one_sided = List.map_filter (one_answered ra ca) qs,
                unanswered_by_both = filter (none_answered ra ca) qs,
                warnings = layout_warnings rf cf rh ch\<rparr>)))"

section \<open>Sets of dumps\<close>

definition names :: "dump \<Rightarrow> string \<Rightarrow> bool" where
  "names d e \<longleftrightarrow> engine (header d) = e \<or> config (header d) = e"

type_synonym pair_key = "string \<times> workload \<times> nat \<times> nat \<times> string \<times> nat option"

fun space_key :: "id_space \<Rightarrow> string" where
  "space_key Row_Space = ''row''"
| "space_key (Field_Space field) = field"

definition key :: "dump \<Rightarrow> pair_key" where
  "key d = (let h = header d in
     (dataset h, header_workload h, parallel h, header_top h, space_key (header_id_space h),
      map_option (\<lambda>_. search_id h) (identity h)))"

type_synonym keyed = "(pair_key \<times> string \<times> dump) list"

fun index_side :: "side \<Rightarrow> (string \<times> dump) list \<Rightarrow> keyed \<Rightarrow> compare_error + keyed" where
  "index_side label [] out = Inr out"
| "index_side label (entry # es) out =
     (case map_of out (key (snd entry)) of
        Some prev \<Rightarrow> Inl (Duplicate_Key label (fst prev) (fst entry))
      | None \<Rightarrow> index_side label es (insort_key fst (key (snd entry), entry) out))"

fun pair_up :: "keyed \<Rightarrow> keyed \<Rightarrow> compare_error + pair_report list \<times> string list" where
  "pair_up [] c = Inr ([], map (\<lambda>(_, f, _). f) c)"
| "pair_up ((k, rf, rd) # r) c =
     (case map_of c k of
        Some (cf, cd) \<Rightarrow>
          rbind (compare_pair (rf, rd) (cf, cd)) (\<lambda>p.
          rbind (pair_up r (filter (\<lambda>e. fst e \<noteq> k) c)) (\<lambda>(ps, us). Inr (p # ps, us)))
      | None \<Rightarrow> rbind (pair_up r c) (\<lambda>(ps, us). Inr (ps, rf # us)))"

definition sides :: "(string \<times> dump) list \<Rightarrow> (string \<times> dump) list \<Rightarrow> string \<Rightarrow>
    compare_error + (string \<times> dump) list \<times> (string \<times> dump) list" where
  "sides fs ss e =
     (if list_all (\<lambda>(_, d). names d e) fs then Inr (fs, ss)
      else if list_all (\<lambda>(_, d). names d e) ss then Inr (ss, fs)
      else Inl (Not_The_Reference e))"

definition pair_dumps :: "(string \<times> dump) list \<Rightarrow> (string \<times> dump) list \<Rightarrow>
    compare_error + pair_report list \<times> string list" where
  "pair_dumps reference candidate =
     (if length reference = 1 \<and> length candidate = 1
      then rbind (compare_pair (hd reference) (hd candidate)) (\<lambda>p. Inr ([p], []))
      else rbind (index_side Reference reference []) (\<lambda>r.
           rbind (index_side Candidate candidate []) (\<lambda>c. pair_up r c)))"

definition compare :: "(string \<times> dump) list \<Rightarrow> (string \<times> dump) list \<Rightarrow> string \<Rightarrow> compare_error + report" where
  "compare fs ss e =
     (if fs = [] \<or> ss = [] then Inl Empty_Side
      else rbind (sides fs ss e) (\<lambda>(reference, candidate).
           rbind (pair_dumps reference candidate) (\<lambda>(ps, us).
             if ps = [] then Inl (No_Pairs us)
             else Inr \<lparr>reference_engine = e, pairs = ps, unpaired = us,
                       one_sided_total = sum_list (map (\<lambda>p. length (pr_one_sided p)) ps),
                       failed_attempts_total = sum_list (map (\<lambda>p.
                         failed_attempts (pr_reference p) + failed_attempts (pr_candidate p)) ps)\<rparr>)))"

section \<open>Scores are exact at the extremes\<close>

lemma top_k_simps [simp]: "distinct (top_k xs k)" "length (top_k xs k) \<le> k"
  by (simp_all add: top_k_def)

lemma fdiv_signed_bounds:
  assumes "\<bar>a\<bar> \<le> b"
  shows "\<bar>fdiv (rnd64 a) (rnd64 b)\<bar> \<le> 1"
proof -
  have pos: "fdiv (rnd64 x) (rnd64 b) \<le> 1" if "x \<le> b" "0 \<le> x" for x
    unfolding fdiv_def by (rule f64.ratio_le_one [OF that])
  have nonneg: "0 \<le> fdiv (rnd64 x) (rnd64 b)" if "0 \<le> x" "x \<le> b" for x
    unfolding fdiv_def using that by (intro f64.ratio_nonneg) simp_all
  show ?thesis
  proof (cases "0 \<le> a")
    case True
    then show ?thesis using pos [of a] nonneg [of a] assms by simp
  next
    case False
    then have "fdiv (rnd64 a) (rnd64 b) = - fdiv (rnd64 (- a)) (rnd64 b)"
      by (simp add: fdiv_def rnd64_minus)
    then show ?thesis using pos [of "- a"] nonneg [of "- a"] assms False by simp
  qed
qed

lemma tau_row_bounds:
  "\<bar>sum_list (map (\<lambda>q. if p < q then 1 else - 1) ps)\<bar> \<le> int (length ps)"
  by (induction ps) auto

lemma tau_row_max:
  "sum_list (map (\<lambda>q. if p < q then 1 else - 1) ps) = int (length ps) \<longleftrightarrow> (\<forall>q \<in> set ps. p < q)"
proof (induction ps)
  case (Cons q ps)
  then show ?case using tau_row_bounds [of p ps] by auto
qed simp

lemma pairs_Suc: "Suc n * (Suc n - 1) div 2 = n + n * (n - 1) div 2"
proof -
  have "even (n * (n - 1))" by (cases "even n") auto
  then show ?thesis by (cases n) (auto elim!: evenE simp: algebra_simps)
qed

lemma tau_score_bounds: "\<bar>tau_score ps\<bar> \<le> int (length ps * (length ps - 1) div 2)"
proof (induction ps)
  case (Cons p ps)
  have "int (length (p # ps) * (length (p # ps) - 1) div 2) = int (length ps + length ps * (length ps - 1) div 2)"
    using pairs_Suc [of "length ps"] by simp
  then show ?case
    using order.trans [OF abs_triangle_ineq add_mono [OF tau_row_bounds [of p ps] Cons]] by simp
qed simp

lemma tau_score_max:
  "tau_score ps = int (length ps * (length ps - 1) div 2) \<longleftrightarrow> sorted_wrt (<) ps"
proof (induction ps)
  case (Cons p ps)
  have "int (length (p # ps) * (length (p # ps) - 1) div 2) = int (length ps + length ps * (length ps - 1) div 2)"
    using pairs_Suc [of "length ps"] by simp
  then show ?case
    using Cons tau_row_bounds [of p ps] tau_row_max [of p ps] tau_score_bounds [of ps] by auto
qed simp

lemma fdiv_counts_eq_1_iff:
  "m \<le> n \<Longrightarrow> 0 < n \<Longrightarrow> n \<le> 2 ^ 53 \<Longrightarrow> fdiv (f64_of_nat m) (f64_of_nat n) = 1 \<longleftrightarrow> m = n"
  using fdiv_counts_lt_1 [of m n] fdiv_counts_eq_1 [of n] by (cases "m = n") auto

definition position :: "'a list \<Rightarrow> 'a \<Rightarrow> nat option" where
  "position xs = map_of (zip xs [0..<length xs])"

lemma position_iff: "distinct xs \<Longrightarrow> position xs x = Some i \<longleftrightarrow> i < length xs \<and> xs ! i = x"
  by (auto simp: position_def map_of_zip_nth distinct_map in_set_zip map_of_eq_Some_iff dest: map_of_SomeD)

lemma position_nth [simp]: "distinct xs \<Longrightarrow> i < length xs \<Longrightarrow> position xs (xs ! i) = Some i"
  by (simp add: position_iff)

lemma position_None_iff: "position xs x = None \<longleftrightarrow> x \<notin> set xs"
  by (simp add: position_def map_of_zip_is_None)

lemma shared_positions_eq:
  "shared_positions r c k =
     map (the \<circ> position (top_k c k)) (filter (\<lambda>x. x \<in> set (top_k c k)) (top_k r k))"
  unfolding shared_positions_def position_def [symmetric] Let_def map_filter_def
  using position_None_iff [of "top_k c k"] by (auto intro!: map_cong filter_cong)

lemma length_shared_positions: "length (shared_positions r c k) \<le> k"
  unfolding shared_positions_eq length_map
  by (rule order.trans [OF length_filter_le]) simp

lemma position_nth_eq:
  "distinct xs \<Longrightarrow> set ys \<subseteq> set xs \<Longrightarrow> map (\<lambda>i. xs ! i) (map (the \<circ> position xs) ys) = ys"
proof (induction ys)
  case (Cons y ys)
  then obtain i where "position xs y = Some i" by (cases "position xs y") (auto simp: position_None_iff)
  with Cons show ?case by (auto simp: position_iff)
qed simp

lemma sorted_positions_filter:
  assumes "distinct xs"
  shows "sorted_wrt (<) (map (the \<circ> position xs) (filter P xs))"
proof -
  have "sorted_wrt (<) (map (the \<circ> position xs) xs)"
  proof -
    have "map (the \<circ> position xs) xs = [0..<length xs]"
      by (rule nth_equalityI) (use assms in auto)
    then show ?thesis by simp
  qed
  then show ?thesis
    by (simp add: sorted_wrt_map sorted_wrt_filter)
qed

text \<open>Ascending positions: the shared ids stand in the same order in both pages.\<close>

lemma sorted_shared_positions_iff:
  "sorted_wrt (<) (shared_positions r c k) \<longleftrightarrow>
     filter (\<lambda>x. x \<in> set (top_k c k)) (top_k r k) = filter (\<lambda>x. x \<in> set (top_k r k)) (top_k c k)"
  (is "_ \<longleftrightarrow> ?R = ?C")
proof
  let ?p = "the \<circ> position (top_k c k)"
  assume "sorted_wrt (<) (shared_positions r c k)"
  then have R: "sorted_wrt (<) (map ?p ?R)" by (simp add: shared_positions_eq)
  have C: "sorted_wrt (<) (map ?p ?C)" by (rule sorted_positions_filter) simp
  have "set (map ?p ?R) = set (map ?p ?C)" by (auto simp del: o_apply)
  with R C have "map ?p ?R = map ?p ?C"
    by (simp only: strict_sorted_iff sorted_distinct_set_unique)
  then have "map (\<lambda>i. top_k c k ! i) (map ?p ?R) = map (\<lambda>i. top_k c k ! i) (map ?p ?C)" by (rule arg_cong)
  moreover have "map (\<lambda>i. top_k c k ! i) (map ?p ?R) = ?R" by (rule position_nth_eq) auto
  moreover have "map (\<lambda>i. top_k c k ! i) (map ?p ?C) = ?C" by (rule position_nth_eq) auto
  ultimately show "?R = ?C" by (simp only:)
next
  assume "?R = ?C"
  then show "sorted_wrt (<) (shared_positions r c k)"
    using sorted_positions_filter [of "top_k c k" "\<lambda>x. x \<in> set (top_k r k)"] by (simp add: shared_positions_eq)
qed

lemma tau_eq_1_iff:
  assumes "rank_correlation r c k = Some t" and "k \<le> 2 ^ 26"
  shows "t = 1 \<longleftrightarrow> sorted_wrt (<) (shared_positions r c k)"
proof -
  let ?ps = "shared_positions r c k" let ?n = "length ?ps"
  let ?N = "?n * (?n - 1) div 2"
  have n2: "2 \<le> ?n" and t: "t = fdiv (rnd64 (of_int (tau_score ?ps))) (f64_of_nat ?N)"
    using assms(1) by (auto simp: rank_correlation_def Let_def split: if_splits)
  have "?n * (?n - 1) \<le> 2 ^ 26 * 2 ^ 26"
    using length_shared_positions [of r c k] assms(2) by (intro mult_le_mono) simp_all
  then have N: "?N \<le> 2 ^ 53" by simp
  have "2 * (2 - 1) div 2 \<le> ?N" using n2 by (intro div_le_mono mult_le_mono) simp_all
  then have Npos: "0 < ?N" by simp
  show ?thesis
  proof (cases "0 \<le> tau_score ?ps")
    case True
    then have score: "rnd64 (of_int (tau_score ?ps)) = f64_of_nat (nat (tau_score ?ps))"
      by (simp add: f64_of_nat_def)
    have le: "nat (tau_score ?ps) \<le> ?N" using tau_score_bounds [of ?ps] by simp
    have "t = 1 \<longleftrightarrow> nat (tau_score ?ps) = ?N"
      unfolding t score by (rule fdiv_counts_eq_1_iff [OF le Npos N])
    also have "\<dots> \<longleftrightarrow> tau_score ?ps = int ?N" using True by auto
    finally show ?thesis by (simp only: tau_score_max)
  next
    case False
    then have "tau_score ?ps \<noteq> int ?N" by linarith
    moreover have "t \<le> 0"
      using rnd64_mono [of "of_int (tau_score ?ps)" 0] False rnd64_mono [of "rnd64 (of_int (tau_score ?ps)) / f64_of_nat ?N" 0]
      by (simp add: t fdiv_def divide_nonpos_nonneg)
    ultimately show ?thesis unfolding tau_score_max by simp
  qed
qed

section \<open>Classification of the queries\<close>

lemma length_partition3:
  assumes "\<And>x. (f x \<noteq> None \<and> g x = None \<and> \<not> h x) \<or> (f x = None \<and> g x \<noteq> None \<and> \<not> h x) \<or>
      (f x = None \<and> g x = None \<and> h x)"
  shows "length (List.map_filter f xs) + length (List.map_filter g xs) + length (filter h xs) = length xs"
proof (induction xs)
  case (Cons x xs)
  then show ?case using assms [of x] by (auto simp: map_filter_simps split: option.splits)
qed (simp add: map_filter_simps)

lemma answered_cases:
  "(both_answered ra ca q \<noteq> None \<and> one_answered ra ca q = None \<and> \<not> none_answered ra ca q) \<or>
   (both_answered ra ca q = None \<and> one_answered ra ca q \<noteq> None \<and> \<not> none_answered ra ca q) \<or>
   (both_answered ra ca q = None \<and> one_answered ra ca q = None \<and> none_answered ra ca q)"
  by (auto simp: both_answered_def one_answered_def none_answered_def split: option.splits)

lemma entry_push_total:
  "sum_list (map (\<lambda>(_, vs). length vs) (entry_push k v m)) = Suc (sum_list (map (\<lambda>(_, vs). length vs) m))"
  by (induction m) auto

lemma group_queries_total:
  "group_queries rf cf w bs g = Inr g' \<Longrightarrow>
   sum_list (map (\<lambda>(_, vs). length vs) g') = length bs + sum_list (map (\<lambda>(_, vs). length vs) g)"
proof (induction bs arbitrary: g)
  case (Cons b bs)
  obtain q r c where "b = (q, r, c)" by (cases b)
  with Cons show ?case by (auto simp: entry_push_total)
qed simp

lemma compatible_Inr_iff [simp]:
  "compatible rf rh cf ch = Inr u \<longleftrightarrow> identity rh = identity ch \<and> dataset rh = dataset ch \<and>
     header_workload rh = header_workload ch \<and> header_id_space rh = header_id_space ch \<and>
     header_top rh = header_top ch"
  by (auto simp: compatible_def)

definition answer_of :: "dump \<Rightarrow> nat \<Rightarrow> query_record option" where
  "answer_of d = first_answer (records d)"

lemma compare_pair_Inr:
  assumes "compare_pair (rf, rd) (cf, cd) = Inr p"
  shows "compatible rf (header rd) cf (header cd) = Inr ()"
    and "pr_reference p = side_info_of rf rd" and "pr_candidate p = side_info_of cf cd"
    and "pr_one_sided p = List.map_filter (one_answered (fst (first_answers (records rd)))
           (fst (first_answers (records cd)))) (all_queries rd cd)"
    and "unanswered_by_both p = filter (none_answered (fst (first_answers (records rd)))
           (fst (first_answers (records cd)))) (all_queries rd cd)"
    and "sum_list (map sr_queries (shapes p)) = length (List.map_filter (both_answered
           (fst (first_answers (records rd))) (fst (first_answers (records cd)))) (all_queries rd cd))"
proof -
  obtain g where c: "compatible rf (header rd) cf (header cd) = Inr ()"
    and g: "group_queries rf cf (header_workload (header rd)) (List.map_filter (both_answered
           (fst (first_answers (records rd))) (fst (first_answers (records cd)))) (all_queries rd cd)) [] = Inr g"
    and p: "p = \<lparr>pr_dataset = dataset (header rd), pr_workload = header_workload (header rd),
        pr_k = header_top (header rd), pr_reference = side_info_of rf rd, pr_candidate = side_info_of cf cd,
        shapes = map (\<lambda>(name, gs). shape_report_of name (header_workload (header rd)) (header_top (header rd)) gs) g,
        pr_one_sided = List.map_filter (one_answered (fst (first_answers (records rd)))
           (fst (first_answers (records cd)))) (all_queries rd cd),
        unanswered_by_both = filter (none_answered (fst (first_answers (records rd)))
           (fst (first_answers (records cd)))) (all_queries rd cd),
        warnings = layout_warnings rf cf (header rd) (header cd)\<rparr>"
    using assms by (auto simp: compare_pair_def Let_def)
  have "map sr_queries (shapes p) = map (\<lambda>(_, vs). length vs) g"
    by (auto simp: p shape_report_of_def Let_def)
  then have "sum_list (map sr_queries (shapes p)) = sum_list (map (\<lambda>(_, vs). length vs) g)" by (rule arg_cong)
  also have "\<dots> = length (List.map_filter (both_answered
      (fst (first_answers (records rd))) (fst (first_answers (records cd)))) (all_queries rd cd))"
    using group_queries_total [OF g] by simp
  finally show "sum_list (map sr_queries (shapes p)) = length (List.map_filter (both_answered
      (fst (first_answers (records rd))) (fst (first_answers (records cd)))) (all_queries rd cd))" .
  from c p show "compatible rf (header rd) cf (header cd) = Inr ()"
    and "pr_reference p = side_info_of rf rd" and "pr_candidate p = side_info_of cf cd"
    and "pr_one_sided p = List.map_filter (one_answered (fst (first_answers (records rd)))
           (fst (first_answers (records cd)))) (all_queries rd cd)"
    and "unanswered_by_both p = filter (none_answered (fst (first_answers (records rd)))
           (fst (first_answers (records cd)))) (all_queries rd cd)"
    by simp_all
qed

lemma set_all_queries [simp]:
  "set (all_queries rd cd) = query_id ` (set (records rd) \<union> set (records cd))"
  by (simp add: all_queries_def)

lemma length_all_queries: "length (all_queries rd cd) = card (query_id ` (set (records rd) \<union> set (records cd)))"
  by (simp add: all_queries_def)

lemma map_filter_Nil_iff: "List.map_filter f xs = [] \<longleftrightarrow> (\<forall>x \<in> set xs. f x = None)"
  by (induction xs) (auto simp: map_filter_simps split: option.splits)

lemma one_answered_None_iff:
  "one_answered (fst (first_answers rs)) (fst (first_answers cs)) q = None \<longleftrightarrow>
     (first_answer rs q = None \<longleftrightarrow> first_answer cs q = None)"
  by (auto simp: one_answered_def first_answers_lookup split: option.splits)

lemma no_failed_attempts_iff:
  "failed_attempts (side_info_of f d) = 0 \<longleftrightarrow> (\<forall>r \<in> set (records d). answered r)"
  by (auto simp: side_info_of_def filter_empty_conv)

lemma first_answer_of_answered:
  assumes "\<forall>r \<in> set rs. answered r"
  shows "first_answer rs q = None \<longleftrightarrow> q \<notin> query_id ` set rs"
  using assms by (auto simp: first_answer_None_iff)

text \<open>The verdict on one pair, in terms of the two dumps.\<close>

lemma pair_clean_iff:
  assumes "compare_pair (rf, rd) (cf, cd) = Inr p"
  shows "pr_one_sided p = [] \<and> failed_attempts (pr_reference p) + failed_attempts (pr_candidate p) = 0 \<longleftrightarrow>
    (\<forall>r \<in> set (records rd) \<union> set (records cd). answered r) \<and>
    query_id ` set (records rd) = query_id ` set (records cd)"
proof (cases "\<forall>r \<in> set (records rd) \<union> set (records cd). answered r")
  case True
  then have "pr_one_sided p = [] \<longleftrightarrow>
      (\<forall>q \<in> query_id ` (set (records rd) \<union> set (records cd)).
         q \<notin> query_id ` set (records rd) \<longleftrightarrow> q \<notin> query_id ` set (records cd))"
    by (simp add: compare_pair_Inr [OF assms] map_filter_Nil_iff one_answered_None_iff first_answer_of_answered)
  also have "\<dots> \<longleftrightarrow> query_id ` set (records rd) = query_id ` set (records cd)" by blast
  finally show ?thesis
    using True by (simp add: compare_pair_Inr [OF assms] no_failed_attempts_iff)
next
  case False
  then show ?thesis by (auto simp: compare_pair_Inr [OF assms] no_failed_attempts_iff)
qed

text \<open>When a pair is compared at all: same run parameters, same ground truth where both answered.\<close>

lemma is_ok_group_queries:
  "is_ok (group_queries rf cf w bs g) \<longleftrightarrow> (\<forall>b \<in> set bs. check_truth rf cf b = Inr ())"
proof (induction bs arbitrary: g)
  case (Cons b bs)
  obtain q r c where "b = (q, r, c)" by (cases b)
  with Cons show ?case by (cases "check_truth rf cf b") auto
qed simp

lemma check_truth_Inr_iff: "check_truth rf cf (q, r, c) = Inr () \<longleftrightarrow> expected r = expected c"
  by (auto simp: check_truth_def split: option.splits)

lemma set_map_filter: "set (List.map_filter f xs) = {y. \<exists>x \<in> set xs. f x = Some y}"
  by (induction xs) (auto simp: map_filter_simps split: option.splits)

lemma is_ok_compare_pair:
  "is_ok (compare_pair (rf, rd) (cf, cd)) \<longleftrightarrow> compatible rf (header rd) cf (header cd) = Inr () \<and>
     (\<forall>q r c. first_answer (records rd) q = Some r \<and> first_answer (records cd) q = Some c \<longrightarrow>
        expected r = expected c)"
proof -
  let ?b = "List.map_filter (both_answered (fst (first_answers (records rd)))
    (fst (first_answers (records cd)))) (all_queries rd cd)"
  have both: "b \<in> set ?b \<longleftrightarrow> (\<exists>q r c. b = (q, r, c) \<and> first_answer (records rd) q = Some r \<and>
      first_answer (records cd) q = Some c)" for b
  proof -
    have ba: "both_answered (fst (first_answers (records rd))) (fst (first_answers (records cd))) q = Some b \<longleftrightarrow>
        (\<exists>r c. b = (q, r, c) \<and> first_answer (records rd) q = Some r \<and> first_answer (records cd) q = Some c)" for q
      unfolding both_answered_def first_answers_lookup
      by (cases "first_answer (records rd) q"; cases "first_answer (records cd) q") auto
    have "q \<in> set (all_queries rd cd)" if "first_answer (records rd) q = Some r" for q r
      using first_answer_SomeD(1,2) [OF that] by auto
    then show ?thesis unfolding set_map_filter mem_Collect_eq ba by metis
  qed
  have "(\<forall>b \<in> set ?b. check_truth rf cf b = Inr ()) \<longleftrightarrow>
      (\<forall>q r c. first_answer (records rd) q = Some r \<and> first_answer (records cd) q = Some c \<longrightarrow>
        expected r = expected c)"
    unfolding Ball_def both by (auto simp: check_truth_Inr_iff)
  then show ?thesis
    using is_ok_group_queries [of rf cf "header_workload (header rd)" ?b "[]"]
    by (auto simp: compare_pair_def Let_def is_ok_iff)
qed

section \<open>Pairing\<close>

lemma index_side_Inr:
  "index_side label es out = Inr out' \<Longrightarrow> distinct (map fst out) \<Longrightarrow>
   distinct (map fst out') \<and> length out' = length out + length es"
proof (induction es arbitrary: out)
  case (Cons e es)
  then have new: "map_of out (key (snd e)) = None"
    and step: "index_side label es (insort_key fst (key (snd e), e) out) = Inr out'"
    by (auto split: option.splits)
  have "distinct (map fst (insort_key fst (key (snd e), e) out))"
    using new Cons.prems(2) by (simp add: distinct_map inj_on_def set_insort_key map_of_eq_None_iff distinct_insort)
      (metis (no_types, lifting) fst_conv image_iff)
  from Cons.IH [OF step this] show ?case by simp
qed simp

lemma remove_key_length:
  assumes "distinct (map fst c)" and "map_of c k = Some v"
  shows "Suc (length (filter (\<lambda>e. fst e \<noteq> k) c)) = length c"
  using assms
proof (induction c)
  case (Cons e c)
  show ?case
  proof (cases "fst e = k")
    case True
    with Cons.prems(1) have "\<forall>x \<in> set c. fst x \<noteq> k" by (auto simp: image_iff)
    with True show ?thesis by simp
  next
    case False
    with Cons show ?thesis by (cases e) simp
  qed
qed simp

lemma pair_up_accounts:
  "pair_up r c = Inr (ps, us) \<Longrightarrow> distinct (map fst c) \<Longrightarrow> 2 * length ps + length us = length r + length c"
proof (induction r c arbitrary: ps us rule: pair_up.induct)
  case (2 k rf rd r c)
  show ?case
  proof (cases "map_of c k")
    case None
    with 2 show ?thesis by fastforce
  next
    case (Some e)
    then obtain cf cd where e: "map_of c k = Some (cf, cd)" by (cases e) auto
    with "2.prems"(1) obtain p ps' where
      rest: "pair_up r (filter (\<lambda>e. fst e \<noteq> k) c) = Inr (ps', us)" and ps: "ps = p # ps'"
      and pr: "compare_pair (rf, rd) (cf, cd) = Inr p"
      by auto
    have "distinct (map fst (filter (\<lambda>e. fst e \<noteq> k) c))" using "2.prems"(2) by (rule distinct_map_filter)
    from "2.IH"(2) [OF e refl rest this] show ?thesis
      using remove_key_length [OF "2.prems"(2) e] ps by simp
  qed
qed simp

section \<open>Properties\<close>

text \<open>
  The scores of a comparison are within their scales for every pair of pages and every \<open>k\<close>:
  overlap, Jaccard and recall lie in \<open>[0, 1]\<close> and the rank correlation in \<open>[-1, 1]\<close>, after rounding.
\<close>

theorem comparison_scores_bounded:
  "overlap_at_k r c k \<in> {0..1} \<and> jaccard_at_k r c k \<in> {0..1} \<and>
   set_option (recall_at_k c r k) \<subseteq> {0..1} \<and> set_option (rank_correlation r c k) \<subseteq> {-1..1}"
proof (intro conjI)
  show "overlap_at_k r c k \<in> {0..1}"
    using fdiv_counts_bounds [OF count_in_le_length] by (auto simp: overlap_at_k_def Let_def)
  have "card (A \<inter> B) \<le> card (A \<union> B)" if "finite (A \<union> B)" for A B :: "string set"
    by (rule card_mono [OF that]) auto
  then show "jaccard_at_k r c k \<in> {0..1}"
    using fdiv_counts_bounds by (auto simp: jaccard_at_k_def Let_def)
  have "count_in (set r) (top_k c k) \<le> card (set r)" by (rule count_in_le_card) simp_all
  then show "set_option (recall_at_k c r k) \<subseteq> {0..1}"
    using fdiv_counts_bounds by (auto simp: recall_at_k_def Let_def)
  let ?ps = "shared_positions r c k" let ?N = "length ?ps * (length ?ps - 1) div 2"
  have "\<bar>real_of_int (tau_score ?ps)\<bar> \<le> real ?N"
    using tau_score_bounds [of ?ps] by (metis of_int_abs of_int_le_iff of_int_of_nat_eq)
  from fdiv_signed_bounds [OF this] show "set_option (rank_correlation r c k) \<subseteq> {-1..1}"
    by (auto simp: rank_correlation_def Let_def abs_le_iff f64_of_nat_def)
qed

text \<open>
  A perfect score means what it says, for every page size in use (\<open>k \<le> 2\<^sup>2\<^sup>6\<close>).  Jaccard is 1 exactly
  when the two deduplicated pages hold the same ids; overlap is 1 exactly when the candidate's page holds every
  id of the reference's (and is empty when the reference's is); rank correlation is 1 exactly when the
  shared ids stand in the same order on both pages.  Rounding never turns a near miss into 1.
\<close>

theorem perfect_agreement_iff:
  assumes "k \<le> 2 ^ 26"
  shows "(jaccard_at_k r c k = 1 \<longleftrightarrow> set (top_k r k) = set (top_k c k)) \<and>
    (overlap_at_k r c k = 1 \<longleftrightarrow> set (top_k r k) \<subseteq> set (top_k c k) \<and> (top_k r k = [] \<longrightarrow> top_k c k = [])) \<and>
    (\<forall>t. rank_correlation r c k = Some t \<longrightarrow> (t = 1 \<longleftrightarrow>
       filter (\<lambda>x. x \<in> set (top_k c k)) (top_k r k) = filter (\<lambda>x. x \<in> set (top_k r k)) (top_k c k)))"
proof (intro conjI allI impI)
  let ?R = "set (top_k r k)" and ?C = "set (top_k c k)"
  have len: "card (set (top_k xs k)) \<le> 2 ^ 26" for xs
    using order.trans [OF card_length, of "top_k xs k" k] assms by (simp add: order.trans)
  have u: "card (?R \<union> ?C) \<le> 2 ^ 53"
    using card_Un_le [of ?R ?C] len [of r] len [of c] by simp
  have i: "card (?R \<inter> ?C) \<le> card (?R \<union> ?C)" by (rule card_mono) auto
  have eq: "card (?R \<inter> ?C) = card (?R \<union> ?C) \<longleftrightarrow> ?R = ?C"
    using card_subset_eq [of "?R \<union> ?C" "?R \<inter> ?C"] by auto
  show "jaccard_at_k r c k = 1 \<longleftrightarrow> ?R = ?C"
  proof (cases "card (?R \<union> ?C) = 0")
    case True
    then show ?thesis by (simp add: jaccard_at_k_def Let_def)
  next
    case False
    then have pos: "0 < card (?R \<union> ?C)" by (rule neq0_conv [THEN iffD1])
    have "jaccard_at_k r c k = fdiv (f64_of_nat (card (?R \<inter> ?C))) (f64_of_nat (card (?R \<union> ?C)))"
      unfolding jaccard_at_k_def Let_def using False by (rule if_not_P)
    then show ?thesis by (simp only: fdiv_counts_eq_1_iff [OF i pos u] eq)
  qed
  show "overlap_at_k r c k = 1 \<longleftrightarrow> ?R \<subseteq> ?C \<and> (top_k r k = [] \<longrightarrow> top_k c k = [])"
  proof (cases "top_k r k = []")
    case True
    then show ?thesis by (simp add: overlap_at_k_def Let_def)
  next
    case False
    have "k \<le> 2 ^ 53" using assms by simp
    with top_k_simps(2) [of r k] have "length (top_k r k) \<le> 2 ^ 53" by (rule order.trans)
    with False have "overlap_at_k r c k = 1 \<longleftrightarrow> count_in ?C (top_k r k) = length (top_k r k)"
      by (simp add: overlap_at_k_def Let_def fdiv_counts_eq_1_iff count_in_le_length)
    also have "\<dots> \<longleftrightarrow> ?R \<subseteq> ?C"
      unfolding count_in_def by (metis (no_types, lifting) filter_True length_filter_less less_irrefl subset_iff)
    finally show ?thesis using False by simp
  qed
  fix t assume "rank_correlation r c k = Some t"
  from tau_eq_1_iff [OF this assms] show "t = 1 \<longleftrightarrow> filter (\<lambda>x. x \<in> ?C) (top_k r k) = filter (\<lambda>x. x \<in> ?R) (top_k c k)"
    by (simp only: sorted_shared_positions_iff)
qed

theorem perfect_agreement_iff_witness:
  "jaccard_at_k [''a'', ''b''] [''b'', ''a'', ''b''] 10 = 1 \<and> jaccard_at_k [''a''] [''b''] 10 \<noteq> 1"
  using perfect_agreement_iff [of 10 "[''a'', ''b'']" "[''b'', ''a'', ''b'']"]
    perfect_agreement_iff [of 10 "[''a'']" "[''b'']"]
  by (auto simp: top_k_def topk_def dedup_def)

text \<open>
  C25: a comparison loses no query.  When a pair is compared, the two dumps come from the same dataset,
  workload, id space, \<open>k\<close> and compound identity, and every query that either side attempted is counted
  exactly once: in the shape of the queries both answered, among the one-sided ones, or among those
  neither answered.
\<close>

theorem pair_accounts_for_every_query:
  assumes "compare_pair (rf, rd) (cf, cd) = Inr p"
  shows "sum_list (map sr_queries (shapes p)) + length (pr_one_sided p) + length (unanswered_by_both p) =
      card (query_id ` (set (records rd) \<union> set (records cd))) \<and>
    (\<forall>q. q \<in> set (unanswered_by_both p) \<longleftrightarrow>
       q \<in> query_id ` (set (records rd) \<union> set (records cd)) \<and>
       (\<forall>r \<in> set (records rd) \<union> set (records cd). query_id r = q \<longrightarrow> \<not> answered r)) \<and>
    dataset (header rd) = dataset (header cd) \<and> header_workload (header rd) = header_workload (header cd) \<and>
    header_id_space (header rd) = header_id_space (header cd) \<and> header_top (header rd) = header_top (header cd) \<and>
    identity (header rd) = identity (header cd)"
proof -
  note c = compare_pair_Inr [OF assms]
  have "sum_list (map sr_queries (shapes p)) + length (pr_one_sided p) + length (unanswered_by_both p) =
      card (query_id ` (set (records rd) \<union> set (records cd)))"
    unfolding c length_all_queries [symmetric] by (rule length_partition3) (rule answered_cases)
  moreover have "q \<in> set (unanswered_by_both p) \<longleftrightarrow>
       q \<in> query_id ` (set (records rd) \<union> set (records cd)) \<and>
       (\<forall>r \<in> set (records rd) \<union> set (records cd). query_id r = q \<longrightarrow> \<not> answered r)" for q
    unfolding c by (auto simp: none_answered_def first_answers_lookup first_answer_None_iff)
  ultimately show ?thesis using c(1) by simp
qed

text \<open>Two small dumps: query 1 answered by both, query 2 only by the first.\<close>

definition sample_answer :: "nat \<Rightarrow> string option \<Rightarrow> query_record" where
  "sample_answer q e = \<lparr>query_id = q, seq = q, shape = None, ids = [''a''], scores = None, total = None,
     latency = Finite 1, error = e, expected = None\<rparr>"

definition sample_header :: dump_header where
  "sample_header = \<lparr>schema_version = 1, engine = ''redis'', config = ''redis-m-16'', dataset = ''msmarco'',
     header_workload = Vector, parallel = 8, header_top = 10, search_id = 0,
     header_id_space = Field_Space ''docid'', header_layout = None, identity = None\<rparr>"

definition sample_dump :: "query_record list \<Rightarrow> dump" where
  "sample_dump rs = \<lparr>header = sample_header, records = rs\<rparr>"

lemma sample_pair_ok:
  "is_ok (compare_pair (''r'', sample_dump [sample_answer 1 None, sample_answer 2 None])
     (''c'', sample_dump [sample_answer 1 None, sample_answer 2 (Some ''timeout'')]))"
  by (auto simp: is_ok_compare_pair sample_dump_def sample_answer_def dest!: first_answer_SomeD(1))

theorem pair_accounts_for_every_query_witness:
  "\<exists>p. compare_pair (''r'', sample_dump [sample_answer 1 None, sample_answer 2 None])
     (''c'', sample_dump [sample_answer 1 None, sample_answer 2 (Some ''timeout'')]) = Inr p \<and>
     sum_list (map sr_queries (shapes p)) + length (pr_one_sided p) + length (unanswered_by_both p) = 2"
proof -
  obtain p where p: "compare_pair (''r'', sample_dump [sample_answer 1 None, sample_answer 2 None])
     (''c'', sample_dump [sample_answer 1 None, sample_answer 2 (Some ''timeout'')]) = Inr p"
    using sample_pair_ok by (auto simp: is_ok_iff)
  have "card (query_id ` (set (records (sample_dump [sample_answer 1 None, sample_answer 2 None])) \<union>
      set (records (sample_dump [sample_answer 1 None, sample_answer 2 (Some ''timeout'')])))) = 2"
    by (simp add: sample_dump_def sample_answer_def insert_commute)
  with p conjunct1 [OF pair_accounts_for_every_query [OF p]] show ?thesis by metis
qed

text \<open>
  C23: the strict verdict on two dump files.  The comparison passes exactly when no attempt failed on
  either side and both sides attempted the same queries; a query that failed once and succeeded on a
  later cycle fails the comparison.
\<close>

theorem two_file_verdict:
  assumes "compare [(f, d)] [(g, d')] e = Inr rep"
  shows "passed rep \<longleftrightarrow> (\<forall>r \<in> set (records d) \<union> set (records d'). answered r) \<and>
    query_id ` set (records d) = query_id ` set (records d')"
proof -
  from assms obtain p where or: "compare_pair (f, d) (g, d') = Inr p \<or> compare_pair (g, d') (f, d) = Inr p"
    and rep: "pairs rep = [p]" "unpaired rep = []" "one_sided_total rep = length (pr_one_sided p)"
      "failed_attempts_total rep = failed_attempts (pr_reference p) + failed_attempts (pr_candidate p)"
    by (fastforce simp: compare_def sides_def pair_dumps_def split: if_splits)
  have "passed rep \<longleftrightarrow> pr_one_sided p = [] \<and>
      failed_attempts (pr_reference p) + failed_attempts (pr_candidate p) = 0"
    by (simp add: passed_def passed_allowing_unpaired_def rep)
  with or pair_clean_iff [of f d g d' p] pair_clean_iff [of g d' f d p] show ?thesis by blast
qed

theorem two_file_verdict_witness:
  "\<exists>rep. compare [(''r'', sample_dump [sample_answer 1 None, sample_answer 2 None])]
     [(''c'', sample_dump [sample_answer 1 None, sample_answer 2 (Some ''timeout'')])] ''redis'' = Inr rep \<and>
     \<not> passed rep"
proof -
  have "is_ok (compare [(''r'', sample_dump [sample_answer 1 None, sample_answer 2 None])]
     [(''c'', sample_dump [sample_answer 1 None, sample_answer 2 (Some ''timeout'')])] ''redis'')"
    using sample_pair_ok
    by (auto simp: is_ok_iff compare_def sides_def pair_dumps_def names_def)
       (simp add: sample_dump_def sample_header_def)+
  then obtain rep where rep: "compare [(''r'', sample_dump [sample_answer 1 None, sample_answer 2 None])]
     [(''c'', sample_dump [sample_answer 1 None, sample_answer 2 (Some ''timeout'')])] ''redis'' = Inr rep"
    by (auto simp: is_ok_iff)
  from two_file_verdict [OF rep] have "\<not> passed rep"
    by (simp add: sample_dump_def sample_answer_def answered_def)
  with rep show ?thesis by blast
qed

text \<open>
  Directory mode drops no dump.  Every dump of both sides is in exactly one pair or listed as unpaired,
  so a comparison of two directories that passes strictly has compared every file.
\<close>

theorem every_dump_accounted:
  assumes "compare fs ss e = Inr rep"
  shows "2 * length (pairs rep) + length (unpaired rep) = length fs + length ss \<and> pairs rep \<noteq> []"
proof -
  from assms obtain rs cs ps us where s: "sides fs ss e = Inr (rs, cs)" and d: "pair_dumps rs cs = Inr (ps, us)"
    and rep: "pairs rep = ps" "unpaired rep = us" "ps \<noteq> []"
    by (auto simp: compare_def split: if_splits)
  have "length rs + length cs = length fs + length ss"
    using s by (auto simp: sides_def split: if_splits)
  moreover have "2 * length ps + length us = length rs + length cs"
  proof (cases "length rs = 1 \<and> length cs = 1")
    case True
    then show ?thesis using d by (auto simp: pair_dumps_def)
  next
    case False
    with d obtain r c where "index_side Reference rs [] = Inr r" "index_side Candidate cs [] = Inr c"
      and up: "pair_up r c = Inr (ps, us)"
      unfolding pair_dumps_def by (auto simp: pair_dumps_def)
    with index_side_Inr [of Reference rs "[]" r] index_side_Inr [of Candidate cs "[]" c]
    have "length r = length rs" "length c = length cs" "distinct (map fst c)" by simp_all
    with pair_up_accounts [OF up] show ?thesis by simp
  qed
  ultimately show ?thesis by (simp add: rep)
qed

theorem every_dump_accounted_witness:
  "\<exists>rep. compare [(''r'', sample_dump [sample_answer 1 None, sample_answer 2 None])]
     [(''c'', sample_dump [sample_answer 1 None, sample_answer 2 (Some ''timeout'')])] ''redis'' = Inr rep \<and>
     2 * length (pairs rep) + length (unpaired rep) = 2"
proof -
  have "is_ok (compare [(''r'', sample_dump [sample_answer 1 None, sample_answer 2 None])]
     [(''c'', sample_dump [sample_answer 1 None, sample_answer 2 (Some ''timeout'')])] ''redis'')"
    using sample_pair_ok
    by (auto simp: is_ok_iff compare_def sides_def pair_dumps_def names_def)
       (simp add: sample_dump_def sample_header_def)+
  then obtain rep where rep: "compare [(''r'', sample_dump [sample_answer 1 None, sample_answer 2 None])]
     [(''c'', sample_dump [sample_answer 1 None, sample_answer 2 (Some ''timeout'')])] ''redis'' = Inr rep"
    by (auto simp: is_ok_iff)
  from every_dump_accounted [OF rep] rep show ?thesis by auto
qed

end
