(* ===== verification/Npy_Header.thy ===== *)
theory Npy_Header
  imports Payloads
begin

text \<open>
  The NPY header: \<open>src/src/readers/npy_reader.rs\<close> and the layout check of
  \<open>src/src/readers/stream_reader.rs\<close>.  A file is its bytes.  \<open>u64\<close> values are \<open>nat\<close>; a checked operation
  that overflows is an error and an unchecked product wraps at \<open>2\<^sup>6\<^sup>4\<close>, as in a release build.

  The header's dict goes through \<open>from_utf8_lossy\<close>, which only replaces malformed bytes by U+FFFD;
  everything the code looks for is ASCII and a number next to such bytes fails to parse either way, so
  the bytes are kept.
\<close>

section \<open>The dict\<close>

fun parse_dims :: "string list \<Rightarrow> nat list option" where
  "parse_dims [] = Some []"
| "parse_dims (part # ps) = (let t = trim part in
     if t = [] then parse_dims ps
     else Option.bind (parse_u64 t) (\<lambda>d. map_option (Cons d) (parse_dims ps)))"

definition apos :: char where
  "apos = CHR 0x27"

definition dquote :: char where
  "dquote = CHR 0x22"

definition quoted :: "string \<Rightarrow> string" where
  "quoted s = apos # s @ [apos]"

definition parse_npy_shape_dims :: "string \<Rightarrow> nat list option" where
  "parse_npy_shape_dims hdr =
     Option.bind (find_sub (quoted ''shape'') hdr) (\<lambda>shape_idx. let rest = drop shape_idx hdr in
     Option.bind (find_sub ''('' rest) (\<lambda>o1.
     Option.bind (find_sub '')'' (drop o1 rest)) (\<lambda>c1. let close = c1 + o1 in
       parse_dims (split_on CHR '','' (take (close - (o1 + 1)) (drop (o1 + 1) rest))))))"

definition checked_mul :: "nat \<Rightarrow> nat \<Rightarrow> nat option" where
  "checked_mul a b = (if a * b < 2 ^ 64 then Some (a * b) else None)"

definition checked_add :: "nat \<Rightarrow> nat \<Rightarrow> nat option" where
  "checked_add a b = (if a + b < 2 ^ 64 then Some (a + b) else None)"

fun checked_product :: "nat \<Rightarrow> nat list \<Rightarrow> nat option" where
  "checked_product n [] = Some n"
| "checked_product n (d # ds) = Option.bind (checked_mul n d) (\<lambda>m. checked_product m ds)"

definition parse_npy_shape_itemsize :: "string \<Rightarrow> (nat \<times> nat) option" where
  "parse_npy_shape_itemsize hdr =
     (let is_quote = (\<lambda>c. c = apos \<or> c = dquote) in
      Option.bind (find_sub (quoted ''descr'') hdr) (\<lambda>descr_idx.
        let after_descr = drop (descr_idx + length (quoted ''descr'')) hdr in
      Option.bind (find_char is_quote after_descr) (\<lambda>q_start. let after_q = drop (q_start + 1) after_descr in
      Option.bind (find_char is_quote after_q) (\<lambda>q_end.
      Option.bind (parse_u64 (filter is_digit (take q_end after_q))) (\<lambda>itemsize.
      Option.bind (parse_npy_shape_dims hdr) (\<lambda>dims.
        map_option (\<lambda>count. (count, itemsize)) (checked_product 1 dims)))))))"

section \<open>Reading the header\<close>

record npy_header =
  dict :: string
  data_start :: nat
  file_len :: nat

datatype npy_error =
    Header_Exceeds_File nat nat
  | Nesting_Too_Deep nat
  | Size_Overflow
  | Data_Exceeds_File nat nat
  | Not_Npy
  | No_Shape
  | Empty_Shape
  | Not_F32_C_Order
  | Not_Two_Dimensional "nat list"
  | Wrong_File_Size nat nat nat

definition le_value :: "string \<Rightarrow> nat" where
  "le_value bs = foldr (\<lambda>b v. byte b + 256 * v) bs 0"

fun max_nesting :: "nat \<Rightarrow> nat \<Rightarrow> string \<Rightarrow> nat" where
  "max_nesting depth deepest [] = deepest"
| "max_nesting depth deepest (b # bs) =
     (if b \<in> {CHR ''{'', CHR ''['', CHR ''(''} then max_nesting (depth + 1) (max deepest (depth + 1)) bs
      else if b \<in> {CHR ''}'', CHR '']'', CHR '')''} then max_nesting (depth - 1) deepest bs
      else max_nesting depth deepest bs)"

definition npy_magic :: string where
  "npy_magic = CHR 0x93 # ''NUMPY''"

definition read_npy_header :: "string \<Rightarrow> npy_error + npy_header option" where
  "read_npy_header f =
     (if length f < 10 \<or> take 6 f \<noteq> npy_magic then Inr None
      else let v2 = byte (f ! 6) \<ge> 2 in
        if v2 \<and> length f < 12 then Inr None
        else let header_start = (if v2 then 12 else 10);
                 header_len = le_value (take (header_start - 8) (drop 8 f));
                 header_end = header_start + header_len
          in if header_end > length f then Inl (Header_Exceeds_File header_len (length f))
             else let d = take header_len (drop header_start f); deepest = max_nesting 0 0 d
               in if deepest > 4 then Inl (Nesting_Too_Deep deepest)
                  else Inr (Some \<lparr>dict = d, data_start = header_end, file_len = length f\<rparr>))"

definition validate_npy_size_bound :: "string \<Rightarrow> npy_error + unit" where
  "validate_npy_size_bound f =
     rbind (read_npy_header f) (\<lambda>h. case h of
       None \<Rightarrow> Inr ()
     | Some h \<Rightarrow> (case parse_npy_shape_itemsize (dict h) of
         None \<Rightarrow> Inr ()
       | Some (count, itemsize) \<Rightarrow>
           rbind (ok_or Size_Overflow (checked_mul count itemsize)) (\<lambda>data_bytes.
           rbind (ok_or Size_Overflow (checked_add (data_start h) data_bytes)) (\<lambda>tot.
             if tot > file_len h then Inl (Data_Exceeds_File data_bytes (file_len h)) else Inr ()))))"

definition npy_row_count :: "string \<Rightarrow> npy_error + nat" where
  "npy_row_count f =
     rbind (read_npy_header f) (\<lambda>h.
     rbind (ok_or Not_Npy h) (\<lambda>h.
     rbind (ok_or No_Shape (parse_npy_shape_dims (dict h))) (\<lambda>dims.
       case dims of [] \<Rightarrow> Inl Empty_Shape | d # _ \<Rightarrow> Inr d)))"

section \<open>The layout the streaming reader accepts\<close>

record f32_npy_layout =
  rows :: nat
  cols :: nat
  data_offset :: nat

text \<open>\<open>self.rows * self.cols as u64 * 4\<close>, unchecked.\<close>

definition data_bytes :: "f32_npy_layout \<Rightarrow> nat" where
  "data_bytes l = (rows l * cols l * 4) mod 2 ^ 64"

definition descr_ok :: "string \<Rightarrow> bool" where
  "descr_ok d \<longleftrightarrow> contains d (quoted ''descr'' @ '': '' @ quoted ''<f4'') \<or>
     contains d ([dquote] @ ''descr'' @ [dquote] @ '': '' @ [dquote] @ ''<f4'' @ [dquote])"

definition c_order :: "string \<Rightarrow> bool" where
  "c_order d \<longleftrightarrow> contains d (quoted ''fortran_order'' @ '': False'')"

fun layout_of_dims :: "npy_header \<Rightarrow> nat list \<Rightarrow> npy_error + f32_npy_layout" where
  "layout_of_dims h [r, c] =
     (if c > 0 then
        let layout = \<lparr>rows = r, cols = c, data_offset = data_start h\<rparr>
        in rbind (ok_or Size_Overflow (checked_add (data_bytes layout) (data_offset layout))) (\<lambda>want.
             if file_len h \<noteq> want
             then Inl (Wrong_File_Size (data_bytes layout) (data_offset layout) (file_len h))
             else Inr layout)
      else Inl (Not_Two_Dimensional [r, c]))"
| "layout_of_dims h dims = Inl (Not_Two_Dimensional dims)"

definition f32_npy_layout_of :: "string \<Rightarrow> npy_error + f32_npy_layout" where
  "f32_npy_layout_of f =
     rbind (read_npy_header f) (\<lambda>h.
     rbind (ok_or Not_Npy h) (\<lambda>h.
       if \<not> descr_ok (dict h) \<or> \<not> c_order (dict h) then Inl Not_F32_C_Order
       else rbind (ok_or No_Shape (parse_npy_shape_dims (dict h))) (layout_of_dims h)))"

definition streamable_layout :: "string \<Rightarrow> f32_npy_layout option" where
  "streamable_layout f = (case f32_npy_layout_of f of Inl _ \<Rightarrow> None | Inr l \<Rightarrow> Some l)"

section \<open>What the checks establish\<close>

lemma read_npy_header_Some:
  assumes "read_npy_header f = Inr (Some h)"
  shows "file_len h = length f" and "data_start h \<le> length f" and "10 \<le> data_start h"
    and "max_nesting 0 0 (dict h) \<le> 4"
  using assms by (auto simp: read_npy_header_def Let_def split: if_splits)

lemma checked_add_Some_iff [simp]: "checked_add a b = Some n \<longleftrightarrow> a + b < 2 ^ 64 \<and> n = a + b"
  by (auto simp: checked_add_def)

lemma checked_mul_Some_iff [simp]: "checked_mul a b = Some n \<longleftrightarrow> a * b < 2 ^ 64 \<and> n = a * b"
  by (auto simp: checked_mul_def)

lemma f32_npy_layout_of_Inr:
  assumes "f32_npy_layout_of f = Inr l"
  obtains h where "read_npy_header f = Inr (Some h)"
    and "parse_npy_shape_dims (dict h) = Some [rows l, cols l]" and "0 < cols l"
    and "data_offset l = data_start h" and "length f = data_bytes l + data_offset l"
proof -
  from assms obtain h dims where h: "read_npy_header f = Inr (Some h)"
    and dims: "parse_npy_shape_dims (dict h) = Some dims" and lo: "layout_of_dims h dims = Inr l"
    by (auto simp: f32_npy_layout_of_def split: if_splits)
  from lo obtain r c where d: "dims = [r, c]" and c: "0 < c"
    and l: "l = \<lparr>rows = r, cols = c, data_offset = data_start h\<rparr>"
    and n: "file_len h = data_bytes l + data_offset l"
    by (cases "(h, dims)" rule: layout_of_dims.cases) (auto simp: Let_def split: if_splits)
  from that [OF h] dims d c l n read_npy_header_Some(1) [OF h] show thesis by simp
qed

text \<open>A small array file, for the examples below: the dict NumPy writes, then the data.\<close>

definition npy_dict :: "string \<Rightarrow> string" where
  "npy_dict shp = ''{'' @ quoted ''descr'' @ '': '' @ quoted ''<f4'' @ '', '' @ quoted ''fortran_order'' @
     '': False, '' @ quoted ''shape'' @ '': ('' @ shp @ ''), }''"

definition npy_file :: "string \<Rightarrow> string \<Rightarrow> string" where
  "npy_file shp bytes = npy_magic @ [CHR 0x01, CHR 0x00, char_of (length (npy_dict shp)), CHR 0x00] @
     npy_dict shp @ bytes"

lemmas npy_eval = npy_dict_def npy_file_def quoted_def apos_def dquote_def npy_magic_def byte_def le_value_def

lemma npy_dict_f32: "descr_ok (npy_dict shp)" "c_order (npy_dict shp)"
  by (simp_all add: descr_ok_def c_order_def npy_eval contains_def)

lemma huge_header:
  "read_npy_header (npy_file ''4611686018427387904, 1'' []) =
     Inr (Some \<lparr>dict = npy_dict ''4611686018427387904, 1'', data_start = 87, file_len = 87\<rparr>)"
  by (simp add: read_npy_header_def npy_eval Let_def)

lemma huge_dims:
  "parse_npy_shape_dims (npy_dict ''4611686018427387904, 1'') = Some [4611686018427387904, 1]"
  by (simp add: parse_npy_shape_dims_def npy_eval Let_def trim_def white_space_def strip_any.simps
      parse_u64_def digits_value_def is_digit_def)

section \<open>Properties\<close>

text \<open>
  C38: what the streaming reader's size check means.  For an accepted \<open>vectors.npy\<close> the file holds exactly
  the declared \<open>rows * cols\<close> floats, nothing missing and nothing trailing, if and only if that product of
  bytes is below \<open>2\<^sup>6\<^sup>4\<close>; the multiplication in \<open>F32NpyLayout::data_bytes\<close> is not checked, so beyond it the
  check compares the file with the wrapped size.
\<close>

theorem layout_is_exact_iff:
  assumes "f32_npy_layout_of f = Inr l"
  shows "length f = data_offset l + rows l * cols l * 4 \<longleftrightarrow> rows l * cols l * 4 < 2 ^ 64"
proof -
  from assms obtain h where hdr: "read_npy_header f = Inr (Some h)" and len: "length f = data_bytes l + data_offset l"
    by (rule f32_npy_layout_of_Inr)
  have "data_bytes l = rows l * cols l * 4 \<longleftrightarrow> rows l * cols l * 4 < 2 ^ 64"
    unfolding data_bytes_def by (metis mod_less mod_less_divisor zero_less_numeral zero_less_power)
  with len show ?thesis by auto
qed

theorem layout_is_exact_iff_witness:
  "\<exists>l. f32_npy_layout_of (npy_file ''4611686018427387904, 1'' []) = Inr l \<and> rows l = 2 ^ 62 \<and>
     length (npy_file ''4611686018427387904, 1'' []) = 87 \<and>
     length (npy_file ''4611686018427387904, 1'' []) \<noteq> data_offset l + rows l * cols l * 4"
proof -
  let ?l = "\<lparr>rows = 4611686018427387904, cols = 1, data_offset = 87\<rparr>"
  have r: "f32_npy_layout_of (npy_file ''4611686018427387904, 1'' []) = Inr ?l"
    by (simp add: f32_npy_layout_of_def huge_header npy_dict_f32 huge_dims Let_def data_bytes_def checked_add_def)
  have "length (npy_file ''4611686018427387904, 1'' []) = 87"
    using read_npy_header_Some(1) [OF huge_header] by simp
  with layout_is_exact_iff [OF r] r show ?thesis by (intro exI [of _ ?l]) simp
qed

text \<open>The in-memory reader allocates what the header declares only after it is known to fit the file.\<close>

lemma validated_size_fits:
  assumes "validate_npy_size_bound f = Inr ()" and "read_npy_header f = Inr (Some h)"
    and "parse_npy_shape_itemsize (dict h) = Some (n, sz)"
  shows "data_start h + n * sz \<le> length f"
  using assms read_npy_header_Some(1) [OF assms(2)]
  by (auto simp: validate_npy_size_bound_def split: if_splits)

end
