(* ===== verification/Stream_Reader.thy ===== *)
theory Stream_Reader
  imports Npy_Header "HOL-Library.Word"
begin

text \<open>
  The streaming reader of a compound corpus, \<open>src/src/readers/stream_reader.rs\<close>, and the in-memory reader it
  must agree with, \<open>read_compound_data\<close> and \<open>read_npy_vectors\<close>.

  The state of a stream is what is left of its two files.  A call that fails leaves the state as far as
  it got.  An \<open>f32\<close> is its 32 bits.  \<open>normalize_row\<close> (single-precision arithmetic, called on the same rows by
  both readers), the JSON parser and the array parser \<open>Array2::read_npy\<close> are parameters.
\<close>

section \<open>Streams and batches\<close>

type_synonym f32 = "32 word"

record corpus =
  vectors_file :: string
  payloads_file :: "string option"

record raw_batch =
  first_id :: nat
  raw_rows :: nat
  raw_cols :: nat
  raw_normalize :: bool
  vector_bytes :: string
  raw_lines :: "string list option"

record batch =
  batch_ids :: "int list"
  batch_vectors :: "f32 list list"
  batch_metadata :: "metadata_item option list"

record compound_stream =
  vectors_rest :: string
  payloads_rest :: "string list option"
  layout :: f32_npy_layout
  next_row :: nat
  normalize :: bool
  finished :: bool

datatype stream_error =
    Npy npy_error
  | Zero_Rows
  | Vectors_Short nat nat
  | Payload_Not_Utf8
  | Metadata_Count nat nat
  | Payload_Parse nat
  | Array_Parse

definition open_stream :: "corpus \<Rightarrow> bool \<Rightarrow> stream_error + compound_stream" where
  "open_stream c nrm =
     rbind (map_err Npy (f32_npy_layout_of (vectors_file c))) (\<lambda>l.
       Inr \<lparr>vectors_rest = drop (data_offset l) (vectors_file c),
            payloads_rest = map_option read_lines (payloads_file c),
            layout = l, next_row = 0, normalize = nrm, finished = False\<rparr>)"

text \<open>The loop that reads one payload line per row; the first argument is the row reached.\<close>

fun take_lines :: "nat \<Rightarrow> nat \<Rightarrow> nat \<Rightarrow> string list \<Rightarrow> (stream_error + string list) \<times> string list" where
  "take_lines r tot 0 ls = (Inr [], ls)"
| "take_lines r tot (Suc n) [] = (Inl (Metadata_Count r tot), [])"
| "take_lines r tot (Suc n) (l # ls) =
     (if \<not> valid_utf8 l then (Inl Payload_Not_Utf8, ls)
      else case take_lines (r + 1) tot n ls of
          (Inl e, rest) \<Rightarrow> (Inl e, rest)
        | (Inr xs, rest) \<Rightarrow> (Inr (l # xs), rest))"

fun count_extra :: "string list \<Rightarrow> stream_error + nat" where
  "count_extra [] = Inr 0"
| "count_extra (l # ls) =
     (if \<not> valid_utf8 l then Inl Payload_Not_Utf8 else rbind (count_extra ls) (\<lambda>n. Inr (n + 1)))"

definition finish :: "compound_stream \<Rightarrow> (stream_error + unit) \<times> compound_stream" where
  "finish s =
     (case payloads_rest s of
        None \<Rightarrow> Inr ()
      | Some ls \<Rightarrow> rbind (count_extra ls) (\<lambda>extra.
          if extra > 0 then Inl (Metadata_Count (rows (layout s) + extra) (rows (layout s))) else Inr ()),
      s\<lparr>finished := True, payloads_rest := map_option (\<lambda>_. []) (payloads_rest s)\<rparr>)"

definition next_raw :: "nat \<Rightarrow> compound_stream \<Rightarrow> (stream_error + raw_batch option) \<times> compound_stream" where
  "next_raw max_rows s =
     (if max_rows = 0 then (Inl Zero_Rows, s)
      else if finished s then (Inr None, s)
      else let remaining = rows (layout s) - next_row s in
        if remaining = 0 then (case finish s of
            (Inl e, s') \<Rightarrow> (Inl e, s')
          | (Inr _, s') \<Rightarrow> (Inr None, s'))
        else let n = min remaining max_rows; sz = n * cols (layout s) * 4 in
          if length (vectors_rest s) < sz
          then (Inl (Vectors_Short (next_row s) (next_row s + n)), s\<lparr>vectors_rest := []\<rparr>)
          else let bytes = take sz (vectors_rest s); s1 = s\<lparr>vectors_rest := drop sz (vectors_rest s)\<rparr>;
                   emit = (\<lambda>lines s2. (Inr (Some \<lparr>first_id = next_row s, raw_rows = n, raw_cols = cols (layout s),
                      raw_normalize = normalize s, vector_bytes = bytes, raw_lines = lines\<rparr>),
                      s2\<lparr>next_row := next_row s + n\<rparr>))
            in (case payloads_rest s of
                  None \<Rightarrow> emit None s1
                | Some ls \<Rightarrow> (case take_lines (next_row s) (rows (layout s)) n ls of
                      (Inl e, rest) \<Rightarrow> (Inl e, s1\<lparr>payloads_rest := Some rest\<rparr>)
                    | (Inr lines, rest) \<Rightarrow> emit (Some lines) (s1\<lparr>payloads_rest := Some rest\<rparr>))))"

section \<open>Decoding\<close>

function chunks_exact :: "nat \<Rightarrow> 'a list \<Rightarrow> 'a list list" where
  "chunks_exact k xs = (if k = 0 \<or> length xs < k then [] else take k xs # chunks_exact k (drop k xs))"
  by pat_completeness auto
termination
  by (relation "measure (\<lambda>(_, xs). length xs)") auto

declare chunks_exact.simps [simp del]

definition decode_row :: "string \<Rightarrow> f32 list" where
  "decode_row bytes = map (\<lambda>c. word_of_nat (le_value c)) (chunks_exact 4 bytes)"

definition cast_i64 :: "nat \<Rightarrow> int" where
  "cast_i64 n = (let u = n mod 2 ^ 64 in if u < 2 ^ 63 then int u else int u - 2 ^ 64)"

definition decode_line :: "(string \<Rightarrow> json option) \<Rightarrow> nat \<Rightarrow> string \<Rightarrow> stream_error + metadata_item option" where
  "decode_line parse_json i l =
     (if blank l then Inr None
      else case parse_json l of
          None \<Rightarrow> Inl (Payload_Parse (i + 1))
        | Some v \<Rightarrow> Inr (parse_metadata_from_json v))"

definition decode ::
    "(f32 list \<Rightarrow> f32 list) \<Rightarrow> (string \<Rightarrow> json option) \<Rightarrow> raw_batch \<Rightarrow> stream_error + batch" where
  "decode normalize_row parse_json b =
     rbind (case raw_lines b of
              None \<Rightarrow> Inr (replicate (raw_rows b) None)
            | Some ls \<Rightarrow> traverse (\<lambda>(i, l). decode_line parse_json i l) (enumerate (first_id b) ls)) (\<lambda>ms.
       Inr \<lparr>batch_ids = map (\<lambda>i. cast_i64 (first_id b + i)) [0..<raw_rows b],
            batch_vectors = map ((if raw_normalize b then normalize_row else id) \<circ> decode_row)
              (chunks_exact (raw_cols b * 4) (vector_bytes b)),
            batch_metadata = ms\<rparr>)"

section \<open>The in-memory reader\<close>

definition read_npy_vectors ::
    "(string \<Rightarrow> f32 list list option) \<Rightarrow> (f32 list \<Rightarrow> f32 list) \<Rightarrow> string \<Rightarrow> bool \<Rightarrow>
       stream_error + int list \<times> f32 list list" where
  "read_npy_vectors read_npy normalize_row f nrm =
     rbind (map_err Npy (validate_npy_size_bound f)) (\<lambda>_.
     rbind (ok_or Array_Parse (read_npy f)) (\<lambda>arr.
       Inr (map int [0..<length arr], map (if nrm then normalize_row else id) arr)))"

definition payload_error :: "string payload_error \<Rightarrow> stream_error" where
  "payload_error e = (case e of Row_Parse r \<Rightarrow> Payload_Parse r | _ \<Rightarrow> Payload_Not_Utf8)"

definition read_compound_data ::
    "(string \<Rightarrow> f32 list list option) \<Rightarrow> (f32 list \<Rightarrow> f32 list) \<Rightarrow> (string \<Rightarrow> json option) \<Rightarrow> corpus \<Rightarrow> bool \<Rightarrow>
       stream_error + batch" where
  "read_compound_data read_npy normalize_row parse_json c nrm =
     rbind (read_npy_vectors read_npy normalize_row (vectors_file c) nrm) (\<lambda>(is, vs).
     rbind (case payloads_file c of
              None \<Rightarrow> Inr (replicate (length vs) None)
            | Some p \<Rightarrow> rbind (map_err payload_error (read_payloads_jsonl parse_json p)) (\<lambda>ms.
                if length ms \<noteq> length vs then Inl (Metadata_Count (length ms) (length vs)) else Inr ms)) (\<lambda>ms.
       Inr \<lparr>batch_ids = is, batch_vectors = vs, batch_metadata = ms\<rparr>))"

section \<open>Chunks\<close>

lemma chunks_exact_drop:
  assumes "0 < k"
  shows "chunks_exact k (drop (a * k) xs) = drop a (chunks_exact k xs)"
proof (induction a arbitrary: xs)
  case (Suc a)
  show ?case
  proof (cases "length xs < k")
    case True
    then show ?thesis using assms by (simp add: chunks_exact.simps [of k xs] chunks_exact.simps [of k "[]"])
  next
    case False
    have "drop (Suc a * k) xs = drop (a * k) (drop k xs)" by (simp add: add.commute)
    then show ?thesis using Suc [of "drop k xs"] False assms by (simp add: chunks_exact.simps [of k xs])
  qed
qed simp

lemma chunks_exact_take:
  assumes "0 < k"
  shows "chunks_exact k (take (a * k) xs) = take a (chunks_exact k xs)"
proof (induction a arbitrary: xs)
  case 0
  then show ?case using assms by (simp add: chunks_exact.simps)
next
  case (Suc a)
  show ?case
  proof (cases "length xs < k")
    case True
    then show ?thesis using assms by (simp add: chunks_exact.simps)
  next
    case False
    then have "take k (take (Suc a * k) xs) = take k xs" "drop k (take (Suc a * k) xs) = take (a * k) (drop k xs)"
      by (simp_all add: drop_take min_def)
    then show ?thesis
      using Suc [of "drop k xs"] False assms
      by (simp add: chunks_exact.simps [of k xs] chunks_exact.simps [of k "take (k + a * k) xs"])
  qed
qed

lemma length_chunks_exact: "0 < k \<Longrightarrow> length (chunks_exact k xs) = length xs div k"
proof (induction k xs rule: chunks_exact.induct)
  case (1 k xs)
  then show ?case
    by (cases "length xs < k") (simp_all add: chunks_exact.simps [of k xs] le_div_geq div_less)
qed

section \<open>Where a stream stands\<close>

definition all_lines :: "corpus \<Rightarrow> string list option" where
  "all_lines c = map_option read_lines (payloads_file c)"

definition stream_at :: "corpus \<Rightarrow> f32_npy_layout \<Rightarrow> compound_stream \<Rightarrow> bool" where
  "stream_at c l s \<longleftrightarrow> layout s = l \<and> \<not> finished s \<and> next_row s \<le> rows l \<and>
     vectors_rest s = drop (next_row s * (cols l * 4)) (drop (data_offset l) (vectors_file c)) \<and>
     payloads_rest s = map_option (drop (next_row s)) (all_lines c) \<and>
     (\<forall>ls. all_lines c = Some ls \<longrightarrow> next_row s \<le> length ls \<and> list_all valid_utf8 (take (next_row s) ls))"

definition exact_layout :: "corpus \<Rightarrow> f32_npy_layout \<Rightarrow> bool" where
  "exact_layout c l \<longleftrightarrow> f32_npy_layout_of (vectors_file c) = Inr l \<and> rows l * cols l * 4 < 2 ^ 64"

lemma exact_layoutD:
  assumes "exact_layout c l"
  shows "0 < cols l" and "length (drop (data_offset l) (vectors_file c)) = rows l * (cols l * 4)"
    and "rows l < 2 ^ 63"
proof -
  from assms have f: "f32_npy_layout_of (vectors_file c) = Inr l" and b: "rows l * cols l * 4 < 2 ^ 64"
    by (simp_all add: exact_layout_def)
  from f show "0 < cols l" by (rule f32_npy_layout_of_Inr)
  have "length (vectors_file c) = data_bytes l + data_offset l" using f by (rule f32_npy_layout_of_Inr)
  then show "length (drop (data_offset l) (vectors_file c)) = rows l * (cols l * 4)"
    using b by (simp add: data_bytes_def)
  have "rows l \<le> rows l * cols l" using \<open>0 < cols l\<close> by (cases "cols l") simp_all
  also have "\<dots> < 2 ^ 62" using b by (simp add: mult.commute)
  finally show "rows l < 2 ^ 63" by simp
qed

lemma open_stream_at:
  assumes "open_stream c nrm = Inr s" and "layout s = l"
  shows "stream_at c l s" and "next_row s = 0" and "normalize s = nrm"
  using assms by (auto simp: open_stream_def stream_at_def all_lines_def option.map_comp comp_def)

lemma take_lines_Inr_iff:
  "take_lines r tot n ls = (Inr xs, rest) \<longleftrightarrow>
     n \<le> length ls \<and> xs = take n ls \<and> rest = drop n ls \<and> list_all valid_utf8 (take n ls)"
proof (induction n arbitrary: r ls xs)
  case (Suc n)
  show ?case
  proof (cases ls)
    case (Cons l ls')
    obtain a q where t: "take_lines (r + 1) tot n ls' = (a, q)" by (cases "take_lines (r + 1) tot n ls'")
    show ?thesis
    proof (cases a)
      case (Inl e)
      with Suc [of "r + 1" ls' "take n ls'"] t show ?thesis by (auto simp: Cons)
    next
      case (Inr ys)
      with Suc [of "r + 1" ls' ys] Suc [of "r + 1" ls' "take n ls'"] t show ?thesis by (auto simp: Cons)
    qed
  qed auto
qed auto

lemma take_lines_cases:
  obtains (ok) "take_lines r tot n ls = (Inr (take n ls), drop n ls)" and "n \<le> length ls"
      and "list_all valid_utf8 (take n ls)"
  | (err) e rest where "take_lines r tot n ls = (Inl e, rest)" and
      "\<not> (n \<le> length ls \<and> list_all valid_utf8 (take n ls))"
proof (cases "take_lines r tot n ls")
  case (Pair a rest)
  then show thesis
  proof (cases a)
    case (Inl e)
    with Pair have t: "take_lines r tot n ls = (Inl e, rest)" by simp
    moreover have "\<not> (n \<le> length ls \<and> list_all valid_utf8 (take n ls))"
      using take_lines_Inr_iff [of r tot n ls "take n ls" "drop n ls"] t by auto
    ultimately show thesis by (rule err)
  next
    case (Inr xs)
    with Pair ok show thesis by (auto simp: take_lines_Inr_iff)
  qed
qed

lemma count_extra_0_iff [simp]: "count_extra ls = Inr 0 \<longleftrightarrow> ls = []"
  by (cases ls) auto

text \<open>What one successful call hands out, and where it leaves the stream.\<close>

lemma next_raw_batch:
  assumes "next_raw k s = (Inr (Some b), s')" and "stream_at c l s"
  shows "stream_at c l s'" and "normalize s' = normalize s"
    and "first_id b = next_row s" and "next_row s' = next_row s + raw_rows b" and "0 < raw_rows b"
    and "raw_rows b \<le> k" and "raw_cols b = cols l" and "raw_normalize b = normalize s"
    and "vector_bytes b = take (raw_rows b * (cols l * 4)) (vectors_rest s)"
    and "raw_lines b = map_option (\<lambda>ls. take (raw_rows b) (drop (next_row s) ls)) (all_lines c)"
proof -
  let ?n = "min (rows l - next_row s) k"
  note at = assms(2) [unfolded stream_at_def]
  have k: "k \<noteq> 0" and rem: "rows l - next_row s \<noteq> 0"
    and len: "\<not> length (vectors_rest s) < ?n * cols l * 4"
    using assms(1) at by (auto simp: next_raw_def Let_def split: if_splits prod.splits sum.splits)
  have "stream_at c l s' \<and> normalize s' = normalize s \<and> next_row s' = next_row s + ?n \<and>
      first_id b = next_row s \<and> raw_rows b = ?n \<and> raw_cols b = cols l \<and> raw_normalize b = normalize s \<and>
      vector_bytes b = take (?n * (cols l * 4)) (vectors_rest s) \<and>
      raw_lines b = map_option (\<lambda>ls. take ?n (drop (next_row s) ls)) (all_lines c)"
  proof (cases "all_lines c")
    case None
    then show ?thesis
      using assms(1) at k rem len
      by (auto simp: next_raw_def Let_def stream_at_def mult.assoc add_mult_distrib drop_drop add.assoc add.left_commute)
  next
    case (Some ls)
    show ?thesis
    proof (cases rule: take_lines_cases [of "next_row s" "rows l" ?n "drop (next_row s) ls"])
      case ok
      then have valid: "list_all valid_utf8 (take (next_row s + ?n) ls)" and le: "next_row s + ?n \<le> length ls"
        using at Some by (auto simp: take_add)
      have pr: "payloads_rest s = Some (drop (next_row s) ls)" using at Some by simp
      have lay: "layout s = l" and fin: "\<not> finished s" using at by simp_all
      have nr: "next_raw k s = (Inr (Some \<lparr>first_id = next_row s, raw_rows = ?n, raw_cols = cols l,
            raw_normalize = normalize s, vector_bytes = take (?n * cols l * 4) (vectors_rest s),
            raw_lines = Some (take ?n (drop (next_row s) ls))\<rparr>),
          s\<lparr>vectors_rest := drop (?n * cols l * 4) (vectors_rest s),
            payloads_rest := Some (drop ?n (drop (next_row s) ls)), next_row := next_row s + ?n\<rparr>)"
        unfolding next_raw_def Let_def lay pr option.case ok(1) prod.case sum.case
        using k fin rem len by (simp only: if_False if_True)
      have "drop (?n * cols l * 4) (vectors_rest s) =
          drop ((next_row s + ?n) * (cols l * 4)) (drop (data_offset l) (vectors_file c))"
        using at by (simp add: mult.assoc add_mult_distrib add.assoc add.left_commute)
      note rest = this
      from assms(1) nr have b: "b = \<lparr>first_id = next_row s, raw_rows = ?n, raw_cols = cols l,
            raw_normalize = normalize s, vector_bytes = take (?n * cols l * 4) (vectors_rest s),
            raw_lines = Some (take ?n (drop (next_row s) ls))\<rparr>"
        and s': "s' = s\<lparr>vectors_rest := drop (?n * cols l * 4) (vectors_rest s),
            payloads_rest := Some (drop ?n (drop (next_row s) ls)), next_row := next_row s + ?n\<rparr>"
        by (simp_all only: prod.inject sum.inject option.inject)
      have "next_row s + ?n \<le> rows l" using at by linarith
      moreover have "drop ?n (drop (next_row s) ls) = drop (next_row s + ?n) ls" by (simp add: add.commute)
      ultimately have "stream_at c l s'"
        using lay fin valid le rest Some unfolding stream_at_def s' by simp
      then show ?thesis unfolding b s' by (simp add: Some mult.assoc)
    next
      case (err e rest)
      then show ?thesis using assms(1) at k rem len Some by (auto simp: next_raw_def Let_def)
    qed
  qed
  with k rem show "stream_at c l s'" and "normalize s' = normalize s"
    and "first_id b = next_row s" and "next_row s' = next_row s + raw_rows b" and "0 < raw_rows b"
    and "raw_rows b \<le> k" and "raw_cols b = cols l" and "raw_normalize b = normalize s"
    and "vector_bytes b = take (raw_rows b * (cols l * 4)) (vectors_rest s)"
    and "raw_lines b = map_option (\<lambda>ls. take (raw_rows b) (drop (next_row s) ls)) (all_lines c)"
    by simp_all
qed

text \<open>When a call succeeds without a batch: the end of both files.\<close>

lemma next_raw_end:
  assumes "stream_at c l s" and "next_raw k s = (Inr None, s')"
  shows "next_row s = rows l" and "\<And>ls. all_lines c = Some ls \<Longrightarrow> length ls = rows l"
proof -
  note at = assms(1) [unfolded stream_at_def]
  have fin: "rows l - next_row s = 0" and f: "fst (finish s) = Inr ()"
    using assms(2) at by (auto simp: next_raw_def Let_def split: if_splits prod.splits sum.splits option.splits)
  from fin at show row: "next_row s = rows l" by simp
  fix ls assume ls: "all_lines c = Some ls"
  from f at ls have "drop (next_row s) ls = []"
    by (auto simp: finish_def split: if_splits)
  with at ls row show "length ls = rows l" by fastforce
qed

lemma next_raw_at_end:
  assumes "stream_at c l s" and "0 < k" and "next_row s = rows l"
    and "\<And>ls. all_lines c = Some ls \<Longrightarrow> length ls = rows l"
  shows "fst (next_raw k s) = Inr None"
  using assms by (cases "all_lines c") (auto simp: next_raw_def Let_def stream_at_def finish_def)

lemma next_raw_some:
  assumes "stream_at c l s" and "0 < k" and "next_row s < rows l" and "exact_layout c l"
    and "\<And>ls. all_lines c = Some ls \<Longrightarrow> rows l \<le> length ls \<and> list_all valid_utf8 ls"
  shows "\<exists>b s'. next_raw k s = (Inr (Some b), s')"
proof -
  let ?n = "min (rows l - next_row s) k"
  note at = assms(1) [unfolded stream_at_def]
  have "length (vectors_rest s) = (rows l - next_row s) * (cols l * 4)"
    using at exact_layoutD(2) [OF assms(4)] by (simp add: diff_mult_distrib)
  moreover have "?n * (cols l * 4) \<le> (rows l - next_row s) * (cols l * 4)" by (intro mult_le_mono1) simp
  ultimately have len: "\<not> length (vectors_rest s) < ?n * cols l * 4" by (simp add: mult.assoc)
  show ?thesis
  proof (cases "all_lines c")
    case None
    then show ?thesis using at assms(2,3) len by (simp add: next_raw_def Let_def)
  next
    case (Some ls)
    show ?thesis
    proof (cases rule: take_lines_cases [of "next_row s" "rows l" ?n "drop (next_row s) ls"])
      case ok
      then show ?thesis using at assms(2,3) len Some by (simp add: next_raw_def Let_def)
    next
      case (err e rest)
      have "?n \<le> length (drop (next_row s) ls)" using assms(5) [OF Some] by auto
      moreover have "list_all valid_utf8 (take ?n (drop (next_row s) ls))"
        using assms(5) [OF Some] by (auto simp: list_all_iff dest!: in_set_takeD in_set_dropD)
      ultimately show ?thesis using err(2) by blast
    qed
  qed
qed

section \<open>Draining a stream\<close>

text \<open>One consumer that takes batch after batch: what the workers of an upload see between them.\<close>

definition batch_append :: "batch \<Rightarrow> batch \<Rightarrow> batch" where
  "batch_append x y = \<lparr>batch_ids = batch_ids x @ batch_ids y, batch_vectors = batch_vectors x @ batch_vectors y,
     batch_metadata = batch_metadata x @ batch_metadata y\<rparr>"

lemma next_raw_progress:
  "next_raw k s = (Inr (Some b), s') \<Longrightarrow> rows (layout s') - next_row s' < rows (layout s) - next_row s"
  by (auto simp: next_raw_def Let_def split: if_splits prod.splits sum.splits option.splits)

function drain ::
    "(f32 list \<Rightarrow> f32 list) \<Rightarrow> (string \<Rightarrow> json option) \<Rightarrow> nat \<Rightarrow> compound_stream \<Rightarrow> stream_error + batch" where
  "drain nr pj k s = (case next_raw k s of
       (Inl e, _) \<Rightarrow> Inl e
     | (Inr None, _) \<Rightarrow> Inr \<lparr>batch_ids = [], batch_vectors = [], batch_metadata = []\<rparr>
     | (Inr (Some b), s') \<Rightarrow>
         rbind (decode nr pj b) (\<lambda>x. rbind (drain nr pj k s') (\<lambda>y. Inr (batch_append x y))))"
  by pat_completeness auto
termination
  by (relation "measure (\<lambda>(_, _, _, s). rows (layout s) - next_row s)") (auto intro: next_raw_progress [OF sym])

declare drain.simps [simp del]

text \<open>The same rows, read in one piece from row \<open>a\<close> on.\<close>

definition all_vectors :: "(f32 list \<Rightarrow> f32 list) \<Rightarrow> bool \<Rightarrow> corpus \<Rightarrow> f32_npy_layout \<Rightarrow> f32 list list" where
  "all_vectors nr nrm c l =
     map ((if nrm then nr else id) \<circ> decode_row) (chunks_exact (cols l * 4) (drop (data_offset l) (vectors_file c)))"

definition lines_fit :: "corpus \<Rightarrow> f32_npy_layout \<Rightarrow> bool" where
  "lines_fit c l = (case all_lines c of
       None \<Rightarrow> True
     | Some ls \<Rightarrow> length ls = rows l \<and> list_all valid_utf8 ls)"

definition decode_lines :: "(string \<Rightarrow> json option) \<Rightarrow> nat \<Rightarrow> string list \<Rightarrow> stream_error + metadata_item option list" where
  "decode_lines pj a ls = traverse (\<lambda>(i, l). decode_line pj i l) (enumerate a ls)"

definition metadata_from :: "(string \<Rightarrow> json option) \<Rightarrow> corpus \<Rightarrow> f32_npy_layout \<Rightarrow> nat \<Rightarrow> nat \<Rightarrow>
    stream_error + metadata_item option list" where
  "metadata_from pj c l a n = (case all_lines c of
       None \<Rightarrow> Inr (replicate n None)
     | Some ls \<Rightarrow> decode_lines pj a (take n (drop a ls)))"

definition rows_from :: "(f32 list \<Rightarrow> f32 list) \<Rightarrow> bool \<Rightarrow> (string \<Rightarrow> json option) \<Rightarrow> corpus \<Rightarrow> f32_npy_layout \<Rightarrow>
    nat \<Rightarrow> nat \<Rightarrow> stream_error + batch" where
  "rows_from nr nrm pj c l a n =
     rbind (metadata_from pj c l a n) (\<lambda>ms.
       Inr \<lparr>batch_ids = map cast_i64 [a..<a + n], batch_vectors = take n (drop a (all_vectors nr nrm c l)),
            batch_metadata = ms\<rparr>)"

lemma length_all_vectors: "exact_layout c l \<Longrightarrow> length (all_vectors nr nrm c l) = rows l"
  using exact_layoutD [of c l] by (simp add: all_vectors_def length_chunks_exact)

text \<open>Each batch decodes to its own rows of the corpus.\<close>

lemma decode_next_raw:
  assumes "next_raw k s = (Inr (Some b), s')" and "stream_at c l s" and "exact_layout c l"
  shows "decode nr pj b = rows_from nr (normalize s) pj c l (next_row s) (raw_rows b)"
proof -
  note nb = next_raw_batch [OF assms(1,2)]
  let ?k = "cols l * 4" let ?d = "drop (data_offset l) (vectors_file c)"
  have k: "0 < ?k" using exact_layoutD(1) [OF assms(3)] by simp
  have "vectors_rest s = drop (next_row s * ?k) ?d" using assms(2) by (simp add: stream_at_def)
  then have "chunks_exact ?k (vector_bytes b) = take (raw_rows b) (drop (next_row s) (chunks_exact ?k ?d))"
    by (simp only: nb(9) chunks_exact_take [OF k] chunks_exact_drop [OF k])
  then have "map ((if raw_normalize b then nr else id) \<circ> decode_row) (chunks_exact (raw_cols b * 4) (vector_bytes b)) =
      take (raw_rows b) (drop (next_row s) (all_vectors nr (normalize s) c l))"
    by (simp only: nb(7,8) all_vectors_def take_map drop_map)
  moreover have "map (\<lambda>i. cast_i64 (first_id b + i)) [0..<raw_rows b] =
      map cast_i64 [next_row s..<next_row s + raw_rows b]"
    unfolding nb(3) by (rule nth_equalityI) auto
  moreover have "(case raw_lines b of
        None \<Rightarrow> Inr (replicate (raw_rows b) None)
      | Some ls \<Rightarrow> traverse (\<lambda>(i, l). decode_line pj i l) (enumerate (first_id b) ls)) =
      metadata_from pj c l (next_row s) (raw_rows b)"
    by (cases "all_lines c") (simp_all add: nb(3,10) metadata_from_def decode_lines_def)
  ultimately show ?thesis unfolding decode_def rows_from_def by (simp only:)
qed

lemma rows_from_split:
  assumes "n \<le> m" and "a + m \<le> rows l" and "lines_fit c l" and "exact_layout c l"
  shows "rows_from nr nrm pj c l a m =
    rbind (rows_from nr nrm pj c l a n) (\<lambda>x. rbind (rows_from nr nrm pj c l (a + n) (m - n)) (\<lambda>y.
      Inr (batch_append x y)))"
proof -
  let ?V = "all_vectors nr nrm c l"
  have v: "take m (drop a ?V) = take n (drop a ?V) @ take (m - n) (drop (a + n) ?V)"
    using take_add [of n "m - n" "drop a ?V"] assms(1) by (simp add: add.commute)
  have i: "[a..<a + m] = [a..<a + n] @ [a + n..<a + n + (m - n)]"
    using upt_add_eq_append [of a "a + n" "m - n"] assms(1) by simp
  have "metadata_from pj c l a m = rbind (metadata_from pj c l a n) (\<lambda>u.
      rbind (metadata_from pj c l (a + n) (m - n)) (\<lambda>w. Inr (u @ w)))"
  proof (cases "all_lines c")
    case None
    then show ?thesis using assms(1) by (simp add: metadata_from_def flip: replicate_add)
  next
    case (Some ls)
    then have len: "length (take n (drop a ls)) = n" using assms(1,2,3) by (simp add: lines_fit_def)
    have "take m (drop a ls) = take n (drop a ls) @ take (m - n) (drop (a + n) ls)"
      using take_add [of n "m - n" "drop a ls"] assms(1) by (simp add: add.commute)
    then show ?thesis
      by (simp only: metadata_from_def Some option.case decode_lines_def enumerate_append_eq len traverse_append)
  qed
  then show ?thesis
    unfolding rows_from_def v i map_append
    by (cases "metadata_from pj c l a n"; cases "metadata_from pj c l (a + n) (m - n)")
      (simp_all add: batch_append_def)
qed

lemma drain_eq:
  assumes "stream_at c l s" and "exact_layout c l" and "0 < k"
  shows "drain nr pj k s = Inr x \<longleftrightarrow>
    lines_fit c l \<and> rows_from nr (normalize s) pj c l (next_row s) (rows l - next_row s) = Inr x"
  using assms(1,3)
proof (induction nr pj k s arbitrary: x rule: drain.induct)
  case (1 nr pj k s)
  note at = 1(2) and pos = 1(3)
  have prev: "\<And>ls. all_lines c = Some ls \<Longrightarrow> next_row s \<le> length ls \<and> list_all valid_utf8 (take (next_row s) ls)"
    and le: "next_row s \<le> rows l"
    using at by (simp_all add: stream_at_def)
  obtain res s' where nr: "next_raw k s = (res, s')" by (cases "next_raw k s")
  show ?case
  proof (cases res)
    case (Inl e)
    have "\<not> lines_fit c l"
    proof
      assume fit: "lines_fit c l"
      then have fits: "all_lines c = Some ls \<Longrightarrow> length ls = rows l \<and> list_all valid_utf8 ls" for ls
        by (simp add: lines_fit_def)
      show False
      proof (cases "next_row s = rows l")
        case True
        then show False using next_raw_at_end [OF at pos True] fits nr Inl by fastforce
      next
        case False
        then show False
          using next_raw_some [OF at pos _ assms(2)] le fits nr Inl by fastforce
      qed
    qed
    then show ?thesis by (simp add: drain.simps nr Inl)
  next
    case (Inr r)
    show ?thesis
    proof (cases r)
      case None
      note e = next_raw_end [OF at, of k s', unfolded nr Inr None, simplified]
      then have "lines_fit c l" using prev by (auto simp: lines_fit_def split: option.splits)
      moreover have "rows_from nr (normalize s) pj c l (next_row s) (rows l - next_row s) =
          Inr \<lparr>batch_ids = [], batch_vectors = [], batch_metadata = []\<rparr>"
        using e(1) by (simp add: rows_from_def metadata_from_def decode_lines_def split: option.splits)
      ultimately show ?thesis by (auto simp: drain.simps nr Inr None)
    next
      case (Some b)
      with nr Inr have nb: "next_raw k s = (Inr (Some b), s')" by simp
      note p = next_raw_batch [OF nb at]
      have ih: "drain nr pj k s' = Inr y \<longleftrightarrow> lines_fit c l \<and>
          rows_from nr (normalize s) pj c l (next_row s + raw_rows b) (rows l - (next_row s + raw_rows b)) = Inr y" for y
        using 1(1) [OF nb [symmetric] refl refl p(1) pos] by (simp add: p(2,4))
      have dec: "decode nr pj b = rows_from nr (normalize s) pj c l (next_row s) (raw_rows b)"
        by (rule decode_next_raw [OF nb at assms(2)])
      have "next_row s' \<le> rows l" using p(1) by (simp add: stream_at_def)
      then have fitted: "raw_rows b \<le> rows l - next_row s" using p(4) by linarith
      have unfold: "drain nr pj k s = rbind (decode nr pj b) (\<lambda>x. rbind (drain nr pj k s') (\<lambda>y. Inr (batch_append x y)))"
        by (simp add: drain.simps [of nr pj k s] nb)
      show ?thesis
      proof (cases "lines_fit c l")
        case True
        have "rows_from nr (normalize s) pj c l (next_row s) (rows l - next_row s) =
            rbind (decode nr pj b) (\<lambda>x. rbind (rows_from nr (normalize s) pj c l (next_row s + raw_rows b)
              (rows l - (next_row s + raw_rows b))) (\<lambda>y. Inr (batch_append x y)))"
          using rows_from_split [OF fitted _ True assms(2)] le by (simp add: dec)
        with True show ?thesis unfolding unfold by (simp add: ih)
      next
        case False
        then show ?thesis unfolding unfold by (simp add: ih)
      qed
    qed
  qed
qed

lemma payload_row_Inr_iff:
  "payload_row pj i l = Inr v \<longleftrightarrow> valid_utf8 l \<and> decode_line pj i l = Inr v"
  by (auto simp: payload_row_def decode_line_def split: option.splits)

lemma read_payloads_Inr_iff:
  "read_payloads_jsonl pj p = Inr ms \<longleftrightarrow>
     list_all valid_utf8 (read_lines p) \<and> decode_lines pj 0 (read_lines p) = Inr ms"
proof -
  have "list_all2 (\<lambda>x y. (case x of (i, l) \<Rightarrow> payload_row pj i l) = (Inr y :: string payload_error + _)) (enumerate n ls) ms \<longleftrightarrow>
      list_all valid_utf8 ls \<and>
      list_all2 (\<lambda>x y. (case x of (i, l) \<Rightarrow> decode_line pj i l) = Inr y) (enumerate n ls) ms" for n ls
  proof (induction ls arbitrary: n ms)
    case (Cons l ls)
    then show ?case by (cases ms) (auto simp: payload_row_Inr_iff)
  qed simp
  then show ?thesis
    by (simp add: read_payloads_jsonl_eq decode_lines_def traverse_Inr_iff)
qed

lemma cast_i64_small: "n < 2 ^ 63 \<Longrightarrow> cast_i64 n = int n"
  by (simp add: cast_i64_def)

lemma drain_memory_iff:
  assumes "exact_layout c l" and "open_stream c nrm = Inr s" and "0 < k"
    and "validate_npy_size_bound (vectors_file c) = Inr ()"
    and "read_npy (vectors_file c) =
      Some (map decode_row (chunks_exact (cols l * 4) (drop (data_offset l) (vectors_file c))))"
  shows "drain nr pj k s = Inr x \<longleftrightarrow> read_compound_data read_npy nr pj c nrm = Inr x"
proof -
  have "layout s = l"
    using assms(1,2) by (auto simp: open_stream_def exact_layout_def)
  note o = open_stream_at [OF assms(2) this]
  let ?V = "all_vectors nr nrm c l"
  have len: "length ?V = rows l" by (rule length_all_vectors [OF assms(1)])
  have arr: "length (chunks_exact (cols l * 4) (drop (data_offset l) (vectors_file c))) = rows l"
    using len by (simp add: all_vectors_def)
  have ids: "map cast_i64 [0..<rows l] = map int [0..<rows l]"
    using exact_layoutD(3) [OF assms(1)] by (intro map_cong) (auto intro!: cast_i64_small)
  have vecs: "map (if nrm then nr else id) (map decode_row (chunks_exact (cols l * 4) (drop (data_offset l) (vectors_file c)))) = ?V"
    by (simp add: all_vectors_def)
  have npy: "read_npy_vectors read_npy nr (vectors_file c) nrm = Inr (map int [0..<rows l], ?V)"
    by (simp add: read_npy_vectors_def assms(4,5) vecs [simplified] arr)
  have "drain nr pj k s = Inr x \<longleftrightarrow> lines_fit c l \<and> rows_from nr nrm pj c l 0 (rows l) = Inr x"
    using drain_eq [OF o(1) assms(1,3)] by (simp add: o(2,3))
  also have "\<dots> \<longleftrightarrow> read_compound_data read_npy nr pj c nrm = Inr x"
  proof (cases "payloads_file c")
    case None
    then show ?thesis
      by (auto simp: rows_from_def metadata_from_def lines_fit_def all_lines_def read_compound_data_def npy len ids)
  next
    case (Some p)
    have "decode_lines pj 0 (read_lines p) = Inr ms \<Longrightarrow> length ms = length (read_lines p)" for ms
      unfolding decode_lines_def by (drule traverse_InrD(1)) simp
    then show ?thesis
      using Some
      by (auto simp: rows_from_def metadata_from_def lines_fit_def all_lines_def read_compound_data_def npy len ids
          read_payloads_Inr_iff split: if_splits)
  qed
  finally show ?thesis .
qed

section \<open>Properties\<close>

text \<open>
  C9: the streaming reader delivers exactly what the in-memory reader does.  For every \<open>vectors.npy\<close> the
  stream accepts at its true size, every payload file, every batch size and either normalization,
  draining the stream yields a corpus \<open>x\<close> if and only if the in-memory reader yields the same \<open>x\<close>: the
  same ids in the same order, the same vectors bit for bit and the same metadata; when one of them
  refuses the corpus (short, long, malformed or non-UTF-8 payloads) so does the other.  It assumes that
  the array parser reads a C-order \<open>'<f4'\<close> file row by row.
\<close>

theorem stream_equals_memory:
  assumes "exact_layout c l" and "open_stream c nrm = Inr s" and "0 < k"
    and "validate_npy_size_bound (vectors_file c) = Inr ()"
    and "read_npy (vectors_file c) =
      Some (map decode_row (chunks_exact (cols l * 4) (drop (data_offset l) (vectors_file c))))"
  shows "drain nr pj k s = Inr x \<longleftrightarrow> read_compound_data read_npy nr pj c nrm = Inr x"
  using assms by (rule drain_memory_iff)

definition sample_corpus :: corpus where
  "sample_corpus = \<lparr>vectors_file = npy_file ''1, 1'' ''abcd'', payloads_file = Some ''{}''\<rparr>"

lemma sample_layout:
  "f32_npy_layout_of (npy_file ''1, 1'' ''abcd'') = Inr \<lparr>rows = 1, cols = 1, data_offset = 69\<rparr>"
proof -
  have "read_npy_header (npy_file ''1, 1'' ''abcd'') =
      Inr (Some \<lparr>dict = npy_dict ''1, 1'', data_start = 69, file_len = 73\<rparr>)"
    by (simp add: read_npy_header_def npy_eval Let_def)
  moreover have "parse_npy_shape_dims (npy_dict ''1, 1'') = Some [1, 1]"
    by (simp add: parse_npy_shape_dims_def npy_eval Let_def trim_def white_space_def strip_any.simps
        parse_u64_def digits_value_def is_digit_def)
  ultimately show ?thesis
    by (simp add: f32_npy_layout_of_def npy_dict_f32 Let_def data_bytes_def checked_add_def)
qed

lemma sample_bound: "validate_npy_size_bound (npy_file ''1, 1'' ''abcd'') = Inr ()"
proof -
  have "read_npy_header (npy_file ''1, 1'' ''abcd'') =
      Inr (Some \<lparr>dict = npy_dict ''1, 1'', data_start = 69, file_len = 73\<rparr>)"
    by (simp add: read_npy_header_def npy_eval Let_def)
  moreover have "parse_npy_shape_itemsize (npy_dict ''1, 1'') = Some (1, 4)"
    by (simp add: parse_npy_shape_itemsize_def parse_npy_shape_dims_def npy_eval Let_def trim_def white_space_def
        strip_any.simps parse_u64_def digits_value_def is_digit_def checked_mul_def)
  ultimately show ?thesis by (simp add: validate_npy_size_bound_def checked_mul_def checked_add_def)
qed

lemma sample_payload: "\<not> blank ''{}''"
  by code_simp

theorem stream_equals_memory_witness:
  "\<exists>s x. open_stream sample_corpus False = Inr s \<and>
     drain id (\<lambda>_. Some (Object [])) 10 s = Inr x \<and> batch_ids x = [0] \<and>
     batch_metadata x = [Some \<lparr>payload_fields = []\<rparr>]"
proof -
  let ?l = "\<lparr>rows = 1, cols = 1, data_offset = 69\<rparr>"
  let ?arr = "map decode_row (chunks_exact (cols ?l * 4) (drop (data_offset ?l) (vectors_file sample_corpus)))"
  have lay: "exact_layout sample_corpus ?l"
    by (simp add: exact_layout_def sample_corpus_def sample_layout)
  obtain s where s: "open_stream sample_corpus False = Inr s"
    by (simp add: open_stream_def sample_corpus_def sample_layout)
  have len: "length ?arr = 1"
    using length_all_vectors [OF lay, of id False] by (simp add: all_vectors_def)
  have "read_compound_data (\<lambda>_. Some ?arr) id (\<lambda>_. Some (Object [])) sample_corpus False =
      Inr \<lparr>batch_ids = [0], batch_vectors = ?arr, batch_metadata = [Some \<lparr>payload_fields = []\<rparr>]\<rparr>"
    using len
    by (simp add: read_compound_data_def read_npy_vectors_def sample_corpus_def sample_bound
        read_payloads_jsonl_eq read_lines_def lf_def payload_row_def valid_utf8_def byte_def sample_payload
        map_filter_simps)
  then have "drain id (\<lambda>_. Some (Object [])) 10 s =
      Inr \<lparr>batch_ids = [0], batch_vectors = ?arr, batch_metadata = [Some \<lparr>payload_fields = []\<rparr>]\<rparr>"
    using stream_equals_memory [OF lay s, of 10 "\<lambda>_. Some ?arr" id "\<lambda>_. Some (Object [])"]
      sample_bound by (simp add: sample_corpus_def)
  with s show ?thesis by auto
qed

end
