(* ===== verification/Upload_Plan.thy ===== *)
theory Upload_Plan
  imports Stream_Reader
begin

text \<open>
  Which reader an upload uses and what bounds the client's memory: the planning half of
  \<open>src/src/upload_stream.rs\<close>.  The files of \<open>/proc\<close> and of the cgroup are their contents, absent when they
  do not exist.  \<open>u64\<close> values are \<open>nat\<close>, with saturation and wrap-around written out.  The explanatory strings
  of a decision (\<open>source\<close>, \<open>reason\<close>) are left out.
\<close>

section \<open>The flag\<close>

datatype upload_reader = Auto | Stream | Memory

fun reader_as_str :: "upload_reader \<Rightarrow> string" where
  "reader_as_str Auto = ''auto''"
| "reader_as_str Stream = ''stream''"
| "reader_as_str Memory = ''memory''"

datatype plan_error =
    Unknown_Reader string
  | Not_Compound
  | Not_Streamable npy_error
  | Does_Not_Fit nat nat nat

definition reader_from_str :: "string \<Rightarrow> plan_error + upload_reader" where
  "reader_from_str s =
     (if s = ''auto'' then Inr Auto
      else if s = ''stream'' then Inr Stream
      else if s = ''memory'' then Inr Memory
      else Inl (Unknown_Reader s))"

definition AUTO_STREAM_MIN_BYTES :: nat where
  "AUTO_STREAM_MIN_BYTES = 128 * 2 ^ 30"

definition IN_MEMORY_PEAK_FACTOR :: nat where
  "IN_MEMORY_PEAK_FACTOR = 2"

definition STREAM_READ_BUFFER :: nat where
  "STREAM_READ_BUFFER = 2 ^ 20"

section \<open>Available memory\<close>

record memory_files =
  meminfo :: "string option"
  cgroup2_max :: "string option"
  cgroup2_current :: "string option"
  cgroup2_stat :: "string option"
  cgroup1_limit :: "string option"
  cgroup1_usage :: "string option"
  cgroup1_stat :: "string option"

text \<open>\<open>str::split_whitespace\<close>: the words between runs of white space.\<close>

fun take_word :: "string \<Rightarrow> string \<times> string" where
  "take_word [] = ([], [])"
| "take_word (c # s) =
     (if list_ex (\<lambda>p. prefix p (c # s)) white_space then ([], c # s)
      else let (w, r) = take_word s in (c # w, r))"

lemma length_take_word: "length (snd (take_word s)) \<le> length s"
  by (induction s) (auto simp: case_prod_unfold Let_def)

lemma length_strip_any: "length (strip_any ps s) \<le> length s"
proof (induction ps s rule: strip_any.induct)
  case (1 ps s)
  then show ?case
    by (subst strip_any.simps) (fastforce split: option.splits)
qed

function split_whitespace :: "string \<Rightarrow> string list" where
  "split_whitespace s = (case strip_any white_space s of
       [] \<Rightarrow> []
     | c # t \<Rightarrow> let (w, r) = take_word t in (c # w) # split_whitespace r)"
  by pat_completeness auto
termination
proof (relation "measure length")
  show "wf (measure length)" by simp
next
  fix s t :: string and c p w r
  assume "strip_any white_space s = c # t" and "p = take_word t" and "(w, r) = p"
  then show "(r, s) \<in> measure length"
    using length_take_word [of t] length_strip_any [of white_space s] by (cases "take_word t") simp
qed

declare split_whitespace.simps [simp del]

definition nth_word :: "nat \<Rightarrow> string \<Rightarrow> string option" where
  "nth_word n s = (let ws = split_whitespace s in if n < length ws then Some (ws ! n) else None)"

definition parse_mem_available :: "string \<Rightarrow> nat option" where
  "parse_mem_available txt =
     Option.bind (List.find (prefix ''MemAvailable:'') (buf_lines txt)) (\<lambda>line.
     Option.bind (nth_word 1 line) (\<lambda>w.
       map_option (\<lambda>kib. kib * 1024 mod 2 ^ 64) (parse_u64 w)))"

definition trimmed_u64 :: "string \<Rightarrow> nat option" where
  "trimmed_u64 s = parse_u64 (trim s)"

text \<open>The reclaimable page cache a \<open>memory.stat\<close> names; 0 when it names none.\<close>

definition stat_cache :: "string option \<Rightarrow> string \<Rightarrow> nat" where
  "stat_cache stat stat_key = (case stat of
       None \<Rightarrow> 0
     | Some txt \<Rightarrow>
         (case Option.bind (List.find (\<lambda>l. nth_word 0 l = Some stat_key) (buf_lines txt)) (\<lambda>l.
              Option.bind (nth_word 1 l) trimmed_u64) of
            Some c \<Rightarrow> c
          | None \<Rightarrow> 0))"

definition headroom :: "string option \<Rightarrow> string option \<Rightarrow> string option \<Rightarrow> string \<Rightarrow> nat option" where
  "headroom cap usage stat stat_key =
     Option.bind cap (\<lambda>raw.
       if trim raw = ''max'' then None
       else Option.bind (parse_u64 (trim raw)) (\<lambda>l.
         Option.bind (case usage of None \<Rightarrow> Some 0 | Some u \<Rightarrow> trimmed_u64 u) (\<lambda>used.
           Some (l - (used - stat_cache stat stat_key)))))"

definition cgroup_headroom :: "memory_files \<Rightarrow> nat option" where
  "cgroup_headroom f =
     (case headroom (cgroup2_max f) (cgroup2_current f) (cgroup2_stat f) ''inactive_file'' of
        Some h \<Rightarrow> Some h
      | None \<Rightarrow>
          if cgroup2_max f = None
          then headroom (cgroup1_limit f) (cgroup1_usage f) (cgroup1_stat f) ''total_inactive_file''
          else None)"

definition available_memory :: "memory_files \<Rightarrow> nat option" where
  "available_memory f =
     (case (Option.bind (meminfo f) parse_mem_available, cgroup_headroom f) of
        (Some b, Some h) \<Rightarrow> Some (min b h)
      | (Some b, None) \<Rightarrow> Some b
      | (None, h) \<Rightarrow> h)"

text \<open>\<open>MemorySnapshots\<close>: the reading of a dataset is taken once per invocation.\<close>

type_synonym memory_snapshots = "string \<rightharpoonup> nat option"

definition get_or_measure :: "memory_snapshots \<Rightarrow> string \<Rightarrow> nat option \<Rightarrow> nat option \<times> memory_snapshots" where
  "get_or_measure taken name measured = (case taken name of
       Some m \<Rightarrow> (m, taken)
     | None \<Rightarrow> (measured, taken(name \<mapsto> measured)))"

section \<open>The decision\<close>

definition in_memory_fits :: "nat \<Rightarrow> nat option \<Rightarrow> plan_error + unit" where
  "in_memory_fits vector_size mem =
     (let need = saturating_mul vector_size IN_MEMORY_PEAK_FACTOR in
      case mem of
        Some avail \<Rightarrow> if need > avail then Inl (Does_Not_Fit vector_size need avail) else Inr ()
      | None \<Rightarrow> Inr ())"

definition auto_streams :: "nat \<Rightarrow> nat option \<Rightarrow> bool" where
  "auto_streams vector_size mem =
     (if vector_size \<ge> AUTO_STREAM_MIN_BYTES then True else \<not> is_ok (in_memory_fits vector_size mem))"

datatype upload_plan = In_Memory | Stream_With f32_npy_layout

fun streams :: "upload_plan \<Rightarrow> bool" where
  "streams (Stream_With _) = True"
| "streams In_Memory = False"

text \<open>The compound directory is the bytes of its \<open>vectors.npy\<close>.\<close>

fun plan_upload :: "upload_reader \<Rightarrow> string option \<Rightarrow> nat option \<Rightarrow> plan_error + upload_plan" where
  "plan_upload Memory _ _ = Inr In_Memory"
| "plan_upload Stream None _ = Inl Not_Compound"
| "plan_upload Stream (Some npy) _ =
     rbind (map_err Not_Streamable (f32_npy_layout_of npy)) (\<lambda>l. Inr (Stream_With l))"
| "plan_upload Auto None _ = Inr In_Memory"
| "plan_upload Auto (Some npy) mem = (case streamable_layout npy of
       Some l \<Rightarrow> if auto_streams (data_bytes l) mem then Inr (Stream_With l) else Inr In_Memory
     | None \<Rightarrow> Inr In_Memory)"

definition memory_bound_bytes :: "nat \<Rightarrow> nat \<Rightarrow> nat \<Rightarrow> nat \<Rightarrow> nat" where
  "memory_bound_bytes par batch_size dims payload_bytes =
     (let per_row = 4 * dims + (4 * dims + 24) + 16 * dims + 4 * payload_bytes
      in (max par 1 * max batch_size 1 * per_row + 2 * STREAM_READ_BUFFER) mod 2 ^ 64)"

definition mean_payload_bytes :: "string option \<Rightarrow> nat \<Rightarrow> nat" where
  "mean_payload_bytes payloads n = (case payloads of None \<Rightarrow> 0 | Some p \<Rightarrow> length p div max n 1)"

definition preflight_payloads ::
    "(string \<Rightarrow> json option) \<Rightarrow> compound_dir \<Rightarrow> ('s \<Rightarrow> metadata_item option \<Rightarrow> 'e + 's) \<Rightarrow> 's \<Rightarrow> 'e payload_error + 's" where
  "preflight_payloads parse_json dir visit s = visit_compound_metadata parse_json dir visit s"

section \<open>Facts\<close>

lemma reader_from_str_iff: "reader_from_str s = Inr r \<longleftrightarrow> s = reader_as_str r"
  by (cases r) (auto simp: reader_from_str_def)

text \<open>Later configurations of an invocation decide on the reading of the first.\<close>

lemma get_or_measure_stable:
  assumes "get_or_measure taken name m = (v, taken')"
  shows "fst (get_or_measure taken' name m') = v" and "other \<noteq> name \<Longrightarrow> taken' other = taken other"
  using assms by (auto simp: get_or_measure_def split: option.splits)

lemma available_memory_capped:
  "Option.bind (meminfo f) parse_mem_available = Some b \<Longrightarrow> cgroup_headroom f = Some h \<Longrightarrow>
   available_memory f = Some (min b h)"
  by (simp add: available_memory_def)

lemma auto_streams_iff:
  "auto_streams n mem \<longleftrightarrow> n \<ge> AUTO_STREAM_MIN_BYTES \<or> (\<exists>a. mem = Some a \<and> a < 2 * n)"
  by (auto simp: auto_streams_def in_memory_fits_def saturating_mul_def IN_MEMORY_PEAK_FACTOR_def
      AUTO_STREAM_MIN_BYTES_def Let_def split: option.splits)

section \<open>Properties\<close>

text \<open>
  When an upload streams.  \<open>memory\<close> never does and needs nothing of the dataset; \<open>stream\<close> does so or is
  an error, never a silent fallback; \<open>auto\<close> never fails, and streams exactly when the corpus is streamable
  and either reaches 128 GiB of vectors or would not fit in the known available memory at twice its
  vector bytes.
\<close>

theorem plan_upload_streams_iff:
  "(plan_upload Memory dir mem = Inr In_Memory) \<and>
   (plan_upload Stream dir mem = Inr p \<longrightarrow> streams p) \<and>
   (\<exists>p. plan_upload Auto dir mem = Inr p \<and>
      (streams p \<longleftrightarrow> (\<exists>npy l. dir = Some npy \<and> f32_npy_layout_of npy = Inr l \<and>
         (data_bytes l \<ge> 128 * 2 ^ 30 \<or> (\<exists>a. mem = Some a \<and> a < 2 * data_bytes l)))))"
proof (intro conjI)
  show "plan_upload Stream dir mem = Inr p \<longrightarrow> streams p" by (cases dir) auto
  show "\<exists>p. plan_upload Auto dir mem = Inr p \<and>
      (streams p \<longleftrightarrow> (\<exists>npy l. dir = Some npy \<and> f32_npy_layout_of npy = Inr l \<and>
         (data_bytes l \<ge> 128 * 2 ^ 30 \<or> (\<exists>a. mem = Some a \<and> a < 2 * data_bytes l))))"
  proof (cases dir)
    case (Some npy)
    show ?thesis
    proof (cases "f32_npy_layout_of npy")
      case (Inr l)
      then show ?thesis
        using Some auto_streams_iff [of "data_bytes l" mem]
        by (simp add: streamable_layout_def AUTO_STREAM_MIN_BYTES_def)
    qed (simp add: Some streamable_layout_def)
  qed simp
qed simp

theorem plan_upload_streams_iff_witness:
  "plan_upload Auto (Some (npy_file ''1, 1'' ''abcd'')) (Some 7) =
     Inr (Stream_With \<lparr>rows = 1, cols = 1, data_offset = 69\<rparr>) \<and>
   (\<exists>p. plan_upload Auto (Some (npy_file ''1, 1'' ''abcd'')) (Some 8) = Inr p \<and> \<not> streams p)"
proof
  show "plan_upload Auto (Some (npy_file ''1, 1'' ''abcd'')) (Some 7) =
      Inr (Stream_With \<lparr>rows = 1, cols = 1, data_offset = 69\<rparr>)"
    by (simp add: streamable_layout_def sample_layout auto_streams_iff data_bytes_def)
  have "\<not> (\<exists>npy l. Some (npy_file ''1, 1'' ''abcd'') = Some npy \<and> f32_npy_layout_of npy = Inr l \<and>
      (data_bytes l \<ge> 128 * 2 ^ 30 \<or> (\<exists>a. Some 8 = Some a \<and> a < 2 * data_bytes l)))"
    by (auto simp: sample_layout data_bytes_def)
  with plan_upload_streams_iff [of "Some (npy_file ''1, 1'' ''abcd'')" "Some 8"]
  show "\<exists>p. plan_upload Auto (Some (npy_file ''1, 1'' ''abcd'')) (Some 8) = Inr p \<and> \<not> streams p" by metis
qed

end
