(* ===== verification/Upload_Stream.thy ===== *)
theory Upload_Stream
  imports Stream_Reader Transition "HOL-Library.Multiset"
begin

text \<open>
  The parallel uploader of a streamed corpus: \<open>upload_stream\<close> of \<open>src/src/upload_stream.rs\<close>.

  The shared variables of the scope are a record, the point a worker has reached is a \<open>worker\<close> value that
  carries its local variables, and one step is one atomic action of one worker: a critical section
  under a mutex, one atomic operation, or a call of the engine.  \<open>connect\<close> and \<open>upload\<close> belong to the engine:
  either may fail at any call, with any message.  \<open>acked\<close> records, for the theorems only, the batches the
  engine acknowledged.  Workers do not panic, so no lock is poisoned.
\<close>

section \<open>Workers\<close>

datatype upload_error =
    Connect_Failed string
  | Upload_Failed string
  | Stream_Failed stream_error
  | Zero_Batch_Size
  | Partial_Corpus nat nat

datatype worker =
    Connecting
  | Checking
  | Reading
  | Entering raw_batch
  | Peaking raw_batch nat
  | Working raw_batch
  | Leaving "upload_error + nat"
  | Counting nat
  | Counting_Batch
  | Failing upload_error
  | Stopped

record shared =
  stream :: compound_stream
  upload_failure :: "upload_error option"
  uploaded :: nat
  batches :: nat
  in_flight :: nat
  max_in_flight :: nat
  exhausted :: bool
  acked :: "(raw_batch \<times> batch) list"

record stream_stats =
  stat_rows :: nat
  stat_batches :: nat
  stat_max_in_flight :: nat

text \<open>The closure \<open>fail\<close>: the first error is the one that is kept.\<close>

definition fail :: "upload_error \<Rightarrow> shared \<Rightarrow> shared" where
  "fail e g = (case upload_failure g of None \<Rightarrow> g\<lparr>upload_failure := Some e\<rparr> | Some _ \<Rightarrow> g)"

inductive wstep ::
    "(f32 list \<Rightarrow> f32 list) \<Rightarrow> (string \<Rightarrow> json option) \<Rightarrow> nat \<Rightarrow> shared \<Rightarrow> worker \<Rightarrow> shared \<Rightarrow> worker \<Rightarrow> bool"
  for nr :: "f32 list \<Rightarrow> f32 list" and pj :: "string \<Rightarrow> json option" and batch_size :: nat where
  connect_ok: "wstep nr pj batch_size g Connecting g Checking"
| connect_err: "wstep nr pj batch_size g Connecting g (Failing (Connect_Failed e))"
| check_failed: "upload_failure g \<noteq> None \<Longrightarrow> wstep nr pj batch_size g Checking g Stopped"
| check_go: "upload_failure g = None \<Longrightarrow> wstep nr pj batch_size g Checking g Reading"
| read_batch: "next_raw batch_size (stream g) = (Inr (Some b), s) \<Longrightarrow>
    wstep nr pj batch_size g Reading (g\<lparr>stream := s\<rparr>) (Entering b)"
| read_end: "next_raw batch_size (stream g) = (Inr None, s) \<Longrightarrow>
    wstep nr pj batch_size g Reading (g\<lparr>stream := s, exhausted := True\<rparr>) Stopped"
| read_err: "next_raw batch_size (stream g) = (Inl e, s) \<Longrightarrow>
    wstep nr pj batch_size g Reading (g\<lparr>stream := s\<rparr>) (Failing (Stream_Failed e))"
| enter: "wstep nr pj batch_size g (Entering b)
    (g\<lparr>in_flight := in_flight g + 1\<rparr>) (Peaking b (in_flight g + 1))"
| peak: "wstep nr pj batch_size g (Peaking b now)
    (g\<lparr>max_in_flight := max (max_in_flight g) now\<rparr>) (Working b)"
| decode_err: "decode nr pj b = Inl e \<Longrightarrow>
    wstep nr pj batch_size g (Working b) g (Leaving (Inl (Stream_Failed e)))"
| upload_err: "decode nr pj b = Inr x \<Longrightarrow>
    wstep nr pj batch_size g (Working b) g (Leaving (Inl (Upload_Failed e)))"
| upload_ok: "decode nr pj b = Inr x \<Longrightarrow>
    wstep nr pj batch_size g (Working b) (g\<lparr>acked := acked g @ [(b, x)]\<rparr>)
      (Leaving (Inr (length (batch_ids x))))"
| leave_err: "wstep nr pj batch_size g (Leaving (Inl e)) (g\<lparr>in_flight := in_flight g - 1\<rparr>) (Failing e)"
| leave_ok: "wstep nr pj batch_size g (Leaving (Inr n)) (g\<lparr>in_flight := in_flight g - 1\<rparr>) (Counting n)"
| count_rows: "wstep nr pj batch_size g (Counting n) (g\<lparr>uploaded := uploaded g + n\<rparr>) Counting_Batch"
| count_batch: "wstep nr pj batch_size g Counting_Batch (g\<lparr>batches := batches g + 1\<rparr>) Checking"
| fail: "wstep nr pj batch_size g (Failing e) (fail e g) Stopped"

inductive_simps wstep_from:
  "wstep nr pj k g Connecting g' w'" "wstep nr pj k g Checking g' w'" "wstep nr pj k g Reading g' w'"
  "wstep nr pj k g (Entering b) g' w'" "wstep nr pj k g (Peaking b now) g' w'"
  "wstep nr pj k g (Working b) g' w'" "wstep nr pj k g (Leaving r) g' w'"
  "wstep nr pj k g (Counting n) g' w'" "wstep nr pj k g Counting_Batch g' w'"
  "wstep nr pj k g (Failing e) g' w'" "wstep nr pj k g Stopped g' w'"

type_synonym upload_state = "shared \<times> worker list"

inductive upload_step ::
    "(f32 list \<Rightarrow> f32 list) \<Rightarrow> (string \<Rightarrow> json option) \<Rightarrow> nat \<Rightarrow> upload_state \<Rightarrow> upload_state \<Rightarrow> bool"
  for nr :: "f32 list \<Rightarrow> f32 list" and pj :: "string \<Rightarrow> json option" and batch_size :: nat where
  worker: "wstep nr pj batch_size g w g' w' \<Longrightarrow>
    upload_step nr pj batch_size (g, us @ w # vs) (g', us @ w' # vs)"

definition upload_init :: "nat \<Rightarrow> compound_stream \<Rightarrow> upload_state" where
  "upload_init par s =
     (\<lparr>stream = s, upload_failure = None, uploaded = 0, batches = 0, in_flight = 0, max_in_flight = 0,
       exhausted = False, acked = []\<rparr>, replicate (max par 1) Connecting)"

definition upload_final :: "upload_state \<Rightarrow> bool" where
  "upload_final st \<longleftrightarrow> list_all (\<lambda>w. w = Stopped) (snd st)"

text \<open>What follows the scope; \<open>expected\<close> is the row count the stream declared when it was opened.\<close>

definition upload_result :: "nat \<Rightarrow> shared \<Rightarrow> upload_error + stream_stats" where
  "upload_result expected g = (case upload_failure g of
       Some e \<Rightarrow> Inl e
     | None \<Rightarrow>
         if \<not> exhausted g \<or> uploaded g \<noteq> expected then Inl (Partial_Corpus (uploaded g) expected)
         else Inr \<lparr>stat_rows = uploaded g, stat_batches = batches g, stat_max_in_flight = max_in_flight g\<rparr>)"

text \<open>The guard before anything starts.\<close>

definition upload_start :: "nat \<Rightarrow> nat \<Rightarrow> compound_stream \<Rightarrow> upload_error + upload_state" where
  "upload_start par batch_size s =
     (if batch_size = 0 then Inl Zero_Batch_Size else Inr (upload_init par s))"

section \<open>Every run ends\<close>

fun rank :: "worker \<Rightarrow> nat" where
  "rank Stopped = 0"
| "rank (Failing _) = 1"
| "rank Reading = 2"
| "rank Checking = 3"
| "rank Counting_Batch = 4"
| "rank Connecting = 4"
| "rank (Counting _) = 5"
| "rank (Leaving _) = 6"
| "rank (Working _) = 7"
| "rank (Peaking _ _) = 8"
| "rank (Entering _) = 9"

definition rows_left :: "compound_stream \<Rightarrow> nat" where
  "rows_left s = rows (layout s) - next_row s"

definition upload_measure :: "upload_state \<Rightarrow> nat" where
  "upload_measure st = 8 * rows_left (stream (fst st)) + sum_list (map rank (snd st))"

lemma next_raw_rows_left:
  assumes "next_raw k s = (r, s')"
  shows "rows_left s' \<le> rows_left s" and "r = Inr (Some b) \<Longrightarrow> rows_left s' < rows_left s"
proof -
  show "r = Inr (Some b) \<Longrightarrow> rows_left s' < rows_left s"
    using next_raw_progress [of k s b s'] assms by (simp add: rows_left_def)
  show "rows_left s' \<le> rows_left s"
    using assms
    by (auto simp: rows_left_def next_raw_def Let_def finish_def
        split: if_splits prod.splits sum.splits option.splits)
qed

lemma stream_fail [simp]: "stream (fail e g) = stream g"
  by (simp add: fail_def split: option.splits)

lemma wstep_decreases:
  assumes "wstep nr pj k g w g' w'"
  shows "8 * rows_left (stream g') + rank w' < 8 * rows_left (stream g) + rank w"
  using assms
proof cases
  case (read_batch b s)
  then show ?thesis using next_raw_rows_left(2) [of k "stream g" _ s b] by simp
next
  case (read_end s)
  then show ?thesis using next_raw_rows_left(1) [of k "stream g" _ s] by simp
next
  case (read_err e s)
  then show ?thesis using next_raw_rows_left(1) [of k "stream g" _ s] by simp
qed auto

lemma upload_step_decreases: "upload_step nr pj k st st' \<Longrightarrow> upload_measure st' < upload_measure st"
  by (induction rule: upload_step.induct) (use wstep_decreases in \<open>fastforce simp: upload_measure_def\<close>)

lemma upload_step_wf: "wf {(st', st). upload_step nr pj k st st'}"
  by (rule wf_subset [OF wf_measure [of upload_measure]]) (auto dest: upload_step_decreases)

lemma wstep_enabled: "w \<noteq> Stopped \<Longrightarrow> \<exists>g' w'. wstep nr pj k g w g' w'"
proof (cases w)
  case Reading
  obtain r s where "next_raw k (stream g) = (r, s)" by (cases "next_raw k (stream g)")
  then show ?thesis using Reading by (cases r; cases "projr r") (auto intro: wstep.intros)
next
  case (Working b)
  then show ?thesis by (cases "decode nr pj b") (auto intro: wstep.intros)
next
  case (Leaving r)
  then show ?thesis by (cases r) (auto intro: wstep.intros)
next
  case Checking
  then show ?thesis by (cases "upload_failure g") (auto intro: wstep.intros)
qed (auto intro: wstep.intros)

lemma upload_not_stuck: "\<not> upload_final st \<Longrightarrow> \<exists>st'. upload_step nr pj k st st'"
proof -
  assume "\<not> upload_final st"
  then obtain w where "w \<in> set (snd st)" "w \<noteq> Stopped" by (auto simp: upload_final_def list_all_iff)
  then obtain us vs where "st = (fst st, us @ w # vs)" by (metis prod.collapse split_list)
  moreover from wstep_enabled [OF \<open>w \<noteq> Stopped\<close>] obtain g' w' where "wstep nr pj k (fst st) w g' w'" by blast
  ultimately show ?thesis by (metis upload_step.worker)
qed

section \<open>What holds in every reachable state\<close>

fun failing :: "worker \<Rightarrow> bool" where
  "failing (Failing _) = True"
| "failing (Leaving (Inl _)) = True"
| "failing _ = False"

definition pending :: "upload_state \<Rightarrow> bool" where
  "pending st \<longleftrightarrow> upload_failure (fst st) \<noteq> None \<or> list_ex failing (snd st)"

definition row_ids :: "raw_batch \<Rightarrow> nat list" where
  "row_ids b = [first_id b..<first_id b + raw_rows b]"

fun held :: "worker \<Rightarrow> raw_batch list" where
  "held (Entering b) = [b]"
| "held (Peaking b _) = [b]"
| "held (Working b) = [b]"
| "held _ = []"

fun uncounted :: "worker \<Rightarrow> nat" where
  "uncounted (Leaving (Inr n)) = n"
| "uncounted (Counting n) = n"
| "uncounted _ = 0"

fun busy :: "worker \<Rightarrow> nat" where
  "busy (Peaking _ _) = 1"
| "busy (Working _) = 1"
| "busy (Leaving _) = 1"
| "busy _ = 0"

text \<open>The number of batches being decoded or uploaded, and its peak, never exceed the workers.\<close>

definition flight_inv :: "nat \<Rightarrow> upload_state \<Rightarrow> bool" where
  "flight_inv n st \<longleftrightarrow> length (snd st) = n \<and> in_flight (fst st) = sum_list (map busy (snd st)) \<and>
     max_in_flight (fst st) \<le> n \<and> (\<forall>b now. Peaking b now \<in> set (snd st) \<longrightarrow> now \<le> n)"

lemma busy_le_1: "busy w \<le> 1"
  by (cases w) auto

lemma sum_busy_le: "sum_list (map busy ws) \<le> length ws"
  by (induction ws) (use busy_le_1 in \<open>auto intro: add_mono order.trans\<close>)

lemma fail_simps [simp]:
  "in_flight (fail e g) = in_flight g" "max_in_flight (fail e g) = max_in_flight g"
  "acked (fail e g) = acked g" "uploaded (fail e g) = uploaded g" "exhausted (fail e g) = exhausted g"
  "upload_failure (fail e g) \<noteq> None"
  by (simp_all add: fail_def split: option.splits)

lemma flight_inv_step:
  assumes "upload_step nr pj k st st'" and "flight_inv n st"
  shows "flight_inv n st'"
  using assms
proof (induction rule: upload_step.induct)
  case (worker g w g' w' us vs)
  have bound: "Suc (sum_list (map busy us) + sum_list (map busy vs)) \<le> n"
    using worker.prems sum_busy_le [of us] sum_busy_le [of vs] by (simp add: flight_inv_def)
  from worker.hyps show ?case
    using worker.prems bound by cases (auto simp: flight_inv_def)
qed

lemma pending_step:
  assumes "upload_step nr pj k st st'" and "pending st"
  shows "pending st'"
  using assms
proof (induction rule: upload_step.induct)
  case (worker g w g' w' us vs)
  from worker.hyps show ?case
    using worker.prems by cases (auto simp: pending_def fail_def split: option.splits)
qed

definition stream_good :: "corpus \<Rightarrow> f32_npy_layout \<Rightarrow> bool \<Rightarrow> shared \<Rightarrow> bool" where
  "stream_good c l nrm g \<longleftrightarrow>
     stream_at c l (stream g) \<and> normalize (stream g) = nrm \<and> \<not> exhausted g \<or>
     finished (stream g) \<and> exhausted g \<and> next_row (stream g) = rows l \<and> lines_fit c l"

definition handed_ok :: "(f32 list \<Rightarrow> f32 list) \<Rightarrow> (string \<Rightarrow> json option) \<Rightarrow> corpus \<Rightarrow> f32_npy_layout \<Rightarrow> bool \<Rightarrow>
    raw_batch \<Rightarrow> bool" where
  "handed_ok nr pj c l nrm b \<longleftrightarrow> first_id b + raw_rows b \<le> rows l \<and>
     decode nr pj b = rows_from nr nrm pj c l (first_id b) (raw_rows b)"

text \<open>
  While no error is on its way: the stream stands where it should, every row handed out so far is either
  with one worker or acknowledged, exactly once, and the counters agree with the acknowledgements.
\<close>

definition clean :: "(f32 list \<Rightarrow> f32 list) \<Rightarrow> (string \<Rightarrow> json option) \<Rightarrow> corpus \<Rightarrow> f32_npy_layout \<Rightarrow> bool \<Rightarrow>
    upload_state \<Rightarrow> bool" where
  "clean nr pj c l nrm st \<longleftrightarrow> stream_good c l nrm (fst st) \<and>
     (\<forall>b \<in> set (concat (map held (snd st))). handed_ok nr pj c l nrm b) \<and>
     (\<forall>(b, x) \<in> set (acked (fst st)). handed_ok nr pj c l nrm b \<and> decode nr pj b = Inr x) \<and>
     mset (concat (map (row_ids \<circ> fst) (acked (fst st)))) + mset (concat (map row_ids (concat (map held (snd st))))) =
       mset [0..<next_row (stream (fst st))] \<and>
     uploaded (fst st) + sum_list (map uncounted (snd st)) = length (concat (map (row_ids \<circ> fst) (acked (fst st)))) \<and>
     (Stopped \<in> set (snd st) \<longrightarrow> exhausted (fst st))"

lemma length_rows_from: "rows_from nr nrm pj c l a n = Inr x \<Longrightarrow> length (batch_ids x) = n"
  by (auto simp: rows_from_def)

lemma clean_read:
  assumes "clean nr pj c l nrm (g, us @ Reading # vs)" and "exact_layout c l"
    and "next_raw k (stream g) = (Inr (Some b), s)"
  shows "clean nr pj c l nrm (g\<lparr>stream := s\<rparr>, us @ Entering b # vs)"
proof -
  have at: "stream_at c l (stream g)" and nrm: "normalize (stream g) = nrm" and ex: "\<not> exhausted g"
    using assms(1,3) by (auto simp: clean_def stream_good_def next_raw_def split: if_splits)
  note p = next_raw_batch [OF assms(3) at]
  have "handed_ok nr pj c l nrm b"
    using decode_next_raw [OF assms(3) at assms(2), of nr pj] p(1,3,4) nrm by (simp add: handed_ok_def stream_at_def)
  moreover have "mset [0..<next_row s] = mset [0..<next_row (stream g)] + mset (row_ids b)"
    using upt_add_eq_append [of 0 "next_row (stream g)" "raw_rows b"] by (simp add: p(3,4) row_ids_def)
  ultimately show ?thesis
    using assms(1) p(1,2) nrm ex by (auto simp: clean_def stream_good_def)
qed

lemma clean_end:
  assumes "clean nr pj c l nrm (g, us @ Reading # vs)" and "next_raw k (stream g) = (Inr None, s)"
  shows "clean nr pj c l nrm (g\<lparr>stream := s, exhausted := True\<rparr>, us @ Stopped # vs)"
proof -
  have "next_row s = next_row (stream g)" and fin: "finished s"
    using assms(2) by (auto simp: next_raw_def Let_def finish_def split: if_splits prod.splits sum.splits option.splits)
  moreover have "next_row (stream g) = rows l \<and> lines_fit c l"
  proof (cases "exhausted g")
    case True
    then show ?thesis using assms(1) by (simp add: clean_def stream_good_def)
  next
    case False
    then have at: "stream_at c l (stream g)" using assms(1) by (simp add: clean_def stream_good_def)
    note e = next_raw_end [OF at assms(2)]
    with at show ?thesis by (auto simp: lines_fit_def stream_at_def split: option.splits)
  qed
  ultimately show ?thesis using assms(1) by (auto simp: clean_def stream_good_def)
qed

lemma clean_step:
  assumes "upload_step nr pj k st st'" and "clean nr pj c l nrm st" and "\<not> pending st" and "exact_layout c l"
  shows "pending st' \<or> clean nr pj c l nrm st'"
  using assms
proof (induction rule: upload_step.induct)
  case (worker g w g' w' us vs)
  from worker.hyps show ?case
  proof cases
    case (read_batch b s)
    then show ?thesis using clean_read worker.prems by blast
  next
    case (read_end s)
    then show ?thesis using clean_end worker.prems by blast
  next
    case (upload_ok b x)
    then have "length (batch_ids x) = length (row_ids b)"
      using worker.prems(1) length_rows_from by (auto simp: clean_def handed_ok_def row_ids_def)
    then show ?thesis using upload_ok worker.prems(1) by (auto simp: clean_def stream_good_def ac_simps)
  qed (use worker.prems in \<open>auto simp: clean_def stream_good_def pending_def\<close>)
qed

section \<open>The uploader as a progress system\<close>

definition upload_starts :: "corpus \<Rightarrow> f32_npy_layout \<Rightarrow> bool \<Rightarrow> nat \<Rightarrow> upload_state \<Rightarrow> bool" where
  "upload_starts c l nrm par st \<longleftrightarrow> exact_layout c l \<and>
     (\<exists>s. open_stream c nrm = Inr s \<and> st = upload_init par s)"

definition upload_inv :: "(f32 list \<Rightarrow> f32 list) \<Rightarrow> (string \<Rightarrow> json option) \<Rightarrow> corpus \<Rightarrow> f32_npy_layout \<Rightarrow> bool \<Rightarrow>
    nat \<Rightarrow> upload_state \<Rightarrow> bool" where
  "upload_inv nr pj c l nrm par st \<longleftrightarrow> exact_layout c l \<and> flight_inv (max par 1) st \<and>
     (pending st \<or> clean nr pj c l nrm st)"

lemma upload_inv_init: "upload_starts c l nrm par st \<Longrightarrow> upload_inv nr pj c l nrm par st"
proof -
  assume "upload_starts c l nrm par st"
  then obtain s where ex: "exact_layout c l" and s: "open_stream c nrm = Inr s" and st: "st = upload_init par s"
    by (auto simp: upload_starts_def)
  have "layout s = l" using ex s by (auto simp: open_stream_def exact_layout_def)
  note o = open_stream_at [OF s this]
  have "concat (map held (replicate n Connecting)) = []" "sum_list (map uncounted (replicate n Connecting)) = 0"
    "sum_list (map busy (replicate n Connecting)) = 0" for n
    by (induction n) auto
  with o ex show ?thesis
    by (simp add: st upload_inv_def upload_init_def flight_inv_def clean_def stream_good_def)
qed

interpretation upload: progress_system "upload_starts c l nrm par" "upload_step nr pj k" "\<lambda>_ _. False"
    "upload_inv nr pj c l nrm par" upload_final
  for c l nrm par nr pj k
proof unfold_locales
  show "upload_starts c l nrm par st \<Longrightarrow> upload_inv nr pj c l nrm par st" for st
    by (rule upload_inv_init)
  show "upload_inv nr pj c l nrm par st \<Longrightarrow> upload_step nr pj k st st' \<or> False \<Longrightarrow> upload_inv nr pj c l nrm par st'"
    for st st'
    using flight_inv_step pending_step clean_step unfolding upload_inv_def by blast
  show "wf {(st', st). upload_step nr pj k st st'}" by (rule upload_step_wf)
  show "upload_inv nr pj c l nrm par st \<Longrightarrow> \<not> upload_final st \<Longrightarrow> \<exists>st'. upload_step nr pj k st st'" for st
    by (rule upload_not_stuck)
qed

section \<open>Documents\<close>

definition docs :: "batch \<Rightarrow> (int \<times> f32 list \<times> metadata_item option) list" where
  "docs x = zip (batch_ids x) (zip (batch_vectors x) (batch_metadata x))"

lemma rows_from_lengths:
  assumes "rows_from nr nrm pj c l a n = Inr x" and "a + n \<le> rows l" and "lines_fit c l" and "exact_layout c l"
  shows "length (batch_ids x) = n" and "length (batch_vectors x) = n" and "length (batch_metadata x) = n"
proof -
  from assms(1) obtain ms where ms: "metadata_from pj c l a n = Inr ms"
    and x: "x = \<lparr>batch_ids = map cast_i64 [a..<a + n],
      batch_vectors = take n (drop a (all_vectors nr nrm c l)), batch_metadata = ms\<rparr>"
    by (auto simp: rows_from_def)
  have "length ms = n"
  proof (cases "all_lines c")
    case None
    with ms show ?thesis by (auto simp: metadata_from_def)
  next
    case (Some ls)
    with ms have "traverse (\<lambda>(i, l). decode_line pj i l) (enumerate a (take n (drop a ls))) = Inr ms"
      by (simp add: metadata_from_def decode_lines_def)
    from traverse_InrD(1) [OF this] Some assms(2,3) show ?thesis by (simp add: lines_fit_def)
  qed
  then show "length (batch_ids x) = n" and "length (batch_vectors x) = n" and "length (batch_metadata x) = n"
    using assms(2) length_all_vectors [OF assms(4), of nr nrm] by (simp_all add: x)
qed

lemma docs_append:
  "length (batch_vectors x) = length (batch_ids x) \<Longrightarrow> length (batch_metadata x) = length (batch_ids x) \<Longrightarrow>
   docs (batch_append x y) = docs x @ docs y"
  by (simp add: docs_def batch_append_def)

lemma docs_slice:
  assumes whole: "rows_from nr nrm pj c l 0 (rows l) = Inr x" and part: "rows_from nr nrm pj c l a n = Inr y"
    and le: "a + n \<le> rows l" and fit: "lines_fit c l" and ex: "exact_layout c l"
  shows "docs y = map (\<lambda>i. docs x ! i) [a..<a + n]"
proof -
  have "a \<le> rows l" using le by simp
  have "rbind (rows_from nr nrm pj c l 0 a) (\<lambda>u. rbind (rows_from nr nrm pj c l a (rows l - a)) (\<lambda>v.
      Inr (batch_append u v))) = Inr x"
    using rows_from_split [OF _ _ fit ex, of a "rows l" 0 nr nrm pj] whole \<open>a \<le> rows l\<close> by simp
  then obtain x0 v where x0: "rows_from nr nrm pj c l 0 a = Inr x0"
    and v: "rows_from nr nrm pj c l a (rows l - a) = Inr v" and x: "x = batch_append x0 v"
    by auto
  have "rbind (rows_from nr nrm pj c l a n) (\<lambda>u. rbind (rows_from nr nrm pj c l (a + n) (rows l - a - n)) (\<lambda>w.
      Inr (batch_append u w))) = Inr v"
    using rows_from_split [OF _ _ fit ex, of n "rows l - a" a nr nrm pj] v le by simp
  then obtain x2 where v': "v = batch_append y x2" using part by auto
  have l0: "length (batch_ids x0) = a" "length (batch_vectors x0) = a" "length (batch_metadata x0) = a"
    using rows_from_lengths [OF x0 _ fit ex] \<open>a \<le> rows l\<close> by simp_all
  have l1: "length (batch_ids y) = n" "length (batch_vectors y) = n" "length (batch_metadata y) = n"
    using rows_from_lengths [OF part le fit ex] by simp_all
  have "docs x = docs x0 @ docs y @ docs x2" using l0 l1 by (simp add: x v' docs_append)
  moreover have "length (docs x0) = a" "length (docs y) = n" using l0 l1 by (simp_all add: docs_def)
  ultimately show ?thesis by (intro nth_equalityI) (auto simp: nth_append)
qed

lemma rows_decodable:
  assumes "metadata_from pj c l a n = Inr ms" and "all_lines c = Some ls" and "length ls = rows l"
    and "i \<in> set [a..<a + n]" and "a + n \<le> rows l"
  shows "is_ok (decode_line pj i (ls ! i))"
proof -
  have "is_ok (traverse (\<lambda>(i, l). decode_line pj i l) (enumerate a (take n (drop a ls))))"
    using assms(1,2) by (simp add: metadata_from_def decode_lines_def)
  then have "\<forall>p \<in> set (enumerate a (take n (drop a ls))). is_ok (case p of (i, l) \<Rightarrow> decode_line pj i l)"
    by (simp only: is_ok_traverse_iff)
  moreover have "(i, ls ! i) \<in> set (enumerate a (take n (drop a ls)))"
    using assms(3,4,5) by (auto simp: in_set_enumerate_eq)
  ultimately show ?thesis by fastforce
qed

lemma all_rows_decode:
  assumes "\<And>i. i < rows l \<Longrightarrow> \<exists>a n ms. metadata_from pj c l a n = Inr ms \<and> i \<in> set [a..<a + n] \<and> a + n \<le> rows l"
    and "lines_fit c l"
  shows "\<exists>x. rows_from nr nrm pj c l 0 (rows l) = Inr x"
proof (cases "all_lines c")
  case None
  then show ?thesis by (simp add: rows_from_def metadata_from_def)
next
  case (Some ls)
  then have len: "length ls = rows l" using assms(2) by (simp add: lines_fit_def)
  have "is_ok (decode_line pj i (ls ! i))" if "i < rows l" for i
    using assms(1) [OF that] rows_decodable [OF _ Some len] by blast
  then have "is_ok (decode_lines pj 0 ls)"
    by (auto simp: decode_lines_def is_ok_traverse_iff in_set_enumerate_eq len)
  with Some len show ?thesis by (auto simp: rows_from_def metadata_from_def is_ok_iff)
qed

section \<open>Properties\<close>

lemma upload_reachable_inv:
  assumes "exact_layout c l" and "open_stream c nrm = Inr s"
    and "(upload_step nr pj k)\<^sup>*\<^sup>* (upload_init par s) st"
  shows "upload_inv nr pj c l nrm par st"
proof -
  have "upload_starts c l nrm par (upload_init par s)" using assms(1,2) by (auto simp: upload_starts_def)
  from upload.reachable_inv [OF this, of nr pj k st] assms(3) show ?thesis by simp
qed

text \<open>The state in which all workers have stopped and none reported an error.\<close>

lemma quiet_end:
  assumes "upload_inv nr pj c l nrm par st" and "upload_final st" and "upload_failure (fst st) = None"
  shows "clean nr pj c l nrm st" and "exhausted (fst st)" and "next_row (stream (fst st)) = rows l"
    and "lines_fit c l" and "uploaded (fst st) = rows l"
    and "mset (concat (map (row_ids \<circ> fst) (acked (fst st)))) = mset [0..<rows l]"
proof -
  have all: "\<And>w. w \<in> set (snd st) \<Longrightarrow> w = Stopped" using assms(2) by (simp add: upload_final_def list_all_iff)
  have "\<not> pending st" using all assms(3) by (fastforce simp: pending_def list_ex_iff)
  with assms(1) show cl: "clean nr pj c l nrm st" by (simp add: upload_inv_def)
  have "length (snd st) = max par 1" using assms(1) by (simp add: upload_inv_def flight_inv_def)
  then have "snd st \<noteq> []" by auto
  then obtain w where "w \<in> set (snd st)" by (meson list.set_sel(1))
  with all have "Stopped \<in> set (snd st)" by blast
  with cl show ex: "exhausted (fst st)" by (simp add: clean_def)
  from cl have "stream_good c l nrm (fst st)" by (simp add: clean_def)
  with ex show nr: "next_row (stream (fst st)) = rows l" and "lines_fit c l" by (simp_all add: stream_good_def)
  have "snd st = replicate (length (snd st)) Stopped"
    by (rule replicate_length_same [symmetric]) (use all in blast)
  then obtain n where n: "snd st = replicate n Stopped" by blast
  have "concat (map held (snd st)) = []" and un: "sum_list (map uncounted (snd st)) = 0"
    by (simp_all add: n sum_list_replicate)
  with cl nr show m: "mset (concat (map (row_ids \<circ> fst) (acked (fst st)))) = mset [0..<rows l]"
    by (simp add: clean_def)
  from arg_cong [OF m, of size] have "length (concat (map (row_ids \<circ> fst) (acked (fst st)))) = rows l"
    by (simp only: size_mset length_upt)
  with cl un show "uploaded (fst st) = rows l" by (simp add: clean_def)
qed

lemma upload_complete:
  assumes "exact_layout c l" and "open_stream c nrm = Inr s" and "0 < k"
    and "validate_npy_size_bound (vectors_file c) = Inr ()"
    and "read_npy (vectors_file c) =
      Some (map decode_row (chunks_exact (cols l * 4) (drop (data_offset l) (vectors_file c))))"
    and "(upload_step nr pj k)\<^sup>*\<^sup>* (upload_init par s) st" and "upload_final st"
    and "upload_failure (fst st) = None"
  shows "\<exists>x stats. read_compound_data read_npy nr pj c nrm = Inr x \<and>
    upload_result (rows l) (fst st) = Inr stats \<and> stat_rows stats = length (docs x) \<and>
    mset (concat (map (docs \<circ> snd) (acked (fst st)))) = mset (docs x)"
proof -
  have inv: "upload_inv nr pj c l nrm par st" by (rule upload_reachable_inv [OF assms(1,2,6)])
  note q = quiet_end [OF inv assms(7,8)]
  have acked: "rows_from nr nrm pj c l (first_id b) (raw_rows b) = Inr y \<and> first_id b + raw_rows b \<le> rows l"
    if "(b, y) \<in> set (acked (fst st))" for b y
    using q(1) that by (force simp: clean_def handed_ok_def)
  have "\<exists>a n ms. metadata_from pj c l a n = Inr ms \<and> i \<in> set [a..<a + n] \<and> a + n \<le> rows l" if "i < rows l" for i
  proof -
    from that have "i \<in> set (concat (map (row_ids \<circ> fst) (acked (fst st))))"
      using q(6) by (metis atLeast0LessThan lessThan_iff set_mset_mset set_upt)
    then obtain b y where "(b, y) \<in> set (acked (fst st))" and "i \<in> set (row_ids b)" by auto
    with acked [of b y] show ?thesis by (auto simp: row_ids_def rows_from_def)
  qed
  from all_rows_decode [OF this q(4), where nr = nr and nrm = nrm] obtain x
    where x: "rows_from nr nrm pj c l 0 (rows l) = Inr x" by blast
  have "layout s = l" using assms(1,2) by (auto simp: open_stream_def exact_layout_def)
  note o = open_stream_at [OF assms(2) this]
  have "drain nr pj k s = Inr x"
    using drain_eq [OF o(1) assms(1,3), of nr pj x] q(4) x by (simp add: o(2,3))
  then have mem: "read_compound_data read_npy nr pj c nrm = Inr x"
    using drain_memory_iff [where read_npy = read_npy, OF assms(1,2,3,4,5)] by blast
  have len: "length (docs x) = rows l"
    using rows_from_lengths [OF x _ q(4) assms(1)] by (simp add: docs_def)
  have "map (docs \<circ> snd) (acked (fst st)) = map (\<lambda>p. map (\<lambda>i. docs x ! i) (row_ids (fst p))) (acked (fst st))"
    using acked docs_slice [OF x _ _ q(4) assms(1)] by (fastforce simp: row_ids_def)
  then have "concat (map (docs \<circ> snd) (acked (fst st))) =
      map (\<lambda>i. docs x ! i) (concat (map (row_ids \<circ> fst) (acked (fst st))))"
    by (simp only: map_concat map_map comp_def)
  then have "mset (concat (map (docs \<circ> snd) (acked (fst st)))) = image_mset (\<lambda>i. docs x ! i) (mset [0..<rows l])"
    by (simp only: mset_map q(6))
  also have "\<dots> = mset (docs x)" by (metis len map_nth mset_map)
  finally have "mset (concat (map (docs \<circ> snd) (acked (fst st)))) = mset (docs x)" .
  with mem len q(2,5) assms(8) show ?thesis by (simp add: upload_result_def)
qed

text \<open>
  C8: a streamed upload that reports success has uploaded the whole corpus.  In every run of any number of
  workers, in any interleaving, with any batch size: when all workers have stopped and none failed, the
  in-memory reader accepts the corpus, the uploader returns \<open>Ok\<close> (its final check for a partial corpus
  never fires), and the documents the engine acknowledged are exactly the documents of the in-memory
  corpus, each once.
\<close>

theorem upload_is_complete:
  assumes "exact_layout c l" and "open_stream c nrm = Inr s" and "0 < k"
    and "validate_npy_size_bound (vectors_file c) = Inr ()"
    and "read_npy (vectors_file c) =
      Some (map decode_row (chunks_exact (cols l * 4) (drop (data_offset l) (vectors_file c))))"
    and "(upload_step nr pj k)\<^sup>*\<^sup>* (upload_init par s) st" and "upload_final st"
    and "upload_failure (fst st) = None"
  shows "\<exists>x stats. read_compound_data read_npy nr pj c nrm = Inr x \<and>
    upload_result (rows l) (fst st) = Inr stats \<and> stat_rows stats = length (docs x) \<and>
    mset (concat (map (docs \<circ> snd) (acked (fst st)))) = mset (docs x)"
  using assms by (rule upload_complete)

text \<open>
  C19: a streamed upload always ends.  From every state any run can reach, the workers can run on until all
  have stopped, and no run takes infinitely many steps, whatever the engine answers.
\<close>

theorem upload_always_ends:
  assumes "exact_layout c l" and "open_stream c nrm = Inr s"
    and "(upload_step nr pj k)\<^sup>*\<^sup>* (upload_init par s) st"
  shows "(\<exists>st'. (upload_step nr pj k)\<^sup>*\<^sup>* st st' \<and> upload_final st') \<and>
    \<not> (\<exists>run. run 0 = st \<and> (\<forall>i. upload_step nr pj k (run i) (run (Suc i))))"
proof
  have "upload_starts c l nrm par (upload_init par s)" using assms(1,2) by (auto simp: upload_starts_def)
  from upload.reaches_final [OF this, of nr pj k st] assms(3)
  show "\<exists>st'. (upload_step nr pj k)\<^sup>*\<^sup>* st st' \<and> upload_final st'" by simp
  show "\<not> (\<exists>run. run 0 = st \<and> (\<forall>i. upload_step nr pj k (run i) (run (Suc i))))"
    using upload.no_endless_progress by blast
qed

text \<open>
  C36: client memory is bounded by the parallelism.  In every reachable state at most \<open>parallel\<close> batches
  (one when \<open>parallel\<close> is 0) are decoded or uploading, and the peak the run reports respects the bound.
\<close>

theorem upload_in_flight_bounded:
  assumes "exact_layout c l" and "open_stream c nrm = Inr s"
    and "(upload_step nr pj k)\<^sup>*\<^sup>* (upload_init par s) st"
  shows "in_flight (fst st) \<le> max par 1 \<and> max_in_flight (fst st) \<le> max par 1"
proof -
  have "flight_inv (max par 1) st" using upload_reachable_inv [OF assms] by (simp add: upload_inv_def)
  then show ?thesis using sum_busy_le [of "snd st"] by (simp add: flight_inv_def)
qed

section \<open>A run\<close>

text \<open>One worker uploads the one-row corpus of the reader's example.\<close>

definition sample_f32_layout :: f32_npy_layout where
  "sample_f32_layout = \<lparr>rows = 1, cols = 1, data_offset = 69\<rparr>"

lemma sample_exact: "exact_layout sample_corpus sample_f32_layout"
  by (simp add: exact_layout_def sample_corpus_def sample_layout sample_f32_layout_def)

lemma sample_lines: "all_lines sample_corpus = Some [''{}'']"
  by (simp add: all_lines_def sample_corpus_def read_lines_def lf_def)

lemma sample_decodes: "is_ok (rows_from id False (\<lambda>_. Some (Object [])) sample_corpus l a n)"
proof -
  have "is_ok (decode_line (\<lambda>_. Some (Object [])) i t)" for i t by (simp add: decode_line_def)
  then have "is_ok (decode_lines (\<lambda>_. Some (Object [])) i ts)" for i ts
    by (simp only: decode_lines_def is_ok_traverse_iff) auto
  then show ?thesis
    by (simp only: rows_from_def metadata_from_def sample_lines option.case)
      (metis is_ok_iff rbind_simps(2))
qed

lemma single_worker_step:
  "wstep nr pj k g w g' w' \<Longrightarrow> (upload_step nr pj k)\<^sup>*\<^sup>* st (g, [w]) \<Longrightarrow> (upload_step nr pj k)\<^sup>*\<^sup>* st (g', [w'])"
  using upload_step.worker [of nr pj k g w g' w' "[]" "[]"] by (simp add: rtranclp.rtrancl_into_rtrancl)

lemma one_round:
  assumes "(upload_step nr pj k)\<^sup>*\<^sup>* st (g, [Checking])" and "upload_failure g = None"
    and "next_raw k (stream g) = (Inr (Some b), s1)" and "decode nr pj b = Inr x"
  shows "\<exists>g'. (upload_step nr pj k)\<^sup>*\<^sup>* st (g', [Checking]) \<and> upload_failure g' = None \<and> stream g' = s1"
proof -
  note run = single_worker_step [OF check_go [OF assms(2)] assms(1)]
  note run = single_worker_step [OF read_batch [OF assms(3)] run]
  note run = single_worker_step [OF peak single_worker_step [OF enter run]]
  note run = single_worker_step [OF leave_ok single_worker_step [OF upload_ok [OF assms(4)] run]]
  note run = single_worker_step [OF count_batch single_worker_step [OF count_rows run]]
  then show ?thesis using assms(2) by force
qed

lemma last_round:
  assumes "(upload_step nr pj k)\<^sup>*\<^sup>* st (g, [Checking])" and "upload_failure g = None"
    and "next_raw k (stream g) = (Inr None, s1)"
  shows "\<exists>st'. (upload_step nr pj k)\<^sup>*\<^sup>* st st' \<and> upload_final st' \<and> upload_failure (fst st') = None"
proof -
  note run = single_worker_step [OF read_end [OF assms(3)] single_worker_step [OF check_go [OF assms(2)] assms(1)]]
  then show ?thesis using assms(2) by (force simp: upload_final_def)
qed

lemma sample_run:
  assumes "open_stream sample_corpus False = Inr s"
  shows "\<exists>st. (upload_step id (\<lambda>_. Some (Object [])) 10)\<^sup>*\<^sup>* (upload_init 1 s) st \<and> upload_final st \<and>
    upload_failure (fst st) = None"
proof -
  let ?pj = "\<lambda>_. Some (Object [])" let ?l = sample_f32_layout
  have lay: "layout s = ?l"
    using assms by (auto simp: open_stream_def sample_corpus_def sample_layout sample_f32_layout_def)
  note o = open_stream_at [OF assms lay]
  have fit: "all_lines sample_corpus = Some ls \<Longrightarrow> length ls = rows ?l \<and> list_all valid_utf8 ls" for ls
    by (auto simp: sample_lines sample_f32_layout_def valid_utf8_def byte_def)
  then obtain b s1 where nb: "next_raw 10 s = (Inr (Some b), s1)"
    using next_raw_some [OF o(1) _ _ sample_exact, of 10] by (auto simp: o(2) sample_f32_layout_def)
  note p = next_raw_batch [OF nb o(1)]
  have "next_row s1 = rows ?l" using p(1,4,5) by (simp add: stream_at_def o(2) sample_f32_layout_def)
  then obtain s2 where ne: "next_raw 10 s1 = (Inr None, s2)"
    using next_raw_at_end [OF p(1), of 10] fit by (cases "next_raw 10 s1") auto
  obtain x where x: "decode id ?pj b = Inr x"
    using decode_next_raw [OF nb o(1) sample_exact, of id ?pj] sample_decodes [of ?l "next_row s" "raw_rows b"]
    by (auto simp: o(3) is_ok_iff)
  let ?g = "fst (upload_init 1 s)"
  have "(upload_step id ?pj 10)\<^sup>*\<^sup>* (upload_init 1 s) (?g, [Connecting])" by (simp add: upload_init_def)
  note run = single_worker_step [OF connect_ok this]
  obtain g1 where "(upload_step id ?pj 10)\<^sup>*\<^sup>* (upload_init 1 s) (g1, [Checking])"
      "upload_failure g1 = None" "stream g1 = s1"
    using one_round [OF run _ _ x] nb by (auto simp: upload_init_def)
  then show ?thesis using last_round ne by blast
qed

theorem upload_is_complete_witness:
  "\<exists>s st x. open_stream sample_corpus False = Inr s \<and>
     (upload_step id (\<lambda>_. Some (Object [])) 10)\<^sup>*\<^sup>* (upload_init 1 s) st \<and> upload_final st \<and>
     mset (concat (map (docs \<circ> snd) (acked (fst st)))) = mset (docs x)"
proof -
  let ?rd = "\<lambda>_. Some (map decode_row (chunks_exact (cols sample_f32_layout * 4)
    (drop (data_offset sample_f32_layout) (vectors_file sample_corpus))))"
  obtain s where s: "open_stream sample_corpus False = Inr s"
    by (simp add: open_stream_def sample_corpus_def sample_layout)
  with sample_run obtain st where st: "(upload_step id (\<lambda>_. Some (Object [])) 10)\<^sup>*\<^sup>* (upload_init 1 s) st"
    "upload_final st" "upload_failure (fst st) = None" by blast
  have "validate_npy_size_bound (vectors_file sample_corpus) = Inr ()"
    by (simp add: sample_corpus_def sample_bound)
  from upload_is_complete [OF sample_exact s _ this _ st, of ?rd] obtain x stats where
    "mset (concat (map (docs \<circ> snd) (acked (fst st)))) = mset (docs x)" by auto
  with s st show ?thesis by blast
qed

theorem upload_always_ends_witness:
  "\<exists>s st. open_stream sample_corpus False = Inr s \<and>
     (upload_step id (\<lambda>_. Some (Object [])) 10)\<^sup>*\<^sup>* (upload_init 4 s) st \<and> upload_final st"
proof -
  obtain s where s: "open_stream sample_corpus False = Inr s"
    by (simp add: open_stream_def sample_corpus_def sample_layout)
  from upload_always_ends [OF sample_exact s, of id "\<lambda>_. Some (Object [])" 10 4 "upload_init 4 s"] s
  show ?thesis by auto
qed

theorem upload_in_flight_bounded_witness:
  "\<exists>s st. open_stream sample_corpus False = Inr s \<and>
     (upload_step id (\<lambda>_. Some (Object [])) 10)\<^sup>*\<^sup>* (upload_init 1 s) st \<and> upload_final st \<and>
     max_in_flight (fst st) \<le> max 1 1"
proof -
  obtain s where s: "open_stream sample_corpus False = Inr s"
    by (simp add: open_stream_def sample_corpus_def sample_layout)
  with sample_run obtain st where st: "(upload_step id (\<lambda>_. Some (Object [])) 10)\<^sup>*\<^sup>* (upload_init 1 s) st"
    "upload_final st" by blast
  from upload_in_flight_bounded [OF sample_exact s st(1)] s st show ?thesis by blast
qed

end
