(* ===== verification/Ingest.thy ===== *)
theory Ingest
  imports Json
begin

text \<open>
  Ingestion reported as phases: \<open>src/src/ingest.rs\<close>.  An \<open>Instant\<close> is its nanoseconds on the monotonic clock,
  \<open>duration_since\<close> saturates at zero and \<open>as_secs_f64\<close> adds the rounded fraction to the seconds; every \<open>f64\<close>
  operation rounds.  Reading the clocks is an argument of the operations.
\<close>

section \<open>Phases\<close>

definition TOLERANCE_SECS :: real where
  "TOLERANCE_SECS = rnd64 (1 / 1000)"

datatype index_wait = RedisPercentIndexed | OpenSearchForceMergeRefresh

fun index_wait_as_str :: "index_wait \<Rightarrow> string" where
  "index_wait_as_str RedisPercentIndexed = ''redis_ft_info_percent_indexed''"
| "index_wait_as_str OpenSearchForceMergeRefresh = ''opensearch_force_merge_refresh''"

definition as_secs_f64 :: "nat \<Rightarrow> real" where
  "as_secs_f64 ns = fadd (f64_of_nat (ns div 1000000000)) (fdiv (f64_of_nat (ns mod 1000000000)) 1000000000)"

definition duration_since :: "nat \<Rightarrow> nat \<Rightarrow> nat" where
  "duration_since later earlier = later - earlier"

record ingest_clock =
  clock_start :: nat
  start_epoch :: real
  upload_done_at :: "nat option"

record ingest_phases =
  read_time :: real
  upload_time :: real
  index_wait_time :: real
  total_ingest_time :: real
  upload_started_at :: real
  upload_finished_at :: real
  index_ready_at :: real
  documents :: nat
  phases_wait :: index_wait

datatype ingest_error =
    Ready_Before_Done
  | Negative_Time string real
  | Phases_Do_Not_Sum real real
  | Wall_Differs real real
  | Upload_Wall_Differs real real
  | Upload_Time_Differs real real
  | Total_Time_Differs real real

definition clock_new :: "real \<Rightarrow> nat \<Rightarrow> ingest_clock" where
  "clock_new epoch now = \<lparr>clock_start = now, start_epoch = epoch, upload_done_at = None\<rparr>"

definition without_upload :: "real \<Rightarrow> nat \<Rightarrow> ingest_clock" where
  "without_upload epoch now = (clock_new epoch now)\<lparr>upload_done_at := Some now\<rparr>"

definition upload_done :: "nat \<Rightarrow> ingest_clock \<Rightarrow> real \<times> ingest_clock" where
  "upload_done now c = (as_secs_f64 (duration_since now (clock_start c)), c\<lparr>upload_done_at := Some now\<rparr>)"

definition from_offsets :: "real \<Rightarrow> real \<Rightarrow> real \<Rightarrow> nat \<Rightarrow> real \<Rightarrow> index_wait \<Rightarrow> ingest_phases" where
  "from_offsets epoch done ready n rt w =
     \<lparr>read_time = rt, upload_time = done, index_wait_time = fsub ready done, total_ingest_time = ready,
      upload_started_at = epoch, upload_finished_at = fadd epoch done, index_ready_at = fadd epoch ready,
      documents = n, phases_wait = w\<rparr>"

definition named_times :: "ingest_phases \<Rightarrow> (string \<times> real) list" where
  "named_times p =
     [(''read_time'', read_time p), (''upload_time'', upload_time p), (''index_wait_time'', index_wait_time p),
      (''total_ingest_time'', total_ingest_time p), (''upload_started_at'', upload_started_at p),
      (''upload_finished_at'', upload_finished_at p), (''index_ready_at'', index_ready_at p)]"

definition validate_phases :: "ingest_phases \<Rightarrow> ingest_error + unit" where
  "validate_phases p =
     (case List.find (\<lambda>(_, v). v < 0) (named_times p) of
        Some (name, v) \<Rightarrow> Inl (Negative_Time name v)
      | None \<Rightarrow>
          let total = fadd (upload_time p) (index_wait_time p);
              wall = fsub (index_ready_at p) (upload_started_at p);
              upload_wall = fsub (upload_finished_at p) (upload_started_at p)
          in if \<bar>fsub total (total_ingest_time p)\<bar> > TOLERANCE_SECS
             then Inl (Phases_Do_Not_Sum total (total_ingest_time p))
             else if \<bar>fsub wall (total_ingest_time p)\<bar> > TOLERANCE_SECS
             then Inl (Wall_Differs wall (total_ingest_time p))
             else if \<bar>fsub upload_wall (upload_time p)\<bar> > TOLERANCE_SECS
             then Inl (Upload_Wall_Differs upload_wall (upload_time p))
             else Inr ())"

definition index_ready :: "nat \<Rightarrow> nat \<Rightarrow> real \<Rightarrow> index_wait \<Rightarrow> ingest_clock \<Rightarrow> ingest_error + ingest_phases" where
  "index_ready now n rt w c =
     rbind (ok_or Ready_Before_Done (upload_done_at c)) (\<lambda>done.
       let phases = from_offsets (start_epoch c) (as_secs_f64 (duration_since done (clock_start c)))
                      (as_secs_f64 (duration_since now (clock_start c))) n rt w
       in rbind (validate_phases phases) (\<lambda>_. Inr phases))"

definition rate :: "nat \<Rightarrow> real \<Rightarrow> real option" where
  "rate n secs = (if secs > 0 then Some (fdiv (f64_of_nat n) secs) else None)"

definition upload_docs_per_sec :: "ingest_phases \<Rightarrow> real option" where
  "upload_docs_per_sec p = rate (documents p) (upload_time p)"

definition ingest_docs_per_sec :: "ingest_phases \<Rightarrow> real option" where
  "ingest_docs_per_sec p = rate (documents p) (total_ingest_time p)"

definition check_legacy_fields :: "real \<Rightarrow> real \<Rightarrow> ingest_phases \<Rightarrow> ingest_error + unit" where
  "check_legacy_fields ut tt p =
     rbind (validate_phases p) (\<lambda>_.
       let expected_total = fadd (read_time p) (total_ingest_time p) in
       if \<bar>fsub ut (upload_time p)\<bar> > TOLERANCE_SECS then Inl (Upload_Time_Differs (upload_time p) ut)
       else if \<bar>fsub tt expected_total\<bar> > TOLERANCE_SECS then Inl (Total_Time_Differs tt expected_total)
       else Inr ())"

text \<open>\<open>results[key] = value\<close> on an object, and the keys the phases add.\<close>

fun jset :: "string \<Rightarrow> json \<Rightarrow> json \<Rightarrow> json" where
  "jset k v (Object es) = Object ((k, v) # filter (\<lambda>e. fst e \<noteq> k) es)"
| "jset k v _ = Object [(k, v)]"

definition jreal :: "real \<Rightarrow> json" where
  "jreal x = Number (Float x)"

definition jreal_opt :: "real option \<Rightarrow> json" where
  "jreal_opt x = (case x of None \<Rightarrow> Null | Some v \<Rightarrow> jreal v)"

definition write_into :: "ingest_phases \<Rightarrow> json \<Rightarrow> json" where
  "write_into p results =
     jset ''ingest_phases'' (Object
       [(''clock'', String ''unix_epoch_seconds''), (''upload_started_at'', jreal (upload_started_at p)),
        (''upload_finished_at'', jreal (upload_finished_at p)), (''index_ready_at'', jreal (index_ready_at p)),
        (''index_wait'', String (index_wait_as_str (phases_wait p))), (''documents'', Number (PosInt (documents p)))])
     (jset ''ingest_docs_per_sec'' (jreal_opt (ingest_docs_per_sec p))
     (jset ''upload_docs_per_sec'' (jreal_opt (upload_docs_per_sec p))
     (jset ''total_ingest_time'' (jreal (total_ingest_time p))
     (jset ''index_wait_time'' (jreal (index_wait_time p))
     (jset ''read_time'' (jreal (read_time p)) results)))))"

section \<open>Rounding errors of times\<close>

lemma rnd64_time_error:
  assumes "0 \<le> x" and "x \<le> 10000000000"
  shows "\<bar>rnd64 x - x\<bar> \<le> 1 / 50000"
proof (cases "1 / 1000000 \<le> x")
  case True
  from rnd64_error [OF this] assms show ?thesis by (simp add: field_simps)
next
  case False
  then have "rnd64 x \<le> rnd64 (1 / 1000000)" by (intro rnd64_mono) simp
  moreover have "\<bar>rnd64 (1 / 1000000) - 1 / 1000000\<bar> \<le> 1 / 1000000 / 1000000000000000" by (rule rnd64_error) simp
  ultimately show ?thesis using rnd64_nonneg [OF assms(1)] assms False by linarith
qed

lemma rnd64_time_error_abs:
  assumes "\<bar>x\<bar> \<le> 10000000000"
  shows "\<bar>rnd64 x - x\<bar> \<le> 1 / 50000"
proof (cases "0 \<le> x")
  case False
  then have "\<bar>rnd64 (- x) - (- x)\<bar> \<le> 1 / 50000" using assms by (intro rnd64_time_error) auto
  then show ?thesis by (simp add: rnd64_minus abs_minus_commute)
qed (use assms rnd64_time_error in auto)

lemma within_tolerance: "\<bar>x\<bar> \<le> 1 / 1000 \<Longrightarrow> \<bar>rnd64 x\<bar> \<le> TOLERANCE_SECS"
proof -
  assume "\<bar>x\<bar> \<le> 1 / 1000"
  then have "x \<le> 1 / 1000" "- (1 / 1000) \<le> x" by linarith+
  then show ?thesis
    using rnd64_mono [of x "1 / 1000"] rnd64_mono [of "- (1 / 1000)" x]
    unfolding TOLERANCE_SECS_def rnd64_minus by linarith
qed

lemma f64_of_nat_small: "n \<le> 1000000000000000 \<Longrightarrow> f64_of_nat n = of_nat n"
  by (rule f64_of_nat_exact) simp

lemma nanos_fraction: "fdiv (f64_of_nat (ns mod 1000000000)) 1000000000 \<le> 1"
  "0 \<le> fdiv (f64_of_nat (ns mod 1000000000)) 1000000000"
proof -
  have "fdiv (f64_of_nat (ns mod 1000000000)) (f64_of_nat 1000000000) \<le> 1"
    "0 \<le> fdiv (f64_of_nat (ns mod 1000000000)) (f64_of_nat 1000000000)"
    using fdiv_counts_bounds [of "ns mod 1000000000" 1000000000] by (simp_all add: less_imp_le)
  then show "fdiv (f64_of_nat (ns mod 1000000000)) 1000000000 \<le> 1"
    "0 \<le> fdiv (f64_of_nat (ns mod 1000000000)) 1000000000"
    by (simp_all add: f64_of_nat_small)
qed

text \<open>A longer duration never has fewer seconds, in \<open>f64\<close> as well.\<close>

lemma as_secs_f64_mono:
  assumes "m \<le> n" and "n \<le> 10000000000000000"
  shows "as_secs_f64 m \<le> as_secs_f64 n"
proof -
  let ?g = 1000000000
  have le: "m div ?g \<le> n div ?g" using assms(1) by (rule div_le_mono)
  have small: "f64_of_nat (m div ?g) = of_nat (m div ?g)" "f64_of_nat (n div ?g) = of_nat (n div ?g)"
    using assms le by (simp_all add: f64_of_nat_small)
  show ?thesis
  proof (cases "m div ?g = n div ?g")
    case True
    then have "m mod ?g \<le> n mod ?g"
      using assms(1) by (metis div_mult_mod_eq nat_add_left_cancel_le)
    then show ?thesis
      unfolding as_secs_f64_def fadd_def fdiv_def using True
      by (intro rnd64_mono add_mono divide_right_mono f64_of_nat_mono) simp_all
  next
    case False
    with le have "m div ?g + 1 \<le> n div ?g" by simp
    then have "real (m div ?g) + 1 \<le> real (n div ?g)" by linarith
    then show ?thesis
      unfolding as_secs_f64_def fadd_def small
      using nanos_fraction(1) [of m] nanos_fraction(2) [of n] by (intro rnd64_mono) linarith
  qed
qed

lemma as_secs_f64_bounds:
  assumes "n \<le> 10000000000000000"
  shows "0 \<le> as_secs_f64 n" and "as_secs_f64 n \<le> 10000001"
proof -
  show "0 \<le> as_secs_f64 n"
    unfolding as_secs_f64_def fadd_def using nanos_fraction(2) [of n] by (intro rnd64_nonneg) simp
  have "n div 1000000000 \<le> 10000000" using assms by (simp add: div_le_mono [of n 10000000000000000 1000000000, simplified])
  then have "f64_of_nat (n div 1000000000) \<le> 10000000" by (simp add: f64_of_nat_small)
  then have "as_secs_f64 n \<le> rnd64 10000001"
    unfolding as_secs_f64_def fadd_def using nanos_fraction(1) [of n] by (intro rnd64_mono) linarith
  also have "rnd64 10000001 = 10000001" using rnd64_of_nat [of 10000001] by simp
  finally show "as_secs_f64 n \<le> 10000001" .
qed

lemma times_sum:
  assumes "0 \<le> u" and "u \<le> r" and "r \<le> 10000001"
  shows "\<bar>fsub (fadd u (fsub r u)) r\<bar> \<le> TOLERANCE_SECS"
proof -
  have a: "\<bar>rnd64 (r - u) - (r - u)\<bar> \<le> 1 / 50000" using assms by (intro rnd64_time_error) linarith+
  then have "\<bar>rnd64 (u + rnd64 (r - u)) - (u + rnd64 (r - u))\<bar> \<le> 1 / 50000"
    using assms by (intro rnd64_time_error_abs) linarith
  with a have "\<bar>rnd64 (u + rnd64 (r - u)) - r\<bar> \<le> 1 / 1000" by linarith
  then show ?thesis unfolding fsub_def fadd_def by (rule within_tolerance)
qed

lemma wall_time:
  assumes "0 \<le> e" and "e \<le> 8589934592" and "0 \<le> r" and "r \<le> 10000001"
  shows "\<bar>fsub (fsub (fadd e r) e) r\<bar> \<le> TOLERANCE_SECS"
proof -
  have a: "\<bar>rnd64 (e + r) - (e + r)\<bar> \<le> 1 / 50000" using assms by (intro rnd64_time_error) linarith+
  then have "\<bar>rnd64 (rnd64 (e + r) - e) - (rnd64 (e + r) - e)\<bar> \<le> 1 / 50000"
    using assms by (intro rnd64_time_error_abs) linarith
  with a have "\<bar>rnd64 (rnd64 (e + r) - e) - r\<bar> \<le> 1 / 1000" by linarith
  then show ?thesis unfolding fsub_def fadd_def by (rule within_tolerance)
qed

lemma jget_jset: "jget k (jset k' v r) = (if k = k' then Some v else jget k r)"
proof -
  have "map_of (filter (\<lambda>e. fst e \<noteq> k') es) k = map_of es k" if "k \<noteq> k'" for es :: "(string \<times> json) list"
    using that by (induction es) auto
  then show ?thesis by (cases r) auto
qed

text \<open>The phases add six keys to the results and leave every other key alone.\<close>

lemma write_into_keeps:
  "k \<notin> {''read_time'', ''index_wait_time'', ''total_ingest_time'', ''upload_docs_per_sec'',
      ''ingest_docs_per_sec'', ''ingest_phases''} \<Longrightarrow> jget k (write_into p r) = jget k r"
  by (simp add: write_into_def jget_jset)

section \<open>Properties\<close>

lemma one_clock_phases:
  assumes "upload_done_at c = Some done" and "clock_start c \<le> done" and "done \<le> now"
    and "now - clock_start c \<le> 10000000000000000"
    and "0 \<le> start_epoch c" and "start_epoch c \<le> 8589934592" and "0 \<le> rt"
  shows "\<exists>p. index_ready now n rt w c = Inr p \<and> documents p = n \<and>
    0 \<le> upload_time p \<and> upload_time p \<le> total_ingest_time p \<and> 0 \<le> index_wait_time p"
proof -
  let ?e = "start_epoch c" and ?u = "as_secs_f64 (done - clock_start c)" and ?r = "as_secs_f64 (now - clock_start c)"
  let ?p = "from_offsets ?e ?u ?r n rt w"
  have le: "done - clock_start c \<le> now - clock_start c" using assms(3) by simp
  have ur: "?u \<le> ?r" by (rule as_secs_f64_mono [OF le assms(4)])
  have u: "0 \<le> ?u" and r: "0 \<le> ?r" "?r \<le> 10000001"
    using as_secs_f64_bounds [OF assms(4)] as_secs_f64_bounds [OF order.trans [OF le assms(4)]] by simp_all
  have wait: "0 \<le> fsub ?r ?u" unfolding fsub_def using ur by (intro rnd64_nonneg) simp
  have fin: "0 \<le> fadd ?e ?u" "0 \<le> fadd ?e ?r"
    unfolding fadd_def using assms(5) u r by (auto intro!: rnd64_nonneg)
  have "List.find (\<lambda>(_, v). v < 0) (named_times ?p) = None"
    using assms(5,7) u r wait fin by (simp add: named_times_def from_offsets_def)
  then have "validate_phases ?p = Inr ()"
    using times_sum [OF u ur r(2)] wall_time [OF assms(5,6) r] wall_time [OF assms(5,6) u order.trans [OF ur r(2)]]
    by (simp add: validate_phases_def from_offsets_def Let_def)
  then have "index_ready now n rt w c = Inr ?p"
    by (simp add: index_ready_def assms(1) duration_since_def Let_def)
  with u ur wait show ?thesis by (auto simp: from_offsets_def)
qed

text \<open>
  One clock gives consistent phases.  For every ingest whose upload ended after it started and whose
  index was ready after that, of up to 115 days, with any epoch before the year 2242 and any
  non-negative read time, \<open>index_ready\<close> accepts: the rounding of the \<open>f64\<close> durations and timestamps never
  trips the consistency checks, the times are non-negative, and the upload phase is no longer than
  the whole.
\<close>

theorem one_clock_phases_valid:
  assumes "upload_done_at c = Some done" and "clock_start c \<le> done" and "done \<le> now"
    and "now - clock_start c \<le> 10000000000000000"
    and "0 \<le> start_epoch c" and "start_epoch c \<le> 8589934592" and "0 \<le> rt"
  shows "\<exists>p. index_ready now n rt w c = Inr p \<and> documents p = n \<and>
    0 \<le> upload_time p \<and> upload_time p \<le> total_ingest_time p \<and> 0 \<le> index_wait_time p"
  using assms by (rule one_clock_phases)

theorem one_clock_phases_valid_witness:
  "\<exists>p. index_ready 5000000000 100 2 RedisPercentIndexed
     (snd (upload_done 3000000000 (clock_new 1700000000 1000000000))) = Inr p \<and> documents p = 100"
  using one_clock_phases_valid [of "snd (upload_done 3000000000 (clock_new 1700000000 1000000000))"
      3000000000 5000000000 2 100 RedisPercentIndexed]
  by (auto simp: upload_done_def clock_new_def)

end
