(* ===== verification/Indexing_Wait.thy ===== *)
theory Indexing_Wait
  imports Json
begin

text \<open>
  Waiting for an index to catch up after an upload: \<open>src/src/indexing_wait.rs\<close> and the \<open>wait_for_indexing\<close>
  loops of the Redis, Valkey, Dragonfly and KiviDB engines.

  Times are nanoseconds since the start of the wait.  What the server does is given by the answer to each
  \<open>FT.INFO\<close> poll (an error message or a reply) and by the time each poll takes, up to the reading of the clock
  that its iteration makes; the loop adds its own sleeps.  Before it retries
  a failed poll the Redis loop opens a new connection, which takes a time of its own (\<open>recon\<close>); whether it
  succeeds shows in the answers to the next polls.  Decimal formatting of a double is a parameter.
\<close>

section \<open>Budgets\<close>

datatype wait_phase = UploadTail | FullBuild

fun phase_as_str :: "wait_phase \<Rightarrow> string" where
  "phase_as_str UploadTail = ''upload_tail''"
| "phase_as_str FullBuild = ''full_build''"

definition DOCS_PER_EXTRA_SECOND :: nat where
  "DOCS_PER_EXTRA_SECOND = 10000"

definition FULL_BUILD_DOCS_PER_EXTRA_SECOND :: nat where
  "FULL_BUILD_DOCS_PER_EXTRA_SECOND = 1000"

fun docs_per_extra_second :: "wait_phase \<Rightarrow> nat" where
  "docs_per_extra_second UploadTail = DOCS_PER_EXTRA_SECOND"
| "docs_per_extra_second FullBuild = FULL_BUILD_DOCS_PER_EXTRA_SECOND"

definition secs :: "nat \<Rightarrow> nat" where
  "secs n = n * 1000000000"

definition millis :: "nat \<Rightarrow> nat" where
  "millis n = n * 1000000"

definition RECONNECT_WINDOW :: nat where
  "RECONNECT_WINDOW = secs 120"

record ft_info_progress =
  num_docs :: "nat option"
  indexing :: bool
  percent_indexed :: "f64v option"
  ft_state :: "string option"
  ft_fields :: "string list"

record kividb_progress =
  kividb_num_docs :: "nat option"
  hnsw_live_count :: "nat option"
  compaction_in_progress :: bool

datatype progress_state = Ft_Progress ft_info_progress | Kividb_Progress string kividb_progress

datatype wait_error =
    Bad_Override string
  | Wait_Connect string
  | Outage_Too_Long string nat
  | Budget_Spent string nat
  | Ft_Info_Failed string
  | Unexpected_Reply
  | Field_Not_Text string
  | Percent_Not_A_Number string
  | Not_A_Count string string
  | Not_A_Flag string string
  | No_Num_Docs nat "string list"
  | No_Readiness_Rule string
  | Still_Incomplete nat progress_state

definition parse_override :: "string option \<Rightarrow> wait_error + nat option" where
  "parse_override raw = (case raw of
       None \<Rightarrow> Inr None
     | Some r \<Rightarrow>
         (case parse_u64 (trim r) of
            Some n \<Rightarrow> if n > 0 then Inr (Some n) else Inl (Bad_Override r)
          | None \<Rightarrow> Inl (Bad_Override r)))"

definition budget :: "wait_phase \<Rightarrow> nat \<Rightarrow> nat \<Rightarrow> nat option \<Rightarrow> nat" where
  "budget phase floor_secs expected override_secs = (case override_secs of
       Some s \<Rightarrow> if s > 0 then secs s else secs (floor_secs + expected div docs_per_extra_second phase)
     | None \<Rightarrow> secs (floor_secs + expected div docs_per_extra_second phase))"

definition verdict :: "nat \<Rightarrow> nat \<Rightarrow> progress_state \<Rightarrow> wait_error + unit" where
  "verdict elapsed bud progress = (if elapsed > bud then Inl (Still_Incomplete bud progress) else Inr ())"

section \<open>Outages\<close>

record transient_retry =
  retry_budget :: nat
  outage_since :: "nat option"

definition transient_retry_new :: "nat \<Rightarrow> transient_retry" where
  "transient_retry_new bud = \<lparr>retry_budget = bud, outage_since = None\<rparr>"

definition on_success :: "transient_retry \<Rightarrow> transient_retry" where
  "on_success r = r\<lparr>outage_since := None\<rparr>"

definition on_transient :: "nat \<Rightarrow> nat \<Rightarrow> string \<Rightarrow> transient_retry \<Rightarrow> (wait_error + nat) \<times> transient_retry" where
  "on_transient start now err r =
     (let since = (case outage_since r of Some t \<Rightarrow> t | None \<Rightarrow> now);
          outage = now - since
      in (if outage > RECONNECT_WINDOW then Inl (Outage_Too_Long err outage)
          else if now - start \<ge> retry_budget r then Inl (Budget_Spent err (retry_budget r))
          else Inr outage,
          r\<lparr>outage_since := Some since\<rparr>))"

definition transient_signatures :: "string list" where
  "transient_signatures =
     [''broken pipe'', ''connection reset'', ''connection aborted'', ''connection refused'',
      ''unexpected end of file'', ''unexpected eof'', ''timed out'', ''timeout'', ''os error 104'',
      ''os error 32'', ''os error 111'', ''os error 110'', ''connection dropped'', ''not connected'',
      ''errcluster'', ''uninitialized cluster state'']"

definition is_transient_conn_error :: "string \<Rightarrow> bool" where
  "is_transient_conn_error msg \<longleftrightarrow>
     list_ex (\<lambda>sig. contains (map to_lower msg) sig) transient_signatures"

section \<open>Reading a reply\<close>

type_synonym show_f64 = "f64v \<Rightarrow> string"

fun value_text :: "show_f64 \<Rightarrow> reply \<Rightarrow> string option" where
  "value_text shw (BulkString b) = Some (from_utf8_lossy b)"
| "value_text shw (SimpleString s) = Some s"
| "value_text shw (RInt n) = Some (int_str n)"
| "value_text shw (Double f) = Some (shw f)"
| "value_text shw (RBool b) = Some (if b then ''1'' else ''0'')"
| "value_text shw _ = None"

fun whole_pairs :: "'a list \<Rightarrow> ('a \<times> 'a) list" where
  "whole_pairs (k # v # r) = (k, v) # whole_pairs r"
| "whole_pairs _ = []"

definition text_pairs :: "show_f64 \<Rightarrow> (reply \<times> reply) list \<Rightarrow> (string \<times> reply) list" where
  "text_pairs shw kvs = List.map_filter (\<lambda>(k, v). map_option (\<lambda>t. (t, v)) (value_text shw k)) kvs"

fun ft_info_pairs :: "show_f64 \<Rightarrow> reply \<Rightarrow> wait_error + (string \<times> reply) list" where
  "ft_info_pairs shw (RArray a) = Inr (text_pairs shw (whole_pairs a))"
| "ft_info_pairs shw (RMap m) = Inr (text_pairs shw m)"
| "ft_info_pairs shw _ = Inl Unexpected_Reply"

definition field_text :: "show_f64 \<Rightarrow> string \<Rightarrow> reply \<Rightarrow> wait_error + string" where
  "field_text shw key v = ok_or (Field_Not_Text key) (value_text shw v)"

text \<open>\<open>f as u64\<close> for a double that is not negative: truncated, saturating.\<close>

fun count_of_f64 :: "f64v \<Rightarrow> nat option" where
  "count_of_f64 (Finite x) = (if x \<ge> 0 then Some (min (nat \<lfloor>x\<rfloor>) (2 ^ 64 - 1)) else None)"
| "count_of_f64 (Non_Finite n) = (if n = Infinity then Some (2 ^ 64 - 1) else None)"

definition parse_count :: "show_f64 \<Rightarrow> string \<Rightarrow> reply \<Rightarrow> wait_error + nat" where
  "parse_count shw key v =
     rbind (field_text shw key v) (\<lambda>raw.
       let t = trim raw in
       case parse_u64 t of
         Some n \<Rightarrow> Inr n
       | None \<Rightarrow> ok_or (Not_A_Count key t) (Option.bind (parse_f64 t) count_of_f64))"

fun nonzero :: "f64v \<Rightarrow> bool" where
  "nonzero (Finite x) \<longleftrightarrow> x \<noteq> 0"
| "nonzero (Non_Finite _) \<longleftrightarrow> True"

definition parse_flag :: "show_f64 \<Rightarrow> string \<Rightarrow> reply \<Rightarrow> wait_error + bool" where
  "parse_flag shw key v =
     rbind (field_text shw key v) (\<lambda>raw.
       let t = trim raw in
       if t = ''0'' \<or> t = ''false'' then Inr False
       else if t = ''1'' \<or> t = ''true'' then Inr True
       else ok_or (Not_A_Flag key t) (map_option nonzero (parse_f64 t)))"

definition ft_info_field ::
    "show_f64 \<Rightarrow> ft_info_progress \<Rightarrow> string \<times> reply \<Rightarrow> wait_error + ft_info_progress" where
  "ft_info_field shw p kv = (let (key, v) = kv in
     map_sum id (\<lambda>q. q\<lparr>ft_fields := ft_fields q @ [key]\<rparr>)
       (if key = ''num_docs'' then rbind (parse_count shw key v) (\<lambda>n. Inr (p\<lparr>num_docs := Some n\<rparr>))
        else if key = ''indexing'' \<or> key = ''backfill_in_progress''
        then rbind (parse_flag shw key v) (\<lambda>b. Inr (p\<lparr>indexing := indexing p \<or> b\<rparr>))
        else if key = ''percent_indexed''
        then rbind (field_text shw key v) (\<lambda>t.
               rbind (ok_or (Percent_Not_A_Number t) (parse_f64 (trim t))) (\<lambda>f.
                 Inr (p\<lparr>percent_indexed := Some f\<rparr>)))
        else if key = ''state'' then Inr (p\<lparr>ft_state := value_text shw v\<rparr>)
        else Inr p))"

definition parse_ft_info :: "show_f64 \<Rightarrow> reply \<Rightarrow> wait_error + ft_info_progress" where
  "parse_ft_info shw info =
     rbind (ft_info_pairs shw info) (\<lambda>kvs.
       ffold (ft_info_field shw)
         \<lparr>num_docs = None, indexing = False, percent_indexed = None, ft_state = None, ft_fields = []\<rparr> kvs)"

definition kividb_field ::
    "show_f64 \<Rightarrow> kividb_progress \<Rightarrow> string \<times> reply \<Rightarrow> wait_error + kividb_progress" where
  "kividb_field shw p kv = (let (key, v) = kv in
     if key = ''hnsw_live_count''
     then rbind (parse_count shw key v) (\<lambda>n. Inr (p\<lparr>hnsw_live_count := Some n\<rparr>))
     else if key = ''num_docs''
     then rbind (parse_count shw key v) (\<lambda>n. Inr (p\<lparr>kividb_num_docs := Some n\<rparr>))
     else if key = ''hnsw_compaction_in_progress''
     then rbind (parse_flag shw key v) (\<lambda>b. Inr (p\<lparr>compaction_in_progress := compaction_in_progress p \<or> b\<rparr>))
     else Inr p)"

definition parse_kividb_ft_info :: "show_f64 \<Rightarrow> reply \<Rightarrow> wait_error + kividb_progress" where
  "parse_kividb_ft_info shw info =
     rbind (ft_info_pairs shw info) (\<lambda>kvs.
       ffold (kividb_field shw)
         \<lparr>kividb_num_docs = None, hnsw_live_count = None, compaction_in_progress = False\<rparr> kvs)"

section \<open>Readiness\<close>

fun at_least_one :: "f64v \<Rightarrow> bool" where
  "at_least_one (Finite x) \<longleftrightarrow> x \<ge> 1"
| "at_least_one (Non_Finite n) \<longleftrightarrow> n = Infinity"

definition ft_info_ready :: "ft_info_progress \<Rightarrow> nat \<Rightarrow> bool \<Rightarrow> wait_error + bool" where
  "ft_info_ready p expected use_state = (case num_docs p of
       None \<Rightarrow> Inl (No_Num_Docs expected (ft_fields p))
     | Some n \<Rightarrow>
         let state_ok = (\<not> use_state \<or>
               (case ft_state p of None \<Rightarrow> True | Some s \<Rightarrow> s = [] \<or> s = ''ready''))
         in Inr (n \<ge> expected \<and> \<not> indexing p \<and>
              (case percent_indexed p of None \<Rightarrow> True | Some f \<Rightarrow> at_least_one f) \<and> state_ok))"

definition or_else :: "'a option \<Rightarrow> 'a option \<Rightarrow> 'a option" where
  "or_else x y = (case x of Some _ \<Rightarrow> x | None \<Rightarrow> y)"

definition kividb_ready :: "string \<Rightarrow> kividb_progress \<Rightarrow> nat \<Rightarrow> wait_error + bool" where
  "kividb_ready algorithm p expected =
     (if eq_ignore_ascii_case algorithm ''hnsw'' then
        Inr (case or_else (hnsw_live_count p) (kividb_num_docs p) of
               Some n \<Rightarrow> n \<ge> expected \<and> \<not> compaction_in_progress p
             | None \<Rightarrow> False)
      else if eq_ignore_ascii_case algorithm ''flat'' then
        Inr (case or_else (kividb_num_docs p) (hnsw_live_count p) of
               Some n \<Rightarrow> n \<ge> expected
             | None \<Rightarrow> True)
      else Inl (No_Readiness_Rule algorithm))"

definition redis_index_ready :: "ft_info_progress \<Rightarrow> nat \<Rightarrow> wait_error + bool" where
  "redis_index_ready p expected = ft_info_ready p expected False"

definition valkey_index_ready :: "ft_info_progress \<Rightarrow> nat \<Rightarrow> wait_error + bool" where
  "valkey_index_ready p expected = ft_info_ready p expected True"

definition dragonfly_index_ready :: "ft_info_progress \<Rightarrow> nat \<Rightarrow> wait_error + bool" where
  "dragonfly_index_ready p expected = ft_info_ready p expected False"

text \<open>What an iteration makes of a reply: whether the index is ready, and the progress it reported.\<close>

definition ft_poll ::
    "show_f64 \<Rightarrow> (ft_info_progress \<Rightarrow> nat \<Rightarrow> wait_error + bool) \<Rightarrow> nat \<Rightarrow> reply \<Rightarrow> wait_error + bool \<times> progress_state" where
  "ft_poll shw ready expected info =
     rbind (parse_ft_info shw info) (\<lambda>p. rbind (ready p expected) (\<lambda>b. Inr (b, Ft_Progress p)))"

definition kividb_poll :: "show_f64 \<Rightarrow> string \<Rightarrow> nat \<Rightarrow> reply \<Rightarrow> wait_error + bool \<times> progress_state" where
  "kividb_poll shw algorithm expected info =
     rbind (parse_kividb_ft_info shw info) (\<lambda>p.
       rbind (kividb_ready algorithm p expected) (\<lambda>b. Inr (b, Kividb_Progress algorithm p)))"

section \<open>The loops\<close>

type_synonym poll_answers = "nat \<Rightarrow> string + reply"

function plain_wait ::
    "(reply \<Rightarrow> wait_error + bool \<times> progress_state) \<Rightarrow> nat \<Rightarrow> poll_answers \<Rightarrow> (nat \<Rightarrow> nat) \<Rightarrow> nat \<Rightarrow> nat \<Rightarrow>
     (wait_error + unit) \<times> nat" where
  "plain_wait poll bud ask took i clock =
     (let now = clock + took i in
      case ask i of
        Inl msg \<Rightarrow> (Inl (Ft_Info_Failed msg), i)
      | Inr info \<Rightarrow>
          (case poll info of
             Inl e \<Rightarrow> (Inl e, i)
           | Inr (ready, progress) \<Rightarrow>
               if ready then (Inr (), i)
               else case verdict now bud progress of
                 Inl e \<Rightarrow> (Inl e, i)
               | Inr _ \<Rightarrow> plain_wait poll bud ask took (Suc i) (now + millis 500)))"
  by pat_completeness auto
termination
  by (relation "measure (\<lambda>(poll, bud, ask, took, i, clock). bud + 1 - clock)")
    (auto simp: verdict_def millis_def split: if_splits)

function redis_wait ::
    "(reply \<Rightarrow> wait_error + bool \<times> progress_state) \<Rightarrow> nat \<Rightarrow> poll_answers \<Rightarrow> (nat \<Rightarrow> nat) \<Rightarrow> (nat \<Rightarrow> nat) \<Rightarrow> nat \<Rightarrow> nat \<Rightarrow>
     transient_retry \<Rightarrow> (wait_error + unit) \<times> nat" where
  "redis_wait poll bud ask took recon i clock retry =
     (let now = clock + took i in
      case ask i of
        Inl msg \<Rightarrow>
          if is_transient_conn_error msg
          then (case on_transient 0 now msg retry of
              (Inl e, _) \<Rightarrow> (Inl e, i)
            | (Inr _, retry') \<Rightarrow> redis_wait poll bud ask took recon (Suc i) (now + recon i + secs 2) retry')
          else (Inl (Ft_Info_Failed msg), i)
      | Inr info \<Rightarrow>
          (case poll info of
             Inl e \<Rightarrow> (Inl e, i)
           | Inr (ready, progress) \<Rightarrow>
               if ready then (Inr (), i)
               else case verdict now bud progress of
                 Inl e \<Rightarrow> (Inl e, i)
               | Inr _ \<Rightarrow> redis_wait poll bud ask took recon (Suc i) (now + millis 500) (on_success retry)))"
  by pat_completeness auto
termination
  by (relation "measure (\<lambda>(poll, bud, ask, took, recon, i, clock, retry). max bud (retry_budget retry) + 1 - clock)")
    (auto simp: verdict_def on_transient_def on_success_def millis_def secs_def Let_def split: if_splits)

declare plain_wait.simps [simp del] redis_wait.simps [simp del]

definition wait_budget :: "wait_phase \<Rightarrow> nat \<Rightarrow> nat \<Rightarrow> string option \<Rightarrow> wait_error + nat" where
  "wait_budget phase floor_secs expected env =
     rbind (parse_override env) (\<lambda>o_secs. Inr (budget phase floor_secs expected o_secs))"

definition redis_wait_for_indexing ::
    "show_f64 \<Rightarrow> string option \<Rightarrow> string + unit \<Rightarrow> poll_answers \<Rightarrow> (nat \<Rightarrow> nat) \<Rightarrow> (nat \<Rightarrow> nat) \<Rightarrow> nat \<Rightarrow> wait_phase \<Rightarrow>
     wait_error + unit" where
  "redis_wait_for_indexing shw env connect ask took recon expected phase =
     rbind (map_err Wait_Connect connect) (\<lambda>_.
       rbind (wait_budget phase 120 expected env) (\<lambda>max_wait.
         fst (redis_wait (ft_poll shw redis_index_ready expected) max_wait ask took recon 0 0
           (transient_retry_new max_wait))))"

definition plain_wait_for_indexing ::
    "(reply \<Rightarrow> wait_error + bool \<times> progress_state) \<Rightarrow> string option \<Rightarrow> string + unit \<Rightarrow> poll_answers \<Rightarrow> (nat \<Rightarrow> nat) \<Rightarrow> nat \<Rightarrow>
     wait_error + unit" where
  "plain_wait_for_indexing poll env connect ask took expected =
     rbind (map_err Wait_Connect connect) (\<lambda>_.
       rbind (wait_budget UploadTail 600 expected env) (\<lambda>max_wait.
         fst (plain_wait poll max_wait ask took 0 0)))"

definition valkey_wait_for_indexing ::
    "show_f64 \<Rightarrow> string option \<Rightarrow> string + unit \<Rightarrow> poll_answers \<Rightarrow> (nat \<Rightarrow> nat) \<Rightarrow> nat \<Rightarrow> wait_error + unit" where
  "valkey_wait_for_indexing shw env connect ask took expected =
     plain_wait_for_indexing (ft_poll shw valkey_index_ready expected) env connect ask took expected"

definition dragonfly_wait_for_indexing ::
    "show_f64 \<Rightarrow> string option \<Rightarrow> string + unit \<Rightarrow> poll_answers \<Rightarrow> (nat \<Rightarrow> nat) \<Rightarrow> nat \<Rightarrow> wait_error + unit" where
  "dragonfly_wait_for_indexing shw env connect ask took expected =
     plain_wait_for_indexing (ft_poll shw dragonfly_index_ready expected) env connect ask took expected"

definition kividb_wait_for_indexing ::
    "show_f64 \<Rightarrow> string \<Rightarrow> string option \<Rightarrow> string + unit \<Rightarrow> poll_answers \<Rightarrow> (nat \<Rightarrow> nat) \<Rightarrow> nat \<Rightarrow> wait_error + unit" where
  "kividb_wait_for_indexing shw algorithm env connect ask took expected =
     plain_wait_for_indexing (kividb_poll shw algorithm expected) env connect ask took expected"

section \<open>What a parsed reply says\<close>

definition flags_clear :: "show_f64 \<Rightarrow> string list \<Rightarrow> (string \<times> reply) list \<Rightarrow> bool" where
  "flags_clear shw keys kvs \<longleftrightarrow> list_all (\<lambda>(k, v). k \<in> set keys \<longrightarrow> parse_flag shw k v = Inr False) kvs"

text \<open>The last value of a field is the one that counts.\<close>

definition last_count :: "show_f64 \<Rightarrow> string \<Rightarrow> (string \<times> reply) list \<Rightarrow> nat option" where
  "last_count shw key kvs =
     Option.bind (map_of (rev kvs) key) (\<lambda>v. case parse_count shw key v of Inr n \<Rightarrow> Some n | Inl _ \<Rightarrow> None)"

lemma last_count_snoc:
  "last_count shw key (kvs @ [(k, v)]) =
     (if k = key then case parse_count shw key v of Inr n \<Rightarrow> Some n | Inl _ \<Rightarrow> None
      else last_count shw key kvs)"
  by (simp add: last_count_def)

lemma flags_clear_snoc:
  "flags_clear shw keys (kvs @ [(k, v)]) \<longleftrightarrow>
     flags_clear shw keys kvs \<and> (k \<in> set keys \<longrightarrow> parse_flag shw k v = Inr False)"
  by (simp add: flags_clear_def)

lemma map_sum_Inr_iff: "map_sum id f r = Inr y \<longleftrightarrow> (\<exists>x. r = Inr x \<and> y = f x)"
  by (cases r) auto

text \<open>What one field does to the progress, and the state after all of them.\<close>

definition ft_effect :: "show_f64 \<Rightarrow> ft_info_progress \<Rightarrow> string \<Rightarrow> reply \<Rightarrow> ft_info_progress \<Rightarrow> bool" where
  "ft_effect shw q k v p \<longleftrightarrow>
     num_docs p = (if k = ''num_docs''
       then case parse_count shw ''num_docs'' v of Inr n \<Rightarrow> Some n | Inl _ \<Rightarrow> None else num_docs q) \<and>
     (indexing p \<longleftrightarrow> indexing q \<or> (k = ''indexing'' \<or> k = ''backfill_in_progress'') \<and> parse_flag shw k v \<noteq> Inr False) \<and>
     (if k = ''percent_indexed''
      then \<exists>s f. value_text shw v = Some s \<and> parse_f64 (trim s) = Some f \<and> percent_indexed p = Some f
      else percent_indexed p = percent_indexed q) \<and>
     ft_state p = (if k = ''state'' then value_text shw v else ft_state q)"

lemma ft_info_field_effect: "ft_info_field shw q (k, v) = Inr p \<Longrightarrow> ft_effect shw q k v p"
proof -
  assume *: "ft_info_field shw q (k, v) = Inr p"
  consider "k = ''num_docs''" | "k = ''indexing''" | "k = ''backfill_in_progress''" | "k = ''percent_indexed''"
    | "k = ''state''" | "k \<noteq> ''num_docs''" "k \<noteq> ''indexing''" "k \<noteq> ''backfill_in_progress''"
        "k \<noteq> ''percent_indexed''" "k \<noteq> ''state''"
    by metis
  then show ?thesis
    using * by cases (auto simp: ft_effect_def ft_info_field_def map_sum_Inr_iff field_text_def)
qed

definition ft_says :: "show_f64 \<Rightarrow> (string \<times> reply) list \<Rightarrow> ft_info_progress \<Rightarrow> bool" where
  "ft_says shw kvs p \<longleftrightarrow> num_docs p = last_count shw ''num_docs'' kvs \<and>
     (indexing p \<longleftrightarrow> \<not> flags_clear shw [''indexing'', ''backfill_in_progress''] kvs) \<and>
     (case map_of (rev kvs) ''percent_indexed'' of
        None \<Rightarrow> percent_indexed p = None
      | Some v \<Rightarrow> \<exists>s f. value_text shw v = Some s \<and> parse_f64 (trim s) = Some f \<and> percent_indexed p = Some f) \<and>
     ft_state p = Option.bind (map_of (rev kvs) ''state'') (value_text shw)"

lemma ft_info_fold:
  assumes "ffold (ft_info_field shw)
      \<lparr>num_docs = None, indexing = False, percent_indexed = None, ft_state = None, ft_fields = []\<rparr> kvs = Inr p"
  shows "ft_says shw kvs p"
  using assms
proof (induction kvs arbitrary: p rule: rev_induct)
  case Nil
  then show ?case by (auto simp: ft_says_def last_count_def flags_clear_def)
next
  case (snoc kv kvs)
  obtain k v where kv: "kv = (k, v)" by fastforce
  from snoc.prems obtain q where q: "ffold (ft_info_field shw)
      \<lparr>num_docs = None, indexing = False, percent_indexed = None, ft_state = None, ft_fields = []\<rparr> kvs = Inr q"
    and step: "ft_info_field shw q kv = Inr p"
    unfolding ffold_snoc by auto
  note e = ft_info_field_effect [OF step [unfolded kv], unfolded ft_effect_def] and IH = snoc.IH [OF q, unfolded ft_says_def]
  have "num_docs p = last_count shw ''num_docs'' (kvs @ [kv])" using e IH by (simp add: kv last_count_snoc)
  moreover have "indexing p \<longleftrightarrow> \<not> flags_clear shw [''indexing'', ''backfill_in_progress''] (kvs @ [kv])"
    using e IH by (simp only: kv flags_clear_snoc) auto
  moreover have "ft_state p = Option.bind (map_of (rev (kvs @ [kv])) ''state'') (value_text shw)"
    using e IH by (simp add: kv)
  moreover have "case map_of (rev (kvs @ [kv])) ''percent_indexed'' of
      None \<Rightarrow> percent_indexed p = None
    | Some v \<Rightarrow> \<exists>s f. value_text shw v = Some s \<and> parse_f64 (trim s) = Some f \<and> percent_indexed p = Some f"
    using e IH by (cases "k = ''percent_indexed''"; cases "map_of (rev kvs) ''percent_indexed''") (simp_all add: kv)
  ultimately show ?case unfolding ft_says_def by blast
qed

lemma kividb_fold:
  assumes "ffold (kividb_field shw)
      \<lparr>kividb_num_docs = None, hnsw_live_count = None, compaction_in_progress = False\<rparr> kvs = Inr p"
  shows "kividb_num_docs p = last_count shw ''num_docs'' kvs \<and>
    hnsw_live_count p = last_count shw ''hnsw_live_count'' kvs \<and>
    (compaction_in_progress p \<longleftrightarrow> \<not> flags_clear shw [''hnsw_compaction_in_progress''] kvs)"
  using assms
proof (induction kvs arbitrary: p rule: rev_induct)
  case Nil
  then show ?case by (auto simp: last_count_def flags_clear_def)
next
  case (snoc kv kvs)
  obtain k v where kv: "kv = (k, v)" by fastforce
  from snoc.prems obtain q where q: "ffold (kividb_field shw)
      \<lparr>kividb_num_docs = None, hnsw_live_count = None, compaction_in_progress = False\<rparr> kvs = Inr q"
    and step: "kividb_field shw q kv = Inr p"
    unfolding ffold_snoc by auto
  from step snoc.IH [OF q] show ?case
    unfolding kv last_count_snoc flags_clear_snoc
    by (auto simp: kividb_field_def split: if_splits)
qed

definition percent_done :: "show_f64 \<Rightarrow> (string \<times> reply) list \<Rightarrow> bool" where
  "percent_done shw kvs \<longleftrightarrow> (case map_of (rev kvs) ''percent_indexed'' of
       None \<Rightarrow> True
     | Some v \<Rightarrow> \<exists>s f. value_text shw v = Some s \<and> parse_f64 (trim s) = Some f \<and> at_least_one f)"

definition state_ready :: "show_f64 \<Rightarrow> (string \<times> reply) list \<Rightarrow> bool" where
  "state_ready shw kvs \<longleftrightarrow> (case map_of (rev kvs) ''state'' of
       None \<Rightarrow> True
     | Some v \<Rightarrow> value_text shw v \<in> {None, Some [], Some ''ready''})"

text \<open>
  What a reply has to say for the index to be complete: a count, no smaller than expected; no indexing and no backfill
  running; a percentage, where one is reported, of one; for Valkey also the state \<open>ready\<close>, where one is reported.
\<close>

definition ft_complete :: "show_f64 \<Rightarrow> nat \<Rightarrow> reply \<Rightarrow> bool" where
  "ft_complete shw expected info \<longleftrightarrow> (\<exists>kvs n. ft_info_pairs shw info = Inr kvs \<and>
     last_count shw ''num_docs'' kvs = Some n \<and> expected \<le> n \<and>
     flags_clear shw [''indexing'', ''backfill_in_progress''] kvs \<and> percent_done shw kvs)"

definition valkey_complete :: "show_f64 \<Rightarrow> nat \<Rightarrow> reply \<Rightarrow> bool" where
  "valkey_complete shw expected info \<longleftrightarrow> ft_complete shw expected info \<and>
     (\<exists>kvs. ft_info_pairs shw info = Inr kvs \<and> state_ready shw kvs)"

text \<open>
  KiviDB under HNSW: a count, no smaller than expected, and no compaction.  Under FLAT the vectors are in the index when
  the writes return, so there is nothing to wait for: a count is compared where the server reports one, and a reply
  without any count is complete.
\<close>

definition kividb_complete :: "show_f64 \<Rightarrow> string \<Rightarrow> nat \<Rightarrow> reply \<Rightarrow> bool" where
  "kividb_complete shw algorithm expected info \<longleftrightarrow> (\<exists>kvs. ft_info_pairs shw info = Inr kvs \<and>
     (if eq_ignore_ascii_case algorithm ''hnsw''
      then (\<exists>n. or_else (last_count shw ''hnsw_live_count'' kvs) (last_count shw ''num_docs'' kvs) = Some n \<and>
              expected \<le> n) \<and> flags_clear shw [''hnsw_compaction_in_progress''] kvs
      else eq_ignore_ascii_case algorithm ''flat'' \<and>
        (case or_else (last_count shw ''num_docs'' kvs) (last_count shw ''hnsw_live_count'' kvs) of
           Some n \<Rightarrow> expected \<le> n
         | None \<Rightarrow> True)))"

section \<open>One iteration\<close>

lemma plain_wait_cases [consumes 1, case_names stop go]:
  assumes "plain_wait poll bud ask took i c = (res, j)"
  obtains "j = i" "res = Inr () \<longrightarrow> (\<exists>info st. ask i = Inr info \<and> poll info = Inr (True, st))"
  | info st where "ask i = Inr info" "poll info = Inr (False, st)" "c + took i \<le> bud"
      "plain_wait poll bud ask took (Suc i) (c + took i + millis 500) = (res, j)"
proof (cases "ask i")
  case (Inl msg)
  with assms that(1) show ?thesis by (subst (asm) plain_wait.simps) auto
next
  case (Inr info)
  show ?thesis
  proof (cases "poll info")
    case (Inl e)
    with Inr assms that(1) show ?thesis by (subst (asm) plain_wait.simps) auto
  next
    case r: (Inr p)
    obtain ready st where "p = (ready, st)" by fastforce
    with Inr r assms that show ?thesis
      by (subst (asm) plain_wait.simps) (cases ready; auto simp: verdict_def Let_def split: if_splits)
  qed
qed

lemma redis_wait_cases [consumes 1, case_names stop retry go]:
  assumes "redis_wait poll bud ask took recon i c r = (res, j)"
  obtains "j = i" "res = Inr () \<longrightarrow> (\<exists>info st. ask i = Inr info \<and> poll info = Inr (True, st))"
  | msg s where "ask i = Inl msg" "is_transient_conn_error msg"
      "s = (case outage_since r of Some t \<Rightarrow> t | None \<Rightarrow> c + took i)"
      "c + took i - s \<le> RECONNECT_WINDOW" "c + took i < retry_budget r"
      "redis_wait poll bud ask took recon (Suc i) (c + took i + recon i + secs 2) (r\<lparr>outage_since := Some s\<rparr>) = (res, j)"
  | info st where "ask i = Inr info" "poll info = Inr (False, st)" "c + took i \<le> bud"
      "redis_wait poll bud ask took recon (Suc i) (c + took i + millis 500) (on_success r) = (res, j)"
proof (cases "ask i")
  case (Inl msg)
  with assms that(1,2) show ?thesis
    by (subst (asm) redis_wait.simps) (auto simp: on_transient_def Let_def split: if_splits)
next
  case (Inr info)
  show ?thesis
  proof (cases "poll info")
    case (Inl e)
    with Inr assms that(1) show ?thesis by (subst (asm) redis_wait.simps) auto
  next
    case r: (Inr p)
    obtain ready st where "p = (ready, st)" by fastforce
    with Inr r assms that(1,3) show ?thesis
      by (subst (asm) redis_wait.simps) (cases ready; auto simp: verdict_def Let_def split: if_splits)
  qed
qed

section \<open>The interface of a readiness rule\<close>

text \<open>Poll \<open>j\<close> is the first from \<open>i\<close> on whose reply is complete.\<close>

definition first_complete :: "(reply \<Rightarrow> bool) \<Rightarrow> poll_answers \<Rightarrow> nat \<Rightarrow> nat \<Rightarrow> bool" where
  "first_complete finished ask i j \<longleftrightarrow> (\<exists>info. ask j = Inr info \<and> finished info) \<and>
     (\<forall>k info. i \<le> k \<longrightarrow> k < j \<longrightarrow> ask k = Inr info \<longrightarrow> \<not> finished info)"

lemma first_complete_Suc:
  assumes "first_complete finished ask (Suc i) j" and "\<And>info. ask i = Inr info \<Longrightarrow> \<not> finished info"
  shows "first_complete finished ask i j"
  using assms unfolding first_complete_def by (metis le_neq_implies_less Suc_leI)

text \<open>
  A rule decides a reply; \<open>complete\<close> is what it promises about a reply it calls ready.  Both loops rest on
  that promise alone.
\<close>

locale readiness =
  fixes poll :: "nat \<Rightarrow> reply \<Rightarrow> wait_error + bool \<times> progress_state"
    and complete :: "nat \<Rightarrow> reply \<Rightarrow> bool"
  assumes ready_iff: "poll n info = Inr (ready, st) \<Longrightarrow> ready \<longleftrightarrow> complete n info"
begin

lemma plain_wait_complete:
  "plain_wait (poll n) bud ask took i c = (Inr (), j) \<Longrightarrow> first_complete (complete n) ask i j"
proof (induction "bud + 1 - c" arbitrary: i c rule: less_induct)
  case less
  from less.prems show ?case
  proof (cases rule: plain_wait_cases)
    case stop
    then show ?thesis using ready_iff by (force simp: first_complete_def)
  next
    case (go info st)
    have "first_complete (complete n) ask (Suc i) j" using go by (intro less.hyps [OF _ go(4)]) (auto simp: millis_def)
    then show ?thesis by (rule first_complete_Suc) (use go ready_iff in auto)
  qed
qed

lemma redis_wait_complete:
  "redis_wait (poll n) bud ask took recon i c r = (Inr (), j) \<Longrightarrow> retry_budget r = bud \<Longrightarrow>
   first_complete (complete n) ask i j"
proof (induction "bud + 1 - c" arbitrary: i c r rule: less_induct)
  case less
  from less.prems(1) show ?case
  proof (cases rule: redis_wait_cases)
    case stop
    then show ?thesis using ready_iff by (force simp: first_complete_def)
  next
    case (retry msg s)
    have "first_complete (complete n) ask (Suc i) j"
      using retry less.prems(2) by (intro less.hyps [OF _ retry(6)]) (auto simp: secs_def)
    then show ?thesis by (rule first_complete_Suc) (use retry in auto)
  next
    case (go info st)
    have "first_complete (complete n) ask (Suc i) j"
      using go less.prems(2) by (intro less.hyps [OF _ go(4)]) (auto simp: millis_def on_success_def)
    then show ?thesis by (rule first_complete_Suc) (use go ready_iff in auto)
  qed
qed

end

lemma ft_info_ready_iff:
  assumes "parse_ft_info shw info = Inr p" and "ft_info_ready p n use_state = Inr b"
  shows "b \<longleftrightarrow> ft_complete shw n info \<and> (use_state \<longrightarrow> valkey_complete shw n info)"
proof -
  from assms(1) obtain kvs where kvs: "ft_info_pairs shw info = Inr kvs" and "ft_says shw kvs p"
    by (auto simp: parse_ft_info_def intro: ft_info_fold)
  moreover from this have "(case percent_indexed p of None \<Rightarrow> True | Some f \<Rightarrow> at_least_one f) \<longleftrightarrow> percent_done shw kvs"
    by (auto simp: ft_says_def percent_done_def split: option.splits)
  moreover from calculation have "(case ft_state p of None \<Rightarrow> True | Some s \<Rightarrow> s = [] \<or> s = ''ready'') \<longleftrightarrow> state_ready shw kvs"
    by (auto simp: ft_says_def state_ready_def split: option.splits)
  ultimately show ?thesis using assms(2)
    by (auto simp: ft_says_def ft_info_ready_def ft_complete_def valkey_complete_def split: option.splits)
qed

interpretation redis_rule: readiness "ft_poll shw redis_index_ready" "ft_complete shw"
  by unfold_locales (auto simp: ft_poll_def redis_index_ready_def dest: ft_info_ready_iff)

interpretation valkey_rule: readiness "ft_poll shw valkey_index_ready" "valkey_complete shw"
  by unfold_locales (auto simp: ft_poll_def valkey_index_ready_def valkey_complete_def dest: ft_info_ready_iff)

interpretation dragonfly_rule: readiness "ft_poll shw dragonfly_index_ready" "ft_complete shw"
  by unfold_locales (auto simp: ft_poll_def dragonfly_index_ready_def dest: ft_info_ready_iff)

lemma kividb_ready_iff:
  assumes "parse_kividb_ft_info shw info = Inr p" and "kividb_ready algorithm p n = Inr b"
  shows "b \<longleftrightarrow> kividb_complete shw algorithm n info"
proof -
  from assms(1) obtain kvs where kvs: "ft_info_pairs shw info = Inr kvs" and f: "ffold (kividb_field shw)
      \<lparr>kividb_num_docs = None, hnsw_live_count = None, compaction_in_progress = False\<rparr> kvs = Inr p"
    by (auto simp: parse_kividb_ft_info_def)
  from assms(2) kividb_fold [OF f] kvs show ?thesis
    by (auto simp: kividb_ready_def kividb_complete_def split: if_splits option.splits)
qed

interpretation kividb_rule: readiness "kividb_poll shw algorithm" "kividb_complete shw algorithm"
  by unfold_locales (auto simp: kividb_poll_def dest: kividb_ready_iff)

section \<open>The time of a poll\<close>

fun pause :: "string + reply \<Rightarrow> nat" where
  "pause (Inl _) = secs 2"
| "pause (Inr _) = millis 500"

text \<open>When iteration \<open>i\<close> reads the clock, as long as the loop has not returned before.\<close>

fun poll_time :: "poll_answers \<Rightarrow> (nat \<Rightarrow> nat) \<Rightarrow> (nat \<Rightarrow> nat) \<Rightarrow> nat \<Rightarrow> nat" where
  "poll_time ask took recon 0 = took 0"
| "poll_time ask took recon (Suc i) =
     poll_time ask took recon i + (if isl (ask i) then recon i else 0) + pause (ask i) + took (Suc i)"

lemma pause_ge: "millis 500 \<le> pause a"
  by (cases a) (auto simp: millis_def secs_def)

lemma pause_le: "pause a \<le> secs 2"
  by (cases a) (auto simp: millis_def secs_def)

lemma poll_time_ge: "i * millis 500 \<le> poll_time ask took recon i"
proof (induction i)
  case (Suc i)
  with pause_ge [of "ask i"] show ?case by simp
qed simp

lemma poll_time_mono: "i \<le> j \<Longrightarrow> poll_time ask took recon i \<le> poll_time ask took recon j"
  by (induction j rule: dec_induct) auto

definition fails :: "poll_answers \<Rightarrow> nat \<Rightarrow> bool" where
  "fails ask i \<longleftrightarrow> (\<exists>msg. ask i = Inl msg)"

text \<open>The first poll of the outage that poll \<open>i\<close> belongs to.\<close>

fun outage_start :: "poll_answers \<Rightarrow> nat \<Rightarrow> nat" where
  "outage_start ask 0 = 0"
| "outage_start ask (Suc i) = (if fails ask i then outage_start ask i else Suc i)"

lemma outage_start_le: "outage_start ask i \<le> i"
  by (induction i) auto

lemma outage_start_run: "i \<le> k \<Longrightarrow> (\<And>m. i \<le> m \<Longrightarrow> m < k \<Longrightarrow> fails ask m) \<Longrightarrow> outage_start ask k \<le> i"
proof (induction k)
  case (Suc k)
  then show ?case by (cases "i = Suc k") (auto simp: outage_start_le le_SucI)
qed simp

lemma plain_wait_times:
  assumes "plain_wait poll bud ask took i c = (res, j)" and "c + took i = poll_time ask took recon i"
  shows "i \<le> j \<and> (\<forall>k. i \<le> k \<and> k < j \<longrightarrow> poll_time ask took recon k \<le> bud \<and> \<not> fails ask k)"
  using assms
proof (induction "bud + 1 - c" arbitrary: i c rule: less_induct)
  case less
  from less.prems(1) show ?case
  proof (cases rule: plain_wait_cases)
    case (go info st)
    then have "Suc i \<le> j \<and> (\<forall>k. Suc i \<le> k \<and> k < j \<longrightarrow> poll_time ask took recon k \<le> bud \<and> \<not> fails ask k)"
      using less.prems(2) by (intro less.hyps [OF _ go(4)]) (auto simp: millis_def)
    moreover have "\<not> fails ask i" using go(1) by (simp add: fails_def)
    ultimately show ?thesis using go(3) less.prems(2) by (metis Suc_leD le_neq_implies_less Suc_leI)
  qed auto
qed

definition retry_inv :: "nat \<Rightarrow> poll_answers \<Rightarrow> (nat \<Rightarrow> nat) \<Rightarrow> (nat \<Rightarrow> nat) \<Rightarrow> nat \<Rightarrow> transient_retry \<Rightarrow> bool" where
  "retry_inv bud ask took recon i r \<longleftrightarrow> retry_budget r = bud \<and>
     outage_since r = (if outage_start ask i = i then None else Some (poll_time ask took recon (outage_start ask i)))"

lemma redis_wait_times:
  assumes "redis_wait poll bud ask took recon i c r = (res, j)" and "c + took i = poll_time ask took recon i"
    and "retry_inv bud ask took recon i r"
  shows "i \<le> j \<and> (\<forall>k. i \<le> k \<and> k < j \<longrightarrow> poll_time ask took recon k \<le> bud \<and>
    (fails ask k \<longrightarrow> poll_time ask took recon k - poll_time ask took recon (outage_start ask k) \<le> RECONNECT_WINDOW))"
    (is "i \<le> j \<and> (\<forall>k. i \<le> k \<and> k < j \<longrightarrow> ?P k)")
  using assms
proof (induction "bud + 1 - c" arbitrary: i c r rule: less_induct)
  case less
  have more: "Suc i \<le> j \<Longrightarrow> (\<forall>k. Suc i \<le> k \<and> k < j \<longrightarrow> ?P k) \<Longrightarrow> ?P i \<Longrightarrow> i \<le> j \<and> (\<forall>k. i \<le> k \<and> k < j \<longrightarrow> ?P k)"
    by (metis Suc_leD le_neq_implies_less Suc_leI)
  from less.prems(1) show ?case
  proof (cases rule: redis_wait_cases)
    case (retry msg s)
    have s: "s = poll_time ask took recon (outage_start ask i)"
      using retry(3) less.prems(2,3) by (auto simp: retry_inv_def split: if_splits)
    have "retry_inv bud ask took recon (Suc i) (r\<lparr>outage_since := Some s\<rparr>)"
      using less.prems(3) s retry(1) outage_start_le [of ask i] by (auto simp: retry_inv_def fails_def)
    then have "Suc i \<le> j \<and> (\<forall>k. Suc i \<le> k \<and> k < j \<longrightarrow> ?P k)"
      using less.prems(2,3) retry by (intro less.hyps [OF _ retry(6)]) (auto simp: secs_def retry_inv_def)
    moreover have "?P i" using retry less.prems(2,3) s by (auto simp: retry_inv_def)
    ultimately show ?thesis using more by blast
  next
    case (go info st)
    have "retry_inv bud ask took recon (Suc i) (on_success r)"
      using less.prems(3) go(1) by (auto simp: retry_inv_def fails_def on_success_def)
    then have "Suc i \<le> j \<and> (\<forall>k. Suc i \<le> k \<and> k < j \<longrightarrow> ?P k)"
      using less.prems(2) go by (intro less.hyps [OF _ go(4)]) (auto simp: millis_def)
    moreover have "?P i" using go less.prems(2) by (auto simp: fails_def)
    ultimately show ?thesis using more by blast
  qed simp
qed

lemma retry_inv_init: "retry_inv bud ask took recon 0 (transient_retry_new bud)"
  by (simp add: retry_inv_def transient_retry_new_def)

text \<open>A loop whose earlier polls are all within the budget polls a bounded number of times.\<close>

lemma polls_bounded:
  assumes "\<forall>k. k < j \<longrightarrow> poll_time ask took recon k \<le> bud"
  shows "j \<le> bud div millis 500 + 1"
proof (cases j)
  case (Suc i)
  with assms poll_time_ge [of i ask took recon] have "i * millis 500 \<le> bud" by (meson le_trans lessI)
  then have "i \<le> bud div millis 500" by (simp add: millis_def less_eq_div_iff_mult_less_eq)
  with Suc show ?thesis by simp
qed simp

lemma plain_wait_run:
  assumes "plain_wait_for_indexing poll env connect ask took expected = Inr ()"
  obtains b j where "plain_wait poll b ask took 0 0 = (Inr (), j)"
proof -
  from assms obtain b where "fst (plain_wait poll b ask took 0 0) = Inr ()"
    by (auto simp: plain_wait_for_indexing_def)
  then have "plain_wait poll b ask took 0 0 = (Inr (), snd (plain_wait poll b ask took 0 0))"
    by (simp add: prod_eq_iff)
  then show ?thesis by (rule that)
qed

lemma redis_wait_first:
  assumes "redis_wait_for_indexing shw env connect ask took recon expected phase = Inr ()"
  shows "\<exists>j. first_complete (ft_complete shw expected) ask 0 j"
proof -
  from assms obtain b where "fst (redis_wait (ft_poll shw redis_index_ready expected) b ask took recon 0 0
      (transient_retry_new b)) = Inr ()"
    by (auto simp: redis_wait_for_indexing_def)
  then have "redis_wait (ft_poll shw redis_index_ready expected) b ask took recon 0 0 (transient_retry_new b) =
      (Inr (), snd (redis_wait (ft_poll shw redis_index_ready expected) b ask took recon 0 0 (transient_retry_new b)))"
    by (simp add: prod_eq_iff)
  from redis_rule.redis_wait_complete [OF this] show ?thesis
    by (auto simp: transient_retry_new_def)
qed

section \<open>Properties\<close>

lemma redis_wait_indexed:
  assumes "redis_wait_for_indexing shw env connect ask took recon expected phase = Inr ()"
  shows "\<exists>j info. ask j = Inr info \<and> ft_complete shw expected info"
  using redis_wait_first [OF assms] by (auto simp: first_complete_def)


text \<open>
  A server that refuses the connection once, then reports one document of two, then both.
\<close>

definition demo_answers :: poll_answers where
  "demo_answers i = (if i = 0 then Inl ''Connection refused (os error 111)''
     else if i = 1 then Inr (RArray [SimpleString ''num_docs'', RInt 1, SimpleString ''indexing'', RInt 1])
     else Inr (RMap [(SimpleString ''num_docs'', RInt 2), (SimpleString ''indexing'', RInt 0)]))"

lemma demo_transient: "is_transient_conn_error ''Connection refused (os error 111)''"
  by code_simp

lemma demo_polls:
  "ft_poll (\<lambda>_. []) redis_index_ready 2 (RArray [SimpleString ''num_docs'', RInt 1, SimpleString ''indexing'', RInt 1]) =
     Inr (False, Ft_Progress \<lparr>num_docs = Some 1, indexing = True, percent_indexed = None, ft_state = None,
       ft_fields = [''num_docs'', ''indexing'']\<rparr>)"
  "ft_poll (\<lambda>_. []) redis_index_ready 2 (RMap [(SimpleString ''num_docs'', RInt 2), (SimpleString ''indexing'', RInt 0)]) =
     Inr (True, Ft_Progress \<lparr>num_docs = Some 2, indexing = False, percent_indexed = None, ft_state = None,
       ft_fields = [''num_docs'', ''indexing'']\<rparr>)"
proof -
  have d: "digit 0 = CHR ''0''" "digit 1 = CHR ''1''" "digit 2 = CHR ''2''"
    by code_simp+
  have t: "trim ''0'' = ''0''" "trim ''1'' = ''1''" "trim ''2'' = ''2''" "parse_u64 ''1'' = Some 1" "parse_u64 ''2'' = Some 2"
    "int_str 0 = ''0''" "int_str 1 = ''1''" "int_str 2 = ''2''"
    by (simp_all add: trim_def white_space_def strip_any.simps upt_rec prefix_def int_str_def nat_str.simps d [unfolded One_nat_def]
        parse_u64_def is_digit_def byte_def digits_value_def)
  show "ft_poll (\<lambda>_. []) redis_index_ready 2 (RArray [SimpleString ''num_docs'', RInt 1, SimpleString ''indexing'', RInt 1]) =
     Inr (False, Ft_Progress \<lparr>num_docs = Some 1, indexing = True, percent_indexed = None, ft_state = None,
       ft_fields = [''num_docs'', ''indexing'']\<rparr>)"
    by (simp add: ft_poll_def parse_ft_info_def text_pairs_def ft_info_field_def parse_count_def parse_flag_def
        field_text_def redis_index_ready_def ft_info_ready_def t List.map_filter_simps)
  show "ft_poll (\<lambda>_. []) redis_index_ready 2 (RMap [(SimpleString ''num_docs'', RInt 2), (SimpleString ''indexing'', RInt 0)]) =
     Inr (True, Ft_Progress \<lparr>num_docs = Some 2, indexing = False, percent_indexed = None, ft_state = None,
       ft_fields = [''num_docs'', ''indexing'']\<rparr>)"
    by (simp add: ft_poll_def parse_ft_info_def text_pairs_def ft_info_field_def parse_count_def parse_flag_def
        field_text_def redis_index_ready_def ft_info_ready_def t List.map_filter_simps)
qed

lemma demo_run:
  "redis_wait (ft_poll (\<lambda>_. []) redis_index_ready 2) (secs 120) demo_answers (\<lambda>_. millis 1) (\<lambda>_. millis 3) 0 0
     (transient_retry_new (secs 120)) = (Inr (), 2)"
  by (subst redis_wait.simps, subst redis_wait.simps, subst redis_wait.simps)
    (simp add: demo_answers_def demo_transient demo_polls on_transient_def transient_retry_new_def verdict_def
      RECONNECT_WINDOW_def secs_def millis_def Let_def)


text \<open>
  C20: an indexing wait always ends, whatever the server answers and however long its answers take.  It makes at most
  two polls more than there are half seconds in its budget.  The Redis wait sends its last poll no later than two
  seconds after the budget is spent, plus the time of the one reconnection that may precede it; the others no later
  than half a second after.  No outage is retried past the reconnect window: between any two polls of a run of
  consecutive failures that the Redis wait went on from, there are at most 120 seconds.
\<close>

theorem indexing_wait_bounded:
  "(redis_wait poll bud ask took recon 0 0 (transient_retry_new bud) = (res, j) \<longrightarrow>
      j \<le> bud div millis 500 + 1 \<and> poll_time ask took recon j - took j \<le> bud + secs 2 + recon (j - 1) \<and>
      (\<forall>i k. i \<le> k \<and> k < j \<and> (\<forall>m. i \<le> m \<and> m \<le> k \<longrightarrow> fails ask m) \<longrightarrow>
         poll_time ask took recon k - poll_time ask took recon i \<le> secs 120)) \<and>
   (plain_wait poll bud ask took 0 0 = (res, j) \<longrightarrow>
      j \<le> bud div millis 500 + 1 \<and> poll_time ask took recon j - took j \<le> bud + millis 500)"
proof (intro conjI impI)
  assume "redis_wait poll bud ask took recon 0 0 (transient_retry_new bud) = (res, j)"
  from redis_wait_times [OF this _ retry_inv_init] have t: "\<forall>k. k < j \<longrightarrow> poll_time ask took recon k \<le> bud \<and>
      (fails ask k \<longrightarrow> poll_time ask took recon k - poll_time ask took recon (outage_start ask k) \<le> RECONNECT_WINDOW)"
    by simp
  then show "j \<le> bud div millis 500 + 1" by (intro polls_bounded) blast
  show "poll_time ask took recon j - took j \<le> bud + secs 2 + recon (j - 1)"
  proof (cases j)
    case (Suc i)
    with t have "poll_time ask took recon i \<le> bud" by auto
    with Suc pause_le [of "ask i"] show ?thesis by auto
  qed simp
  show "\<forall>i k. i \<le> k \<and> k < j \<and> (\<forall>m. i \<le> m \<and> m \<le> k \<longrightarrow> fails ask m) \<longrightarrow>
      poll_time ask took recon k - poll_time ask took recon i \<le> secs 120"
  proof (intro allI impI)
    fix i k assume *: "i \<le> k \<and> k < j \<and> (\<forall>m. i \<le> m \<and> m \<le> k \<longrightarrow> fails ask m)"
    then have "poll_time ask took recon k - poll_time ask took recon (outage_start ask k) \<le> RECONNECT_WINDOW"
      using t by auto
    moreover have "poll_time ask took recon (outage_start ask k) \<le> poll_time ask took recon i"
      using * by (intro poll_time_mono outage_start_run) auto
    ultimately show "poll_time ask took recon k - poll_time ask took recon i \<le> secs 120"
      by (simp add: RECONNECT_WINDOW_def)
  qed
next
  assume "plain_wait poll bud ask took 0 0 = (res, j)"
  from plain_wait_times [OF this, of recon] have t: "\<forall>k. k < j \<longrightarrow> poll_time ask took recon k \<le> bud \<and> \<not> fails ask k" by simp
  then show "j \<le> bud div millis 500 + 1" by (intro polls_bounded) blast
  show "poll_time ask took recon j - took j \<le> bud + millis 500"
  proof (cases j)
    case (Suc i)
    with t have "poll_time ask took recon i \<le> bud" "\<not> fails ask i" by auto
    with Suc show ?thesis by (cases "ask i") (auto simp: fails_def)
  qed simp
qed

theorem indexing_wait_bounded_witness:
  "redis_wait (ft_poll (\<lambda>_. []) redis_index_ready 2) (secs 120) demo_answers (\<lambda>_. millis 1) (\<lambda>_. millis 3) 0 0
     (transient_retry_new (secs 120)) = (Inr (), 2) \<and>
   poll_time demo_answers (\<lambda>_. millis 1) (\<lambda>_. millis 3) 2 - millis 1 \<le> secs 122 + millis 3"
  using demo_run
    indexing_wait_bounded [where poll = "ft_poll (\<lambda>_. []) redis_index_ready 2" and ask = demo_answers and
      took = "\<lambda>_. millis 1" and recon = "\<lambda>_. millis 3" and bud = "secs 120" and j = 2 and res = "Inr ()"]
  by (simp add: secs_def)

end
