(* ===== verification/Streamed_Ingest.thy ===== *)
theory Streamed_Ingest
  imports Upload_Stream Ingest Indexing_Wait
begin

text \<open>
  A streamed ingest, \<open>ingest_streamed\<close> of \<open>src/src/upload_stream.rs\<close>: upload, wait for the index, and report both
  phases on one clock.  The two closures it is given are their results here (the wait is told the number
  of documents the upload counted); \<open>t0\<close>, \<open>t1\<close> and \<open>t2\<close> are the three readings of the monotonic clock.
\<close>

datatype streamed_error =
    Upload_Error upload_error
  | Wait_Error wait_error
  | Phases_Error ingest_error

definition ingest_streamed ::
    "real \<Rightarrow> nat \<Rightarrow> nat \<Rightarrow> nat \<Rightarrow> real \<Rightarrow> index_wait \<Rightarrow> upload_error + stream_stats \<Rightarrow> (nat \<Rightarrow> wait_error + unit) \<Rightarrow>
     streamed_error + stream_stats \<times> ingest_phases" where
  "ingest_streamed epoch t0 t1 t2 rt w upload wait =
     (let clock = clock_new epoch t0 in
      rbind (map_err Upload_Error upload) (\<lambda>stats.
        let clock = snd (upload_done t1 clock); n = stat_rows stats in
        rbind (map_err Wait_Error (wait n)) (\<lambda>_.
          rbind (map_err Phases_Error (index_ready t2 n rt w clock)) (\<lambda>phases.
            Inr (stats, phases)))))"

lemma ingest_streamedD:
  assumes "ingest_streamed epoch t0 t1 t2 rt w upload wait = Inr (stats, phases)"
  shows "upload = Inr stats" and "wait (stat_rows stats) = Inr ()"
    and "index_ready t2 (stat_rows stats) rt w (snd (upload_done t1 (clock_new epoch t0))) = Inr phases"
  using assms by (auto simp: ingest_streamed_def Let_def)

lemma index_ready_documents: "index_ready now n rt w c = Inr p \<Longrightarrow> documents p = n"
  by (auto simp: index_ready_def from_offsets_def Let_def)

lemma upload_result_Inr: "upload_result n g = Inr stats \<Longrightarrow> upload_failure g = None"
  by (auto simp: upload_result_def split: option.splits)

end
