(* ===== verification/Query_Filter.thy ===== *)
theory Query_Filter
  imports Json
begin

text \<open>
  From the conditions a query declares to the filter that is sent, \<open>src/src/query_filter.rs\<close>.  The builder of
  an engine is an argument; its own error type is kept.  Private constructors are ordinary functions here:
  what the module promises is stated about the results of the \<open>resolve\<close> functions.
\<close>

datatype 'f query_filter = Query_Filter "'f option"

definition filter_unfiltered :: "'f query_filter" where
  "filter_unfiltered = Query_Filter None"

definition filter_filtered :: "'f \<Rightarrow> 'f query_filter" where
  "filter_filtered f = Query_Filter (Some f)"

primrec filter_as_ref :: "'f query_filter \<Rightarrow> 'f option" where
  "filter_as_ref (Query_Filter f) = f"

primrec into_inner :: "'f query_filter \<Rightarrow> 'f option" where
  "into_inner (Query_Filter f) = f"

primrec is_filtered :: "'f query_filter \<Rightarrow> bool" where
  "is_filtered (Query_Filter f) \<longleftrightarrow> f \<noteq> None"

record query_conditions =
  conditions_dataset :: string
  per_query :: "json option list"

definition conditions_new :: "json option list \<Rightarrow> query_conditions" where
  "conditions_new cs = \<lparr>conditions_dataset = [], per_query = cs\<rparr>"

definition conditions_unfiltered :: "nat \<Rightarrow> query_conditions" where
  "conditions_unfiltered n = \<lparr>conditions_dataset = [], per_query = replicate n None\<rparr>"

definition from_dataset :: "string \<Rightarrow> query_conditions \<Rightarrow> query_conditions" where
  "from_dataset d qc = qc\<lparr>conditions_dataset := d\<rparr>"

text \<open>\<open>None\<close> for an absent, null or empty-object value.\<close>

definition declared :: "json option \<Rightarrow> json option" where
  "declared cond = (case cond of
       None \<Rightarrow> None
     | Some c \<Rightarrow>
         if is_null c then None
         else if as_object c = Some [] then None
         else Some c)"

definition declared_count :: "query_conditions \<Rightarrow> nat" where
  "declared_count qc = length (filter (\<lambda>c. declared c \<noteq> None) (per_query qc))"

datatype 'e filter_error =
    Builder_Error 'e
  | Dropped string string nat json

definition resolve_in ::
    "string \<Rightarrow> string \<Rightarrow> nat \<Rightarrow> json option \<Rightarrow> (json \<Rightarrow> 'e + 'f option) \<Rightarrow> 'e filter_error + 'f query_filter" where
  "resolve_in engine dataset idx conditions parse = (case declared conditions of
       None \<Rightarrow> Inr filter_unfiltered
     | Some cond \<Rightarrow>
         rbind (map_err Builder_Error (parse cond)) (\<lambda>r.
           case r of
             Some f \<Rightarrow> Inr (filter_filtered f)
           | None \<Rightarrow> Inl (Dropped engine dataset idx cond)))"

definition resolve_query ::
    "string \<Rightarrow> nat \<Rightarrow> json option \<Rightarrow> (json \<Rightarrow> 'e + 'f option) \<Rightarrow> 'e filter_error + 'f query_filter" where
  "resolve_query engine idx conditions parse = resolve_in engine [] idx conditions parse"

definition try_resolve_all ::
    "query_conditions \<Rightarrow> string \<Rightarrow> (json \<Rightarrow> 'e + 'f option) \<Rightarrow> 'e filter_error + 'f query_filter list" where
  "try_resolve_all qc engine parse =
     traverse (\<lambda>(idx, cond). resolve_in engine (conditions_dataset qc) idx cond parse)
       (enumerate 0 (per_query qc))"

definition resolve_all ::
    "query_conditions \<Rightarrow> string \<Rightarrow> (json \<Rightarrow> 'f option) \<Rightarrow> 'e filter_error + 'f query_filter list" where
  "resolve_all qc engine parse = try_resolve_all qc engine (\<lambda>c. Inr (parse c))"

section \<open>Lemmas\<close>

lemma declared_Some_iff:
  "declared cond = Some c \<longleftrightarrow> cond = Some c \<and> c \<noteq> Null \<and> c \<noteq> Object []"
  by (cases c) (auto simp: declared_def split: option.splits)

lemma declared_None_iff: "declared cond = None \<longleftrightarrow> cond \<in> {None, Some Null, Some (Object [])}"
proof (cases cond)
  case (Some c)
  then show ?thesis by (cases c) (auto simp: declared_def)
qed (simp add: declared_def)

lemma resolve_in_Inr_iff:
  "resolve_in engine d i cond parse = Inr f \<longleftrightarrow>
     (case declared cond of
        None \<Rightarrow> f = filter_unfiltered
      | Some c \<Rightarrow> \<exists>x. parse c = Inr (Some x) \<and> f = filter_filtered x)"
  by (auto simp: resolve_in_def split: option.splits)

lemma try_resolve_all_Inr_iff:
  "try_resolve_all qc engine parse = Inr fs \<longleftrightarrow> length fs = length (per_query qc) \<and>
     (\<forall>i < length fs. resolve_in engine (conditions_dataset qc) i (per_query qc ! i) parse = Inr (fs ! i))"
  by (auto simp: try_resolve_all_def traverse_Inr_iff list_all2_conv_all_nth nth_enumerate_eq)

lemma traverse_first_error:
  "traverse f xs = Inl e \<longleftrightarrow> (\<exists>i < length xs. f (xs ! i) = Inl e \<and> (\<forall>j < i. is_ok (f (xs ! j))))"
proof (induction xs)
  case (Cons x xs)
  show ?case
  proof (cases "f x")
    case (Inl e')
    then have "(\<exists>i < length (x # xs). f ((x # xs) ! i) = Inl e \<and> (\<forall>j < i. is_ok (f ((x # xs) ! j)))) \<longleftrightarrow> e' = e"
      by (auto intro!: exI [of _ 0]) (metis is_ok_simps(1) neq0_conv nth_Cons_0 sum.inject(1))
    with Inl show ?thesis by simp
  next
    case (Inr y)
    have "(\<exists>i < length (x # xs). f ((x # xs) ! i) = Inl e \<and> (\<forall>j < i. is_ok (f ((x # xs) ! j)))) \<longleftrightarrow>
        (\<exists>i < length xs. f (xs ! i) = Inl e \<and> (\<forall>j < i. is_ok (f (xs ! j))))"
      using Inr by (auto simp: Ex_less_Suc2 All_less_Suc2)
    with Inr Cons show ?thesis by (auto simp: rbind_Inl_iff)
  qed
qed simp

section \<open>A builder and the meaning of its filters\<close>

text \<open>
  What an engine's builder owes its queries: for a condition it supports it builds a filter, and the filter
  means the condition.  Then every query whose condition is supported is resolved, to a filter that means
  its own condition, and to none when it declared none.
\<close>

definition resolved_as :: "('f \<Rightarrow> ('d \<Rightarrow> bool) \<Rightarrow> bool) \<Rightarrow> (json \<Rightarrow> 'd \<Rightarrow> bool) \<Rightarrow> json option \<Rightarrow> 'f query_filter \<Rightarrow> bool" where
  "resolved_as means meaning cond qf = (case declared cond of
       None \<Rightarrow> filter_as_ref qf = None
     | Some c \<Rightarrow> (\<exists>f. filter_as_ref qf = Some f \<and> means f (meaning c)))"

locale meaningful_builder =
  fixes parse :: "json \<Rightarrow> 'f option"
    and means :: "'f \<Rightarrow> ('d \<Rightarrow> bool) \<Rightarrow> bool"
    and supported :: "json \<Rightarrow> bool"
    and meaning :: "json \<Rightarrow> 'd \<Rightarrow> bool"
  assumes builds_meaning: "supported c \<Longrightarrow> \<exists>f. parse c = Some f \<and> means f (meaning c)"
begin

lemma resolves_all:
  assumes "\<And>cond c. cond \<in> set (per_query qc) \<Longrightarrow> declared cond = Some c \<Longrightarrow> supported c"
  shows "\<exists>fs. resolve_all qc engine parse = (Inr fs :: 'e filter_error + _) \<and>
    list_all2 (resolved_as means meaning) (per_query qc) fs"
proof -
  let ?r = "\<lambda>i cond. resolve_in engine (conditions_dataset qc) i cond (\<lambda>c. Inr (parse c)) :: 'e filter_error + 'f query_filter"
  have *: "\<exists>qf. ?r i cond = Inr qf \<and> resolved_as means meaning cond qf" if "cond \<in> set (per_query qc)" for i cond
  proof (cases "declared cond")
    case (Some c)
    from builds_meaning [OF assms [OF that Some]] obtain f where "parse c = Some f" "means f (meaning c)" by blast
    with Some show ?thesis by (simp add: resolve_in_def resolved_as_def filter_filtered_def)
  qed (simp add: resolve_in_def resolved_as_def filter_unfiltered_def)
  then have "is_ok (resolve_all qc engine parse :: 'e filter_error + _)"
    by (simp add: resolve_all_def try_resolve_all_def is_ok_traverse_iff set_enumerate_ball) (metis is_ok_iff nth_mem)
  then obtain fs where fs: "resolve_all qc engine parse = (Inr fs :: 'e filter_error + _)" by (auto simp: is_ok_iff)
  then have "list_all2 (resolved_as means meaning) (per_query qc) fs"
    using * unfolding resolve_all_def try_resolve_all_Inr_iff list_all2_conv_all_nth
    by (metis nth_mem sum.inject(2))
  with fs show ?thesis by blast
qed

end

section \<open>Properties\<close>

text \<open>
  C10: no declared filter vanishes.  Resolution returns one entry per query; an entry is unfiltered exactly
  when its query declared nothing (an absent, null or empty condition), and otherwise carries exactly what
  the builder made of the declared condition.  It fails exactly when the builder failed on or dropped a
  declared condition, and a dropped one is reported with the index of the first such query.
\<close>

theorem no_filter_vanishes:
  "(\<forall>fs. try_resolve_all qc engine parse = Inr fs \<longrightarrow>
      length fs = length (per_query qc) \<and>
      (\<forall>i < length fs.
         (\<not> is_filtered (fs ! i) \<longleftrightarrow> per_query qc ! i \<in> {None, Some Null, Some (Object [])}) \<and>
         (\<forall>f. filter_as_ref (fs ! i) = Some f \<longrightarrow> (\<exists>c. per_query qc ! i = Some c \<and> parse c = Inr (Some f))))) \<and>
   (is_ok (try_resolve_all qc engine parse) \<longleftrightarrow>
      (\<forall>c. c \<in> set (per_query qc) \<longrightarrow> (\<forall>v. declared c = Some v \<longrightarrow> (\<exists>f. parse v = Inr (Some f))))) \<and>
   (\<forall>e d i v. try_resolve_all qc engine parse = Inl (Dropped e d i v) \<longrightarrow>
      e = engine \<and> d = conditions_dataset qc \<and> i < length (per_query qc) \<and>
      per_query qc ! i = Some v \<and> parse v = Inr None \<and>
      (\<forall>j < i. is_ok (resolve_in engine d j (per_query qc ! j) parse)))"
proof (intro conjI allI impI)
  fix fs assume r: "try_resolve_all qc engine parse = Inr fs"
  then show "length fs = length (per_query qc)" by (simp add: try_resolve_all_Inr_iff)
  fix i assume "i < length fs"
  with r have *: "resolve_in engine (conditions_dataset qc) i (per_query qc ! i) parse = Inr (fs ! i)"
    by (simp add: try_resolve_all_Inr_iff)
  show "\<not> is_filtered (fs ! i) \<longleftrightarrow> per_query qc ! i \<in> {None, Some Null, Some (Object [])}"
    unfolding declared_None_iff [symmetric] using *
    by (auto simp: resolve_in_Inr_iff filter_unfiltered_def filter_filtered_def split: option.splits)
  show "\<exists>c. per_query qc ! i = Some c \<and> parse c = Inr (Some f)" if "filter_as_ref (fs ! i) = Some f" for f
    using * that by (auto simp: resolve_in_Inr_iff filter_unfiltered_def filter_filtered_def declared_Some_iff
        split: option.splits)
next
  have "is_ok (resolve_in engine d i c parse) \<longleftrightarrow> (\<forall>v. declared c = Some v \<longrightarrow> (\<exists>f. parse v = Inr (Some f)))" for d i c
    by (cases "declared c") (auto simp: is_ok_iff resolve_in_Inr_iff)
  then show "is_ok (try_resolve_all qc engine parse) \<longleftrightarrow>
      (\<forall>c. c \<in> set (per_query qc) \<longrightarrow> (\<forall>v. declared c = Some v \<longrightarrow> (\<exists>f. parse v = Inr (Some f))))"
    by (simp add: try_resolve_all_def is_ok_traverse_iff set_enumerate_ball) (metis in_set_conv_nth)
next
  fix e d i v assume "try_resolve_all qc engine parse = Inl (Dropped e d i v)"
  then obtain k where k: "k < length (per_query qc)"
    "resolve_in engine (conditions_dataset qc) k (per_query qc ! k) parse = Inl (Dropped e d i v)"
    "\<forall>j < k. is_ok (resolve_in engine (conditions_dataset qc) j (per_query qc ! j) parse)"
    unfolding try_resolve_all_def traverse_first_error by (auto simp: nth_enumerate_eq)
  then have "e = engine \<and> d = conditions_dataset qc \<and> i = k \<and> per_query qc ! k = Some v \<and> parse v = Inr None"
    by (auto simp: resolve_in_def declared_Some_iff rbind_Inl_iff map_err_def split: option.splits sum.splits)
  with k show "e = engine" and "d = conditions_dataset qc" and "i < length (per_query qc)"
    and "per_query qc ! i = Some v" and "parse v = Inr None"
    and "\<And>j. j < i \<Longrightarrow> is_ok (resolve_in engine d j (per_query qc ! j) parse)" by auto
qed

theorem no_filter_vanishes_witness:
  "try_resolve_all (conditions_new [Some Null, Some (String ''x''), Some (Bool True)]) ''Redis''
      (\<lambda>c. (Inr (as_string c) :: unit + _)) = Inl (Dropped ''Redis'' [] 2 (Bool True)) \<and>
   (\<exists>i v. conditions_new [Some Null, Some (String ''x''), Some (Bool True)] =
      conditions_new [Some Null, Some (String ''x''), Some v] \<and> i = (2 :: nat) \<and> as_string v = None)"
proof
  let ?qc = "conditions_new [Some Null, Some (String ''x''), Some (Bool True)]"
  show *: "try_resolve_all ?qc ''Redis'' (\<lambda>c. (Inr (as_string c) :: unit + _)) = Inl (Dropped ''Redis'' [] 2 (Bool True))"
    by (simp add: conditions_new_def try_resolve_all_def resolve_in_def declared_def numeral_2_eq_2)
  from no_filter_vanishes [of ?qc "''Redis''" "\<lambda>c. (Inr (as_string c) :: unit + _)", THEN conjunct2, THEN conjunct2,
      rule_format, OF *]
  show "\<exists>i v. ?qc = conditions_new [Some Null, Some (String ''x''), Some v] \<and> i = (2 :: nat) \<and> as_string v = None"
    by auto
qed

end
