(* ===== verification/Redis_Filter.thy ===== *)
theory Redis_Filter
  imports Query_Filter "HOL-Library.Multiset"
begin

text \<open>
  The filter builder of the Redis engine, \<open>parse_conditions\<close> and what it calls in
  \<open>src/src/bin/vector_db_benchmark/engine/redis.rs\<close>, with the range encoding of \<open>src/src/redis_numeric_range.rs\<close>,
  and the \<open>FT.SEARCH\<close> command built from it.

  A builder returns the query text and its parameters; the counter that keeps parameter names apart is
  passed along.  The parameter map is a list of bindings in insertion order; an iteration over the
  \<open>HashMap\<close> in any order is a permutation of it.  \<open>datetime_to_epoch_secs\<close> rests on \<open>chrono\<close> and is a parameter.
\<close>

section \<open>Parameters\<close>

datatype filter_param = Str_Param string | Int_Param int | Float_Param f64v

type_synonym parsed_filter = "string \<times> (string \<times> filter_param) list"

type_synonym datetime = "string \<Rightarrow> real option"

definition bind_param :: "string \<Rightarrow> filter_param \<Rightarrow> (string \<times> filter_param) list \<Rightarrow> (string \<times> filter_param) list" where
  "bind_param p v ps = filter (\<lambda>e. fst e \<noteq> p) ps @ [(p, v)]"

fun as_bool :: "json \<Rightarrow> bool option" where
  "as_bool (Bool b) = Some b"
| "as_bool _ = None"

text \<open>\<open>f as i64\<close>: truncated, saturating.\<close>

definition f64_as_i64 :: "real \<Rightarrow> int" where
  "f64_as_i64 x = max (- (2 ^ 63)) (min (2 ^ 63 - 1) (if x \<ge> 0 then \<lfloor>x\<rfloor> else \<lceil>x\<rceil>))"

definition number_param :: "datetime \<Rightarrow> json \<Rightarrow> filter_param option" where
  "number_param dt v =
     (case as_i64 v of
        Some i \<Rightarrow> Some (Int_Param i)
      | None \<Rightarrow>
          (case as_f64 v of
             Some f \<Rightarrow> Some (Float_Param (Finite f))
           | None \<Rightarrow>
               (case as_string v of
                  None \<Rightarrow> None
                | Some s \<Rightarrow>
                    (case dt s of
                       Some epoch \<Rightarrow> Some (Int_Param (f64_as_i64 epoch))
                     | None \<Rightarrow>
                         (case parse_i64 s of
                            Some i \<Rightarrow> Some (Int_Param i)
                          | None \<Rightarrow> map_option Float_Param (parse_f64 s))))))"

definition insert_number_param ::
    "datetime \<Rightarrow> (string \<times> filter_param) list \<Rightarrow> string \<Rightarrow> json \<Rightarrow> (string \<times> filter_param) list" where
  "insert_number_param dt ps name v =
     (case number_param dt v of Some x \<Rightarrow> bind_param name x ps | None \<Rightarrow> ps)"

definition param_name :: "string \<Rightarrow> nat \<Rightarrow> string" where
  "param_name field counter = field @ ''_'' @ nat_str counter"

section \<open>Numeric ranges\<close>

datatype range_op = Op_Lt | Op_Gt | Op_Lte | Op_Gte

record range_bound =
  bound_parameter :: string
  bound_operator :: range_op

fun lower_text :: "range_bound \<Rightarrow> string option" where
  "lower_text b = (case bound_operator b of
       Op_Gt \<Rightarrow> Some (''($'' @ bound_parameter b)
     | Op_Gte \<Rightarrow> Some (''$'' @ bound_parameter b)
     | _ \<Rightarrow> None)"

fun upper_text :: "range_bound \<Rightarrow> string option" where
  "upper_text b = (case bound_operator b of
       Op_Lt \<Rightarrow> Some (''($'' @ bound_parameter b)
     | Op_Lte \<Rightarrow> Some (''$'' @ bound_parameter b)
     | _ \<Rightarrow> None)"

definition or_default :: "'a \<Rightarrow> 'a list \<Rightarrow> 'a list" where
  "or_default x xs = (if xs = [] then [x] else xs)"

definition render_range :: "string \<Rightarrow> range_bound list \<Rightarrow> string option" where
  "render_range field bounds =
     (if bounds = [] then None
      else let lower = or_default ''-inf'' (List.map_filter lower_text bounds);
               upper = or_default ''+inf'' (List.map_filter upper_text bounds)
        in Some (join_with '' '' [''@'' @ field @ '':['' @ lo @ '' '' @ hi @ '']''. lo \<leftarrow> lower, hi \<leftarrow> upper]))"

definition is_bound_parameter :: "string \<Rightarrow> bool" where
  "is_bound_parameter name \<longleftrightarrow> list_ex (\<lambda>s. suffix s name) [''_lt'', ''_gt'', ''_lte'', ''_gte'']"

section \<open>Leaves\<close>

definition point_clause :: "string \<Rightarrow> string \<Rightarrow> string" where
  "point_clause field p = ''@'' @ field @ '':[$'' @ p @ '' $'' @ p @ '']''"

definition tag_clause :: "string \<Rightarrow> string list \<Rightarrow> string" where
  "tag_clause field ps = ''@'' @ field @ '':{'' @ join_with '' | '' (map (\<lambda>p. ''$'' @ p) ps) @ ''}''"

definition text_clause :: "string \<Rightarrow> string \<Rightarrow> string" where
  "text_clause field p = ''@'' @ field @ '':($'' @ p @ '')''"

definition never_clause :: "string \<Rightarrow> string" where
  "never_clause c = ''('' @ c @ '' -'' @ c @ '')''"

definition numbered :: "string \<Rightarrow> nat \<Rightarrow> 'a list \<Rightarrow> (string \<times> 'a) list" where
  "numbered field counter xs = map (\<lambda>(k, x). (param_name field k, x)) (enumerate counter xs)"

definition build_match_any_filter :: "string \<Rightarrow> json list \<Rightarrow> nat \<Rightarrow> parsed_filter \<times> nat" where
  "build_match_any_filter field any counter =
     (if any \<noteq> [] \<and> list_all (\<lambda>v. as_i64 v \<noteq> None) any then
        let ps = numbered field counter (List.map_filter as_i64 any)
        in ((''('' @ join_with '' | '' (map (\<lambda>(p, _). point_clause field p) ps) @ '')'',
             map (\<lambda>(p, i). (p, Int_Param i)) ps), counter + length ps)
      else
        let ps = numbered field counter (filter (\<lambda>s. s \<noteq> []) (List.map_filter as_string any))
        in if ps = [] then
             let p = param_name field counter
             in ((never_clause (tag_clause field [p]), [(p, Str_Param ''__match_any_never_match__'')]), counter + 1)
           else ((tag_clause field (map fst ps), map (\<lambda>(p, s). (p, Str_Param s)) ps), counter + length ps))"

definition build_exact_match_filter :: "string \<Rightarrow> json \<Rightarrow> nat \<Rightarrow> parsed_filter option \<times> nat" where
  "build_exact_match_filter field criteria counter =
     (case jget ''value'' criteria of
        None \<Rightarrow> (None, counter)
      | Some value \<Rightarrow>
          let p = param_name field counter in
          ((case as_bool value of
              Some b \<Rightarrow> Some (tag_clause field [p], [(p, Str_Param (if b then ''true'' else ''false''))])
            | None \<Rightarrow>
                (case as_string value of
                   Some s \<Rightarrow> Some (tag_clause field [p], [(p, Str_Param s)])
                 | None \<Rightarrow>
                     (case as_i64 value of
                        Some i \<Rightarrow> Some (point_clause field p, [(p, Int_Param i)])
                      | None \<Rightarrow>
                          (case as_f64 value of
                             Some f \<Rightarrow> Some (point_clause field p, [(p, Float_Param (Finite f))])
                           | None \<Rightarrow> None)))), counter + 1))"

definition build_text_filter :: "string \<Rightarrow> string \<Rightarrow> nat \<Rightarrow> parsed_filter \<times> nat" where
  "build_text_filter field txt counter =
     (let p = param_name field counter; trimmed = trim txt in
      (if trimmed = [] then (never_clause (text_clause field p), [(p, Str_Param ''__text_never_match__'')])
       else (text_clause field p, [(p, Str_Param trimmed)]), counter + 1))"

definition range_keys :: "(string \<times> range_op) list" where
  "range_keys = [(''lt'', Op_Lt), (''gt'', Op_Gt), (''lte'', Op_Lte), (''gte'', Op_Gte)]"

fun range_bounds ::
    "datetime \<Rightarrow> string \<Rightarrow> json \<Rightarrow> (string \<times> range_op) list \<Rightarrow> (string \<times> filter_param) list \<Rightarrow> range_bound list \<Rightarrow>
     (string \<times> filter_param) list \<times> range_bound list" where
  "range_bounds dt pre criteria [] ps bs = (ps, bs)"
| "range_bounds dt pre criteria ((key, op) # ks) ps bs =
     (case jget key criteria of
        None \<Rightarrow> range_bounds dt pre criteria ks ps bs
      | Some v \<Rightarrow>
          let pname = pre @ ''_'' @ key; ps' = insert_number_param dt ps pname v in
          if pname \<in> fst ` set ps'
          then range_bounds dt pre criteria ks ps' (bs @ [\<lparr>bound_parameter = pname, bound_operator = op\<rparr>])
          else range_bounds dt pre criteria ks ps' bs)"

definition build_range_filter :: "datetime \<Rightarrow> string \<Rightarrow> json \<Rightarrow> nat \<Rightarrow> parsed_filter option \<times> nat" where
  "build_range_filter dt field criteria counter =
     (let (ps, bs) = range_bounds dt (param_name field counter) criteria range_keys [] []
      in (map_option (\<lambda>q. (q, ps)) (render_range field bs), counter + 1))"

definition build_geo_filter :: "datetime \<Rightarrow> string \<Rightarrow> json \<Rightarrow> nat \<Rightarrow> parsed_filter option \<times> nat" where
  "build_geo_filter dt field criteria counter =
     (let pre = param_name field counter;
          lon_name = pre @ ''_lon''; lat_name = pre @ ''_lat''; radius_name = pre @ ''_radius'' in
      (case (jget ''lon'' criteria, jget ''lat'' criteria, jget ''radius'' criteria) of
         (Some lon, Some lat, Some radius) \<Rightarrow>
           Some (''@'' @ field @ '':[$'' @ lon_name @ '' $'' @ lat_name @ '' $'' @ radius_name @ '' m]'',
             insert_number_param dt (insert_number_param dt (insert_number_param dt [] lon_name lon)
               lat_name lat) radius_name radius)
       | _ \<Rightarrow> None, counter + 1))"

definition build_filter ::
    "datetime \<Rightarrow> string \<Rightarrow> string \<Rightarrow> json \<Rightarrow> nat \<Rightarrow> parsed_filter option \<times> nat" where
  "build_filter dt field condition_type criteria counter =
     (if condition_type = ''match'' then
        (case Option.bind (jget ''any'' criteria) as_array of
           Some any \<Rightarrow> map_prod Some id (build_match_any_filter field any counter)
         | None \<Rightarrow>
             (case Option.bind (jget ''text'' criteria) as_string of
                Some t \<Rightarrow> map_prod Some id (build_text_filter field t counter)
              | None \<Rightarrow> build_exact_match_filter field criteria counter))
      else if condition_type = ''range'' then build_range_filter dt field criteria counter
      else if condition_type = ''geo'' then build_geo_filter dt field criteria counter
      else (None, counter))"


section \<open>Groups\<close>

definition build_condition :: "parsed_filter list option \<Rightarrow> parsed_filter list option \<Rightarrow> parsed_filter option" where
  "build_condition and_filters or_filters =
     (let part = (\<lambda>sep fs. case fs of
            None \<Rightarrow> []
          | Some gs \<Rightarrow> if gs = [] then [] else [''('' @ join_with sep (map fst gs) @ '')'']);
          binds = (\<lambda>fs. case fs of None \<Rightarrow> [] | Some gs \<Rightarrow> concat (map snd gs));
          parts = part '' '' and_filters @ part '' | '' or_filters
      in if parts = [] then None
         else Some (join_with '' '' parts,
           fold (\<lambda>(p, v). bind_param p v) (binds and_filters @ binds or_filters) []))"

fun build_ops :: "datetime \<Rightarrow> string \<Rightarrow> (string \<times> json) list \<Rightarrow> nat \<Rightarrow> parsed_filter list \<times> nat" where
  "build_ops dt field [] counter = ([], counter)"
| "build_ops dt field ((condition_type, criteria) # ops) counter =
     (let (f, c1) = build_filter dt field condition_type criteria counter;
          (fs, c2) = build_ops dt field ops c1
      in (case f of Some x \<Rightarrow> x # fs | None \<Rightarrow> fs, c2))"

fun build_fields :: "datetime \<Rightarrow> (string \<times> json) list \<Rightarrow> nat \<Rightarrow> parsed_filter list \<times> nat" where
  "build_fields dt [] counter = ([], counter)"
| "build_fields dt ((field, ops) # es) counter =
     (let (fs, c1) = (case as_object ops of Some os \<Rightarrow> build_ops dt field os counter | None \<Rightarrow> ([], counter));
          (gs, c2) = build_fields dt es c1
      in (fs @ gs, c2))"

definition is_group :: "(string \<times> json) list \<Rightarrow> bool" where
  "is_group es \<longleftrightarrow> map_of es ''and'' \<noteq> None \<or> map_of es ''or'' \<noteq> None"

definition group_entries :: "string \<Rightarrow> (string \<times> json) list \<Rightarrow> json list option" where
  "group_entries key es = Option.bind (map_of es key) as_array"

lemma group_entries_size [termination_simp]:
  "group_entries key es = Some xs \<Longrightarrow> size_list size xs < size_list (size_prod (\<lambda>_. 0) size) es"
  by (induction es) (auto simp: group_entries_def as_array_iff split: if_splits)

function build_group :: "datetime \<Rightarrow> (string \<times> json) list \<Rightarrow> nat \<Rightarrow> parsed_filter option \<times> nat"
  and build_subfilters :: "datetime \<Rightarrow> json list \<Rightarrow> nat \<Rightarrow> parsed_filter list \<times> nat" where
  "build_group dt es counter =
     (let (a, c1) = (case group_entries ''and'' es of
            None \<Rightarrow> (None, counter)
          | Some xs \<Rightarrow> map_prod Some id (build_subfilters dt xs counter));
          (b, c2) = (case group_entries ''or'' es of
            None \<Rightarrow> (None, c1)
          | Some xs \<Rightarrow> map_prod Some id (build_subfilters dt xs c1))
      in (build_condition a b, c2))"
| "build_subfilters dt [] counter = ([], counter)"
| "build_subfilters dt (x # xs) counter =
     (let (fs, c1) = (case as_object x of
            None \<Rightarrow> ([], counter)
          | Some es \<Rightarrow>
              if is_group es
              then let (f, c) = build_group dt es counter in (case f of Some g \<Rightarrow> [g] | None \<Rightarrow> [], c)
              else build_fields dt es counter);
          (gs, c2) = build_subfilters dt xs c1
      in (fs @ gs, c2))"
  by pat_completeness auto
termination
  by (relation "measure (case_sum (\<lambda>(_, es, _). size_list (size_prod (\<lambda>_. 0) size) es) (\<lambda>(_, xs, _). size_list size xs))")
    (auto simp: group_entries_size as_object_iff)

definition parse_conditions :: "datetime \<Rightarrow> json \<Rightarrow> parsed_filter option" where
  "parse_conditions dt conditions = (case as_object conditions of
       None \<Rightarrow> None
     | Some es \<Rightarrow> if es = [] then None else fst (build_group dt es 0))"

declare build_group.simps [simp del] build_subfilters.simps(2) [simp del]

section \<open>The search command\<close>

text \<open>\<open>str::to_uppercase\<close> is Unicode-aware and a parameter.\<close>

definition is_svs :: "(string \<Rightarrow> string) \<Rightarrow> string \<Rightarrow> bool" where
  "is_svs upper algorithm \<longleftrightarrow> contains (upper algorithm) ''SVS''"

definition knn_conditions :: "(string \<Rightarrow> string) \<Rightarrow> string \<Rightarrow> string \<Rightarrow> string" where
  "knn_conditions upper algorithm policy =
     (if policy = ''ADHOC_BF'' then []
      else if is_svs upper algorithm then ''SEARCH_WINDOW_SIZE $EF''
      else if upper algorithm = ''HNSW'' then ''EF_RUNTIME $EF''
      else [])"

definition build_knn_query_str :: "(string \<Rightarrow> string) \<Rightarrow> string \<Rightarrow> string \<Rightarrow> parsed_filter option \<Rightarrow> string" where
  "build_knn_query_str upper algorithm policy flt =
     (case flt of Some (expr, _) \<Rightarrow> expr | None \<Rightarrow> ''*'') @
     ''=>[KNN $K @vector $vec_param '' @ knn_conditions upper algorithm policy @ '' AS vector_score]'' @
     (if policy = [] then [] else ''=>{$HYBRID_POLICY: '' @ policy @ '' }'')"

datatype redis_arg = Text_Arg string | Int_Arg int | Float_Arg f64v

fun param_arg :: "filter_param \<Rightarrow> redis_arg" where
  "param_arg (Str_Param s) = Text_Arg s"
| "param_arg (Int_Param i) = Int_Arg i"
| "param_arg (Float_Param f) = Float_Arg f"

definition binds_ef :: "(string \<Rightarrow> string) \<Rightarrow> string \<Rightarrow> string \<Rightarrow> bool" where
  "binds_ef upper algorithm policy \<longleftrightarrow>
     (upper algorithm = ''HNSW'' \<or> is_svs upper algorithm) \<and> policy \<noteq> ''ADHOC_BF''"

text \<open>\<open>hash_order\<close> is the order in which the hash map of parameters is iterated.\<close>

definition build_ft_search_cmd ::
    "(string \<Rightarrow> string) \<Rightarrow> ((string \<times> filter_param) list \<Rightarrow> (string \<times> filter_param) list) \<Rightarrow>
     string \<Rightarrow> string \<Rightarrow> string \<Rightarrow> nat \<Rightarrow> int \<Rightarrow> string \<Rightarrow> string \<Rightarrow> int \<Rightarrow> parsed_filter option \<Rightarrow> redis_arg list" where
  "build_ft_search_cmd upper hash_order index_name vec_bytes query_str topn ef algorithm policy query_timeout flt =
     (let filter_params = (case flt of Some (_, ps) \<Rightarrow> ps | None \<Rightarrow> []);
          ef_count = (if binds_ef upper algorithm policy then 2 else 0);
          n_params = 4 + ef_count + length filter_params * 2
      in map Text_Arg [''FT.SEARCH'', index_name, query_str, ''SORTBY'', ''vector_score'', ''ASC'', ''LIMIT''] @
         [Int_Arg 0, Int_Arg (int topn), Text_Arg ''RETURN'', Int_Arg 1, Text_Arg ''vector_score'',
          Text_Arg ''DIALECT'', Int_Arg 4, Text_Arg ''TIMEOUT'', Int_Arg query_timeout,
          Text_Arg ''PARAMS'', Int_Arg (int n_params),
          Text_Arg ''vec_param'', Text_Arg vec_bytes, Text_Arg ''K'', Text_Arg (nat_str topn)] @
         (if binds_ef upper algorithm policy then [Text_Arg ''EF'', Text_Arg (int_str ef)] else []) @
         concat (map (\<lambda>(name, v). [Text_Arg name, param_arg v]) (hash_order filter_params)))"

definition uses_range_encoding :: "parsed_filter query_filter list \<Rightarrow> bool" where
  "uses_range_encoding fs \<longleftrightarrow>
     list_ex (\<lambda>(_, ps). list_ex (\<lambda>(name, _). is_bound_parameter name) ps) (List.map_filter filter_as_ref fs)"

section \<open>Query expressions\<close>

text \<open>
  The part of the RediSearch query language that the builder emits, with its concrete syntax and its
  documented meaning.  \<open>Seq\<close> is juxtaposition (intersection), \<open>Alt\<close> the union bar, which binds weaker, \<open>Neg\<close> the
  minus sign.
\<close>

datatype range_end = Unbounded | Inclusive string | Exclusive string

datatype ft_query =
    Tag_In string "string list"
  | Interval string range_end range_end
  | Text_Match string string
  | Geo_Within string string string string
  | Seq "ft_query list"
  | Alt "ft_query list"
  | Neg ft_query
  | Paren ft_query

fun show_end :: "string \<Rightarrow> range_end \<Rightarrow> string" where
  "show_end open_end Unbounded = open_end"
| "show_end open_end (Inclusive p) = ''$'' @ p"
| "show_end open_end (Exclusive p) = ''($'' @ p"

fun show_query :: "ft_query \<Rightarrow> string" where
  "show_query (Tag_In f ps) = tag_clause f ps"
| "show_query (Interval f lo hi) = ''@'' @ f @ '':['' @ show_end ''-inf'' lo @ '' '' @ show_end ''+inf'' hi @ '']''"
| "show_query (Text_Match f p) = text_clause f p"
| "show_query (Geo_Within f a b r) = ''@'' @ f @ '':[$'' @ a @ '' $'' @ b @ '' $'' @ r @ '' m]''"
| "show_query (Seq qs) = join_with '' '' (map show_query qs)"
| "show_query (Alt qs) = join_with '' | '' (map show_query qs)"
| "show_query (Neg q) = ''-'' @ show_query q"
| "show_query (Paren q) = ''('' @ show_query q @ '')''"

text \<open>A union stands directly inside parentheses, so the text can be read in one way only.\<close>

fun is_alt :: "ft_query \<Rightarrow> bool" where
  "is_alt (Alt _) = True"
| "is_alt _ = False"

fun bracketed :: "ft_query \<Rightarrow> bool" where
  "bracketed (Seq qs) \<longleftrightarrow> qs \<noteq> [] \<and> (\<forall>q \<in> set qs. bracketed q \<and> \<not> is_alt q)"
| "bracketed (Alt qs) \<longleftrightarrow> qs \<noteq> [] \<and> (\<forall>q \<in> set qs. bracketed q \<and> \<not> is_alt q)"
| "bracketed (Neg q) \<longleftrightarrow> (case q of Tag_In _ _ \<Rightarrow> True | Text_Match _ _ \<Rightarrow> True | _ \<Rightarrow> False)"
| "bracketed (Paren q) \<longleftrightarrow> bracketed q"
| "bracketed (Tag_In f ps) \<longleftrightarrow> ps \<noteq> []"
| "bracketed _ \<longleftrightarrow> True"

fun end_refs :: "range_end \<Rightarrow> string set" where
  "end_refs Unbounded = {}"
| "end_refs (Inclusive p) = {p}"
| "end_refs (Exclusive p) = {p}"

fun refs :: "ft_query \<Rightarrow> string set" where
  "refs (Tag_In f ps) = set ps"
| "refs (Interval f lo hi) = end_refs lo \<union> end_refs hi"
| "refs (Text_Match f p) = {p}"
| "refs (Geo_Within f a b r) = {a, b, r}"
| "refs (Seq qs) = (\<Union>q \<in> set qs. refs q)"
| "refs (Alt qs) = (\<Union>q \<in> set qs. refs q)"
| "refs (Neg q) = refs q"
| "refs (Paren q) = refs q"

text \<open>What the server knows of a document; a numeric field may hold several values.\<close>

record 'd search_semantics =
  tag_is :: "'d \<Rightarrow> string \<Rightarrow> string \<Rightarrow> bool"
  numbers :: "'d \<Rightarrow> string \<Rightarrow> real set"
  text_matches :: "'d \<Rightarrow> string \<Rightarrow> string \<Rightarrow> bool"
  geo_near :: "'d \<Rightarrow> string \<Rightarrow> filter_param \<Rightarrow> filter_param \<Rightarrow> filter_param \<Rightarrow> bool"

fun num_of :: "filter_param \<Rightarrow> f64v" where
  "num_of (Int_Param i) = Finite (of_int i)"
| "num_of (Float_Param f) = f"
| "num_of (Str_Param _) = Non_Finite NaN"

fun above :: "f64v \<Rightarrow> bool \<Rightarrow> real \<Rightarrow> bool" where
  "above (Finite x) strict v \<longleftrightarrow> (if strict then x < v else x \<le> v)"
| "above (Non_Finite n) strict v \<longleftrightarrow> n = Minus_Infinity"

fun below :: "f64v \<Rightarrow> bool \<Rightarrow> real \<Rightarrow> bool" where
  "below (Finite x) strict v \<longleftrightarrow> (if strict then v < x else v \<le> x)"
| "below (Non_Finite n) strict v \<longleftrightarrow> n = Infinity"

type_synonym bindings = "string \<rightharpoonup> filter_param"

definition param_sat :: "bindings \<Rightarrow> string \<Rightarrow> (filter_param \<Rightarrow> bool) \<Rightarrow> bool" where
  "param_sat M p P \<longleftrightarrow> (case M p of Some v \<Rightarrow> P v | None \<Rightarrow> False)"

fun above_end :: "bindings \<Rightarrow> range_end \<Rightarrow> real \<Rightarrow> bool" where
  "above_end M Unbounded v \<longleftrightarrow> True"
| "above_end M (Inclusive p) v \<longleftrightarrow> param_sat M p (\<lambda>x. above (num_of x) False v)"
| "above_end M (Exclusive p) v \<longleftrightarrow> param_sat M p (\<lambda>x. above (num_of x) True v)"

fun below_end :: "bindings \<Rightarrow> range_end \<Rightarrow> real \<Rightarrow> bool" where
  "below_end M Unbounded v \<longleftrightarrow> True"
| "below_end M (Inclusive p) v \<longleftrightarrow> param_sat M p (\<lambda>x. below (num_of x) False v)"
| "below_end M (Exclusive p) v \<longleftrightarrow> param_sat M p (\<lambda>x. below (num_of x) True v)"

fun eval_query :: "'d search_semantics \<Rightarrow> bindings \<Rightarrow> 'd \<Rightarrow> ft_query \<Rightarrow> bool" where
  "eval_query S M d (Tag_In f ps) \<longleftrightarrow>
     (\<exists>p \<in> set ps. param_sat M p (\<lambda>v. \<exists>s. v = Str_Param s \<and> tag_is S d f s))"
| "eval_query S M d (Interval f lo hi) \<longleftrightarrow> (\<exists>v \<in> numbers S d f. above_end M lo v \<and> below_end M hi v)"
| "eval_query S M d (Text_Match f p) \<longleftrightarrow> param_sat M p (\<lambda>v. \<exists>s. v = Str_Param s \<and> text_matches S d f s)"
| "eval_query S M d (Geo_Within f a b r) \<longleftrightarrow>
     param_sat M a (\<lambda>x. param_sat M b (\<lambda>y. param_sat M r (\<lambda>z. geo_near S d f x y z)))"
| "eval_query S M d (Seq qs) \<longleftrightarrow> (\<forall>q \<in> set qs. eval_query S M d q)"
| "eval_query S M d (Alt qs) \<longleftrightarrow> (\<exists>q \<in> set qs. eval_query S M d q)"
| "eval_query S M d (Neg q) \<longleftrightarrow> \<not> eval_query S M d q"
| "eval_query S M d (Paren q) \<longleftrightarrow> eval_query S M d q"

section \<open>The meaning of a condition\<close>

fun leaf_holds :: "'d search_semantics \<Rightarrow> datetime \<Rightarrow> string \<Rightarrow> string \<Rightarrow> json \<Rightarrow> 'd \<Rightarrow> bool" where
  "leaf_holds S dt field ct criteria d \<longleftrightarrow>
     (if ct = ''match'' then
        (case Option.bind (jget ''any'' criteria) as_array of
           Some any \<Rightarrow>
             (\<exists>v \<in> set any. case v of
                String s \<Rightarrow> s \<noteq> [] \<and> tag_is S d field s
              | _ \<Rightarrow> (\<exists>i. as_i64 v = Some i \<and> of_int i \<in> numbers S d field))
         | None \<Rightarrow>
             (case Option.bind (jget ''text'' criteria) as_string of
                Some t \<Rightarrow> trim t \<noteq> [] \<and> text_matches S d field (trim t)
              | None \<Rightarrow>
                  (case jget ''value'' criteria of
                     Some (Bool b) \<Rightarrow> tag_is S d field (if b then ''true'' else ''false'')
                   | Some (String s) \<Rightarrow> tag_is S d field s
                   | Some v \<Rightarrow> (\<exists>x. number_param dt v = Some x \<and>
                        (\<exists>y \<in> numbers S d field. num_of x = Finite y))
                   | None \<Rightarrow> False)))
      else if ct = ''range'' then
        (\<exists>y \<in> numbers S d field. \<forall>(key, op) \<in> set range_keys. \<forall>v. jget key criteria = Some v \<longrightarrow>
           (\<exists>x. number_param dt v = Some x \<and> (case op of
                Op_Lt \<Rightarrow> below (num_of x) True y
              | Op_Lte \<Rightarrow> below (num_of x) False y
              | Op_Gt \<Rightarrow> above (num_of x) True y
              | Op_Gte \<Rightarrow> above (num_of x) False y)))
      else ct = ''geo'' \<and>
        (\<exists>x y z. Option.bind (jget ''lon'' criteria) (number_param dt) = Some x \<and>
           Option.bind (jget ''lat'' criteria) (number_param dt) = Some y \<and>
           Option.bind (jget ''radius'' criteria) (number_param dt) = Some z \<and> geo_near S d field x y z))"

function condition_holds :: "'d search_semantics \<Rightarrow> datetime \<Rightarrow> json \<Rightarrow> 'd \<Rightarrow> bool" where
  "condition_holds S dt c d \<longleftrightarrow>
     (case c of
        Object es \<Rightarrow>
          if is_group es
          then (case group_entries ''and'' es of None \<Rightarrow> True | Some xs \<Rightarrow> \<forall>x \<in> set xs. condition_holds S dt x d) \<and>
               (case group_entries ''or'' es of None \<Rightarrow> True | Some xs \<Rightarrow> \<exists>x \<in> set xs. condition_holds S dt x d)
          else (\<forall>(field, ops) \<in> set es. case ops of
                  Object os \<Rightarrow> (\<forall>(ct, criteria) \<in> set os. leaf_holds S dt field ct criteria d)
                | _ \<Rightarrow> False)
      | _ \<Rightarrow> False)"
  by pat_completeness auto
termination
proof (relation "measure (\<lambda>(_, _, c, _). size c)", goal_cases)
  case 1
  then show ?case by simp
next
  case (2 S dt c d es xs x)
  then show ?case
    using group_entries_size [of "''and''" es xs] size_list_estimation' [of x xs "size x" size] by auto
next
  case (3 S dt c d es xs x)
  then show ?case
    using group_entries_size [of "''or''" es xs] size_list_estimation' [of x xs "size x" size] by auto
qed

declare condition_holds.simps [simp del] leaf_holds.simps [simp del]

section \<open>Conditions the builder can express\<close>

definition is_scalar :: "json \<Rightarrow> bool" where
  "is_scalar v = (case v of Bool _ \<Rightarrow> True | String _ \<Rightarrow> True | Number _ \<Rightarrow> True | _ \<Rightarrow> False)"

definition leaf_supported :: "datetime \<Rightarrow> string \<Rightarrow> json \<Rightarrow> bool" where
  "leaf_supported dt ct criteria =
     (if ct = ''match'' then
        (case Option.bind (jget ''any'' criteria) as_array of
           Some any \<Rightarrow> list_all (\<lambda>v. as_i64 v \<noteq> None) any \<or> list_all (\<lambda>v. as_string v \<noteq> None) any
         | None \<Rightarrow>
             (case Option.bind (jget ''text'' criteria) as_string of
                Some _ \<Rightarrow> True
              | None \<Rightarrow> (case jget ''value'' criteria of Some v \<Rightarrow> is_scalar v | None \<Rightarrow> False)))
      else if ct = ''range'' then
        list_ex (\<lambda>(key, _). jget key criteria \<noteq> None) range_keys \<and>
        list_all (\<lambda>(key, _). case jget key criteria of Some v \<Rightarrow> number_param dt v \<noteq> None | None \<Rightarrow> True) range_keys
      else ct = ''geo'' \<and>
        list_all (\<lambda>key. Option.bind (jget key criteria) (number_param dt) \<noteq> None) [''lon'', ''lat'', ''radius''])"

fun single_leaf :: "(string \<times> json) list \<Rightarrow> (string \<times> string \<times> json) option" where
  "single_leaf [(field, Object [(ct, criteria)])] = Some (field, ct, criteria)"
| "single_leaf _ = None"

lemma single_leaf_iff: "single_leaf es = Some (field, ct, criteria) \<longleftrightarrow> es = [(field, Object [(ct, criteria)])]"
  by (cases es rule: single_leaf.cases) auto

function condition_supported :: "datetime \<Rightarrow> json \<Rightarrow> bool" where
  "condition_supported dt c =
     (case c of
        Object es \<Rightarrow>
          if is_group es
          then list_all (\<lambda>key. map_of es key = None \<or>
                 (case group_entries key es of
                    None \<Rightarrow> False
                  | Some xs \<Rightarrow> xs \<noteq> [] \<and> list_all (condition_supported dt) xs)) [''and'', ''or'']
          else (case single_leaf es of Some (field, ct, criteria) \<Rightarrow> leaf_supported dt ct criteria | None \<Rightarrow> False)
      | _ \<Rightarrow> False)"
  by pat_completeness auto
termination
proof (relation "measure (\<lambda>(_, c). size c)", goal_cases)
  case (2 dt c es key xs x)
  then show ?case
    using group_entries_size [of key es xs] size_list_estimation' [of x xs "size x" size] by auto
qed simp

declare condition_supported.simps [simp del]

section \<open>Names of parameters\<close>

definition name_tails :: "string list" where
  "name_tails = [''lt'', ''gt'', ''lte'', ''gte'', ''lon'', ''lat'', ''radius'']"

definition named_at :: "nat \<Rightarrow> string \<Rightarrow> bool" where
  "named_at k p \<longleftrightarrow> (\<exists>f. p = param_name f k \<or> (\<exists>t \<in> set name_tails. p = param_name f k @ CHR ''_'' # t))"

lemma underscore_not_digit: "\<not> is_digit CHR ''_''"
  by (simp add: is_digit_def byte_def)

lemma param_name_split: "param_name f k = (f @ ''_'') @ nat_str k" "CHR ''_'' \<notin> set (nat_str k)"
  by (simp_all add: param_name_def not_digit_notin_nat_str underscore_not_digit)

lemma param_name_inject: "param_name f k = param_name g m \<Longrightarrow> k = m"
  using split_at_last [of f "CHR ''_''" "nat_str k" g "nat_str m"] param_name_split(2)
  by (auto simp: param_name_def)

lemma letters_not_digits: "t \<noteq> [] \<Longrightarrow> \<not> is_digit (hd t) \<Longrightarrow> nat_str k \<noteq> t"
  using nat_str_digits [of k] by (cases t) auto

lemma named_at_tail:
  assumes "named_at k p"
  obtains f where "p = param_name f k"
  | f t where "p = param_name f k @ CHR ''_'' # t" "t \<in> set name_tails"
  using assms unfolding named_at_def by blast

lemma tail_facts:
  assumes "t \<in> set name_tails"
  shows "CHR ''_'' \<notin> set t" and "nat_str k \<noteq> t"
proof -
  have "list_all (\<lambda>t. CHR ''_'' \<notin> set t \<and> t \<noteq> [] \<and> \<not> is_digit (hd t)) name_tails"
    by (simp add: name_tails_def is_digit_def byte_def)
  with assms have *: "CHR ''_'' \<notin> set t \<and> t \<noteq> [] \<and> \<not> is_digit (hd t)" by (simp add: list_all_iff)
  then show "CHR ''_'' \<notin> set t" by simp
  from * show "nat_str k \<noteq> t" by (intro letters_not_digits) auto
qed

lemma named_at_unique:
  assumes "named_at k p" and "named_at m p"
  shows "k = m"
  using assms(1)
proof (cases rule: named_at_tail)
  case (1 f)
  from assms(2) show ?thesis
  proof (cases rule: named_at_tail)
    case (1 g)
    with \<open>p = param_name f k\<close> show ?thesis using param_name_inject by metis
  next
    case (2 g t)
    have "f @ CHR ''_'' # nat_str k = param_name g m @ CHR ''_'' # t"
      using 2(1) \<open>p = param_name f k\<close> by (simp add: param_name_def)
    from split_at_last(2) [OF this param_name_split(2) tail_facts(1) [OF 2(2)]] tail_facts(2) [OF 2(2)]
    show ?thesis by blast
  qed
next
  case (2 f t)
  from assms(2) show ?thesis
  proof (cases rule: named_at_tail)
    case (1 g)
    have "g @ CHR ''_'' # nat_str m = param_name f k @ CHR ''_'' # t"
      using 1 2(1) by (simp add: param_name_def)
    from split_at_last(2) [OF this param_name_split(2) tail_facts(1) [OF 2(2)]] tail_facts(2) [OF 2(2)]
    show ?thesis by blast
  next
    case (2 g u)
    from 2(1) \<open>p = param_name f k @ CHR ''_'' # t\<close> have "param_name f k @ CHR ''_'' # t = param_name g m @ CHR ''_'' # u"
      by simp
    from split_at_last(1) [OF this tail_facts(1) [OF \<open>t \<in> _\<close>] tail_facts(1) [OF 2(2)]]
    show ?thesis by (rule param_name_inject)
  qed
qed

section \<open>Expressions depend on the parameters they mention\<close>

lemma end_cong:
  assumes "\<forall>p \<in> end_refs e. M p = M' p"
  shows "above_end M e v = above_end M' e v" and "below_end M e v = below_end M' e v"
  using assms by (cases e; simp add: param_sat_def)+

lemma eval_query_cong:
  "\<forall>p \<in> refs q. M p = M' p \<Longrightarrow> eval_query S M d q = eval_query S M' d q"
proof (induction q)
  case (Interval f lo hi)
  then show ?case using end_cong [of lo M M'] end_cong [of hi M M'] by auto
qed (auto simp: param_sat_def)

lemma above_end_mono: "above_end M e x \<Longrightarrow> x \<le> y \<Longrightarrow> above_end M e y"
proof (cases e)
  case (Inclusive p)
  then show "above_end M e x \<Longrightarrow> x \<le> y \<Longrightarrow> above_end M e y"
    by (auto simp: param_sat_def split: option.splits) (metis above.elims(3) above.simps order.trans)
next
  case (Exclusive p)
  then show "above_end M e x \<Longrightarrow> x \<le> y \<Longrightarrow> above_end M e y"
    by (auto simp: param_sat_def split: option.splits) (metis above.elims(3) above.simps order.strict_trans2)
qed simp

lemma below_end_mono: "below_end M e y \<Longrightarrow> x \<le> y \<Longrightarrow> below_end M e x"
proof (cases e)
  case (Inclusive p)
  then show "below_end M e y \<Longrightarrow> x \<le> y \<Longrightarrow> below_end M e x"
    by (auto simp: param_sat_def split: option.splits) (metis below.elims(3) below.simps order.trans)
next
  case (Exclusive p)
  then show "below_end M e y \<Longrightarrow> x \<le> y \<Longrightarrow> below_end M e x"
    by (auto simp: param_sat_def split: option.splits) (metis below.elims(3) below.simps order.strict_trans1)
qed simp

text \<open>Of finitely many comparable conditions one implies the others.\<close>

lemma strongest_condition:
  assumes "finite A" and "A \<noteq> {}"
    and "\<And>a b. a \<in> A \<Longrightarrow> b \<in> A \<Longrightarrow> (\<forall>v. P a v \<longrightarrow> P b v) \<or> (\<forall>v. P b v \<longrightarrow> P a v)"
  shows "\<exists>a \<in> A. \<forall>v. P a v \<longrightarrow> (\<forall>b \<in> A. P b v)"
  using assms
proof (induction rule: finite_ne_induct)
  case (insert x F)
  then obtain a where a: "a \<in> F" "\<forall>v. P a v \<longrightarrow> (\<forall>b \<in> F. P b v)" by (metis insertCI)
  from insert.prems [of a x] a(1) have "(\<forall>v. P a v \<longrightarrow> P x v) \<or> (\<forall>v. P x v \<longrightarrow> P a v)" by blast
  with a show ?case by (metis insertE insertI1 insertI2)
qed auto

lemma end_chain:
  "(\<forall>v. above_end M a v \<longrightarrow> above_end M b v) \<or> (\<forall>v. above_end M b v \<longrightarrow> above_end M a v)"
  "(\<forall>v. below_end M a v \<longrightarrow> below_end M b v) \<or> (\<forall>v. below_end M b v \<longrightarrow> below_end M a v)"
  by (metis above_end_mono linorder_linear) (metis below_end_mono linorder_linear)

text \<open>
  The claim the range encoding rests on: requiring every pairing of a lower with an upper end of one value
  each is requiring one value that satisfies all of them.
\<close>

lemma interval_pairing:
  assumes "lowers \<noteq> []" and "uppers \<noteq> []"
  shows "(\<forall>lo \<in> set lowers. \<forall>hi \<in> set uppers. \<exists>v \<in> V. above_end M lo v \<and> below_end M hi v) \<longleftrightarrow>
    (\<exists>v \<in> V. (\<forall>lo \<in> set lowers. above_end M lo v) \<and> (\<forall>hi \<in> set uppers. below_end M hi v))"
proof
  assume *: "\<forall>lo \<in> set lowers. \<forall>hi \<in> set uppers. \<exists>v \<in> V. above_end M lo v \<and> below_end M hi v"
  obtain lo where lo: "lo \<in> set lowers" "\<forall>v. above_end M lo v \<longrightarrow> (\<forall>b \<in> set lowers. above_end M b v)"
    using strongest_condition [of "set lowers" "above_end M"] end_chain(1) [of M] assms(1) by auto
  obtain hi where hi: "hi \<in> set uppers" "\<forall>v. below_end M hi v \<longrightarrow> (\<forall>b \<in> set uppers. below_end M b v)"
    using strongest_condition [of "set uppers" "below_end M"] end_chain(2) [of M] assms(2) by auto
  from * lo(1) hi(1) obtain v where "v \<in> V" "above_end M lo v" "below_end M hi v" by blast
  with lo(2) hi(2) show "\<exists>v \<in> V. (\<forall>lo \<in> set lowers. above_end M lo v) \<and> (\<forall>hi \<in> set uppers. below_end M hi v)"
    by blast
qed blast

section \<open>Leaves mean their criteria\<close>

text \<open>
  A filter means a predicate on documents: its text is an expression whose parameters are exactly the
  bound ones, each numbered within the counters the builder used, and which selects those documents.
\<close>

definition filter_means ::
    "'d search_semantics \<Rightarrow> nat \<Rightarrow> nat \<Rightarrow> ('d \<Rightarrow> bool) \<Rightarrow> parsed_filter \<Rightarrow> bool" where
  "filter_means S n m P f \<longleftrightarrow> n \<le> m \<and>
     (\<exists>e. fst f = show_query e \<and> bracketed e \<and> \<not> is_alt e \<and> refs e = fst ` set (snd f) \<and> distinct (map fst (snd f)) \<and>
        (\<forall>p \<in> refs e. \<exists>k. n \<le> k \<and> k < m \<and> named_at k p) \<and>
        (\<forall>d. eval_query S (map_of (snd f)) d e \<longleftrightarrow> P d))"

lemma named_at_param_name: "named_at k (param_name f k)"
  by (auto simp: named_at_def)

lemma point_clause_show: "point_clause f p = show_query (Interval f (Inclusive p) (Inclusive p))"
  by (simp add: point_clause_def)

lemma numbered_facts:
  "distinct (map fst (numbered f c xs))" "snd ` set (numbered f c xs) = set xs"
  "length (numbered f c xs) = length xs"
  "\<forall>p \<in> fst ` set (numbered f c xs). \<exists>k. c \<le> k \<and> k < c + length xs \<and> named_at k p"
proof -
  have *: "map fst (numbered f c xs) = map (param_name f) [c..<c + length xs]"
    by (rule nth_equalityI) (auto simp: numbered_def nth_enumerate_eq)
  show "distinct (map fst (numbered f c xs))"
    unfolding * by (auto simp: distinct_map inj_on_def dest: param_name_inject)
  have "fst ` set (numbered f c xs) = set (map (param_name f) [c..<c + length xs])"
    by (simp add: * [symmetric])
  then show "\<forall>p \<in> fst ` set (numbered f c xs). \<exists>k. c \<le> k \<and> k < c + length xs \<and> named_at k p"
    using named_at_param_name by auto
  have "map snd (numbered f c xs) = xs"
    by (rule nth_equalityI) (auto simp: numbered_def nth_enumerate_eq)
  then show "snd ` set (numbered f c xs) = set xs" by (metis set_map)
  show "length (numbered f c xs) = length xs" by (simp add: numbered_def)
qed

lemma bound_sat:
  assumes "distinct (map fst ps)"
  shows "(\<exists>p \<in> fst ` set ps. param_sat (map_of (map (\<lambda>(p, x). (p, g x)) ps)) p Q) \<longleftrightarrow> (\<exists>x \<in> snd ` set ps. Q (g x))"
proof -
  have "map_of (map (\<lambda>(p, x). (p, g x)) ps) p = Some (g x)" if "(p, x) \<in> set ps" for p x
    using that assms by (intro map_of_is_SomeI) (force simp: comp_def case_prod_beta)+
  then show ?thesis by (force simp: param_sat_def)
qed

lemma filter_meansI:
  assumes "q = show_query e" and "bracketed e" and "\<not> is_alt e" and "refs e = fst ` set ps" and "distinct (map fst ps)"
    and "\<And>p. p \<in> fst ` set ps \<Longrightarrow> \<exists>k. n \<le> k \<and> k < m \<and> named_at k p"
    and "\<And>d. eval_query S (map_of ps) d e \<longleftrightarrow> P d" and "n \<le> m"
  shows "filter_means S n m P (q, ps)"
  unfolding filter_means_def using assms by auto

lemma point_num: "above x False v \<and> below x False v \<longleftrightarrow> x = Finite v"
  by (cases x) auto

lemma point_eval:
  "eval_query S M d (Interval f (Inclusive p) (Inclusive p)) \<longleftrightarrow>
     param_sat M p (\<lambda>x. \<exists>v \<in> numbers S d f. num_of x = Finite v)"
  by (auto simp: param_sat_def point_num [symmetric] split: option.splits)

lemma never_means:
  "filter_means S c (Suc c) (\<lambda>_. False) (never_clause (tag_clause f [param_name f c]), [(param_name f c, v)])"
  "filter_means S c (Suc c) (\<lambda>_. False) (never_clause (text_clause f (param_name f c)), [(param_name f c, v)])"
  by (rule filter_meansI [where e = "Paren (Seq [Tag_In f [param_name f c], Neg (Tag_In f [param_name f c])])"],
      auto simp: never_clause_def intro: named_at_param_name)
    (rule filter_meansI [where e = "Paren (Seq [Text_Match f (param_name f c), Neg (Text_Match f (param_name f c))])"],
      auto simp: never_clause_def intro: named_at_param_name)

lemma single_means:
  assumes "q = show_query e" and "bracketed e" and "\<not> is_alt e" and "refs e = {param_name f c}"
    and "\<And>d. eval_query S [param_name f c \<mapsto> v] d e \<longleftrightarrow> P d"
  shows "filter_means S c (c + 1) P (q, [(param_name f c, v)])"
  by (rule filter_meansI [where e = e]) (use assms in \<open>auto intro: named_at_param_name\<close>)

lemma ints_means:
  assumes "is \<noteq> []" and "ps = numbered field c is"
  shows "filter_means S c (c + length is) (\<lambda>d. \<exists>i \<in> set is. of_int i \<in> numbers S d field)
    (''('' @ join_with '' | '' (map (\<lambda>(p, _). point_clause field p) ps) @ '')'', map (\<lambda>(p, i). (p, Int_Param i)) ps)"
proof (rule filter_meansI [where e = "Paren (Alt (map (\<lambda>(p, _). Interval field (Inclusive p) (Inclusive p)) ps))"])
  note n = numbered_facts [of field c "is", folded assms(2)]
  have fst: "fst ` set (map (\<lambda>(p, i). (p, Int_Param i)) ps) = fst ` set ps" by force
  from n(3) assms(1) have "ps \<noteq> []" by auto
  then show "bracketed (Paren (Alt (map (\<lambda>(p, _). Interval field (Inclusive p) (Inclusive p)) ps)))" by auto
  show "distinct (map fst (map (\<lambda>(p, i). (p, Int_Param i)) ps))"
    using n(1) by (simp add: comp_def case_prod_beta)
  show "\<exists>k \<ge> c. k < c + length is \<and> named_at k p" if "p \<in> fst ` set (map (\<lambda>(p, i). (p, Int_Param i)) ps)" for p
    using that n(4) unfolding fst by blast
  fix d
  have "eval_query S (map_of (map (\<lambda>(p, i). (p, Int_Param i)) ps)) d
      (Paren (Alt (map (\<lambda>(p, _). Interval field (Inclusive p) (Inclusive p)) ps))) \<longleftrightarrow>
    (\<exists>p \<in> fst ` set ps. param_sat (map_of (map (\<lambda>(p, i). (p, Int_Param i)) ps)) p
       (\<lambda>x. \<exists>v \<in> numbers S d field. num_of x = Finite v))"
    by (auto simp: point_eval case_prod_beta simp del: eval_query.simps(2))
  also have "\<dots> \<longleftrightarrow> (\<exists>i \<in> set is. of_int i \<in> numbers S d field)"
    unfolding bound_sat [OF n(1), where g = Int_Param] n(2) by auto
  finally show "eval_query S (map_of (map (\<lambda>(p, i). (p, Int_Param i)) ps)) d
      (Paren (Alt (map (\<lambda>(p, _). Interval field (Inclusive p) (Inclusive p)) ps))) \<longleftrightarrow>
    (\<exists>i \<in> set is. of_int i \<in> numbers S d field)" .
qed (auto simp: point_clause_show comp_def case_prod_unfold image_image)

lemma tags_means:
  assumes "ss \<noteq> []" and "ps = numbered field c ss"
  shows "filter_means S c (c + length ss) (\<lambda>d. \<exists>s \<in> set ss. tag_is S d field s)
    (tag_clause field (map fst ps), map (\<lambda>(p, s). (p, Str_Param s)) ps)"
proof (rule filter_meansI [where e = "Tag_In field (map fst ps)"])
  note n = numbered_facts [of field c ss, folded assms(2)]
  have fst: "fst ` set (map (\<lambda>(p, s). (p, Str_Param s)) ps) = fst ` set ps" by force
  from n(3) assms(1) show "bracketed (Tag_In field (map fst ps))" by auto
  show "distinct (map fst (map (\<lambda>(p, s). (p, Str_Param s)) ps))"
    using n(1) by (simp add: comp_def case_prod_beta)
  show "\<exists>k \<ge> c. k < c + length ss \<and> named_at k p" if "p \<in> fst ` set (map (\<lambda>(p, s). (p, Str_Param s)) ps)" for p
    using that n(4) unfolding fst by blast
  fix d
  show "eval_query S (map_of (map (\<lambda>(p, s). (p, Str_Param s)) ps)) d (Tag_In field (map fst ps)) \<longleftrightarrow>
    (\<exists>s \<in> set ss. tag_is S d field s)"
    using bound_sat [OF n(1), where g = Str_Param and Q = "\<lambda>v. \<exists>s. v = Str_Param s \<and> tag_is S d field s"] n(2)
    by simp
qed (auto simp: image_image case_prod_unfold)

lemma set_map_filter_ex: "(\<exists>y \<in> set (List.map_filter f xs). P y) \<longleftrightarrow> (\<exists>x \<in> set xs. \<exists>y. f x = Some y \<and> P y)"
  by (induction xs) (auto simp: List.map_filter_simps split: option.splits)

lemma as_string_not_i64: "as_string v \<noteq> None \<Longrightarrow> as_i64 v = None"
  by (cases v) auto

lemma match_any_means:
  assumes "list_all (\<lambda>v. as_i64 v \<noteq> None) any \<or> list_all (\<lambda>v. as_string v \<noteq> None) any"
  shows "filter_means S c (snd (build_match_any_filter field any c)) (\<lambda>d. \<exists>v \<in> set any. case v of
      String s \<Rightarrow> s \<noteq> [] \<and> tag_is S d field s
    | _ \<Rightarrow> (\<exists>i. as_i64 v = Some i \<and> of_int i \<in> numbers S d field)) (fst (build_match_any_filter field any c))"
proof (cases "any \<noteq> [] \<and> list_all (\<lambda>v. as_i64 v \<noteq> None) any")
  case True
  let ?is = "List.map_filter as_i64 any"
  from True have "?is \<noteq> []" by (cases any) (auto simp: List.map_filter_simps)
  moreover have "(\<lambda>d. \<exists>v \<in> set any. case v of
      String s \<Rightarrow> s \<noteq> [] \<and> tag_is S d field s
    | _ \<Rightarrow> (\<exists>i. as_i64 v = Some i \<and> of_int i \<in> numbers S d field)) = (\<lambda>d. \<exists>i \<in> set ?is. of_int i \<in> numbers S d field)"
  proof
    fix d
    show "(\<exists>v \<in> set any. case v of
        String s \<Rightarrow> s \<noteq> [] \<and> tag_is S d field s
      | _ \<Rightarrow> (\<exists>i. as_i64 v = Some i \<and> of_int i \<in> numbers S d field)) = (\<exists>i \<in> set ?is. of_int i \<in> numbers S d field)"
      unfolding set_map_filter_ex
      by (intro bex_cong refl) (use True in \<open>auto simp: list_all_iff split: json.splits\<close>)
  qed
  ultimately show ?thesis
    using ints_means [of ?is "numbered field c ?is" field c S] True
    by (simp add: build_match_any_filter_def Let_def numbered_facts(3))
next
  case False
  let ?ss = "filter (\<lambda>s. s \<noteq> []) (List.map_filter as_string any)"
  from False assms have all: "list_all (\<lambda>v. as_string v \<noteq> None) any" by auto
  have P: "(\<lambda>d. \<exists>v \<in> set any. case v of
      String s \<Rightarrow> s \<noteq> [] \<and> tag_is S d field s
    | _ \<Rightarrow> (\<exists>i. as_i64 v = Some i \<and> of_int i \<in> numbers S d field)) = (\<lambda>d. \<exists>s \<in> set ?ss. tag_is S d field s)"
  proof
    fix d
    have "(\<exists>s \<in> set ?ss. tag_is S d field s) \<longleftrightarrow> (\<exists>v \<in> set any. \<exists>s. as_string v = Some s \<and> s \<noteq> [] \<and> tag_is S d field s)"
      using set_map_filter_ex [of as_string any "\<lambda>s. s \<noteq> [] \<and> tag_is S d field s"] by auto
    also have "\<dots> \<longleftrightarrow> (\<exists>v \<in> set any. case v of
        String s \<Rightarrow> s \<noteq> [] \<and> tag_is S d field s
      | _ \<Rightarrow> (\<exists>i. as_i64 v = Some i \<and> of_int i \<in> numbers S d field))"
      using all by (intro bex_cong refl) (auto simp: list_all_iff as_string_iff)
    finally show "(\<exists>v \<in> set any. case v of
        String s \<Rightarrow> s \<noteq> [] \<and> tag_is S d field s
      | _ \<Rightarrow> (\<exists>i. as_i64 v = Some i \<and> of_int i \<in> numbers S d field)) = (\<exists>s \<in> set ?ss. tag_is S d field s)" by simp
  qed
  have empty: "numbered field c ?ss = [] \<longleftrightarrow> ?ss = []"
    using numbered_facts(3) [of field c ?ss] by (metis length_0_conv)
  show ?thesis
  proof (cases "?ss = []")
    case True
    have "build_match_any_filter field any c =
        ((never_clause (tag_clause field [param_name field c]),
          [(param_name field c, Str_Param ''__match_any_never_match__'')]), c + 1)"
      using True empty unfolding build_match_any_filter_def Let_def if_not_P [OF False] by simp
    then show ?thesis
      unfolding P using True by (simp add: never_means)
  next
    case nonempty: False
    have "build_match_any_filter field any c =
        ((tag_clause field (map fst (numbered field c ?ss)),
          map (\<lambda>(p, s). (p, Str_Param s)) (numbered field c ?ss)), c + length ?ss)"
      using nonempty empty numbered_facts(3) [of field c ?ss]
      unfolding build_match_any_filter_def Let_def if_not_P [OF False] by simp
    then show ?thesis unfolding P using tags_means [OF nonempty refl] by simp
  qed
qed

lemma text_means:
  "filter_means S c (snd (build_text_filter field t c)) (\<lambda>d. trim t \<noteq> [] \<and> text_matches S d field (trim t))
     (fst (build_text_filter field t c))"
proof (cases "trim t = []")
  case True
  then show ?thesis
    by (simp add: never_means build_text_filter_def Let_def)
next
  case False
  then show ?thesis
    by (auto simp: build_text_filter_def Let_def param_sat_def
        intro!: single_means [where e = "Text_Match field (param_name field c)", simplified])
qed

lemma number_param_number: "number_param dt (Number x) \<noteq> None"
  by (cases x) (auto simp: number_param_def)

lemma exact_means:
  assumes "jget ''value'' criteria = Some v" and "is_scalar v"
  shows "\<exists>f. build_exact_match_filter field criteria c = (Some f, c + 1) \<and>
    filter_means S c (c + 1) (\<lambda>d. case v of
        Bool b \<Rightarrow> tag_is S d field (if b then ''true'' else ''false'')
      | String s \<Rightarrow> tag_is S d field s
      | _ \<Rightarrow> (\<exists>x. number_param dt v = Some x \<and> (\<exists>y \<in> numbers S d field. num_of x = Finite y))) f"
proof -
  let ?p = "param_name field c"
  consider b where "v = Bool b" | s where "v = String s" | n i where "v = Number n" "as_i64 v = Some i"
    | n f where "v = Number n" "as_i64 v = None" "as_f64 v = Some f"
  proof (cases v)
    case (Number n)
    then obtain f where "as_f64 v = Some f" by (cases n) auto
    with Number that(3,4) [of n] show ?thesis by (cases "as_i64 v") auto
  qed (use assms(2) that in \<open>auto simp: is_scalar_def\<close>)
  then show ?thesis
  proof cases
    case (1 b)
    with assms show ?thesis
      by (auto simp: build_exact_match_filter_def Let_def param_sat_def
          intro!: single_means [where e = "Tag_In field [?p]", simplified])
  next
    case (2 s)
    with assms show ?thesis
      by (auto simp: build_exact_match_filter_def Let_def param_sat_def
          intro!: single_means [where e = "Tag_In field [?p]", simplified])
  next
    case (3 n i)
    then have "number_param dt v = Some (Int_Param i)" by (simp add: number_param_def)
    moreover have "filter_means S c (c + 1) (\<lambda>d. \<exists>y \<in> numbers S d field. num_of (Int_Param i) = Finite y)
        (point_clause field ?p, [(?p, Int_Param i)])"
      by (rule single_means [where e = "Interval field (Inclusive ?p) (Inclusive ?p)"])
        (simp_all add: point_clause_show point_eval param_sat_def del: eval_query.simps show_query.simps)
    ultimately show ?thesis using 3 assms by (auto simp: build_exact_match_filter_def Let_def)
  next
    case (4 n f)
    then have "number_param dt v = Some (Float_Param (Finite f))" by (simp add: number_param_def)
    moreover have "filter_means S c (c + 1) (\<lambda>d. \<exists>y \<in> numbers S d field. num_of (Float_Param (Finite f)) = Finite y)
        (point_clause field ?p, [(?p, Float_Param (Finite f))])"
      by (rule single_means [where e = "Interval field (Inclusive ?p) (Inclusive ?p)"])
        (simp_all add: point_clause_show point_eval param_sat_def del: eval_query.simps show_query.simps)
    ultimately show ?thesis using 4 assms by (auto simp: build_exact_match_filter_def Let_def)
  qed
qed

subsection \<open>Ranges\<close>

definition found_bounds :: "datetime \<Rightarrow> json \<Rightarrow> (string \<times> range_op) list \<Rightarrow> (string \<times> range_op \<times> filter_param) list" where
  "found_bounds dt criteria ks =
     List.map_filter (\<lambda>(key, op). map_option (\<lambda>x. (key, op, x)) (Option.bind (jget key criteria) (number_param dt))) ks"

lemma found_bounds_Cons:
  "found_bounds dt criteria ((key, op) # ks) =
     (case Option.bind (jget key criteria) (number_param dt) of
        None \<Rightarrow> found_bounds dt criteria ks
      | Some x \<Rightarrow> (key, op, x) # found_bounds dt criteria ks)"
  by (auto simp: found_bounds_def List.map_filter_simps split: option.splits)

lemma set_found_bounds:
  "(key, op, x) \<in> set (found_bounds dt criteria ks) \<longleftrightarrow>
     (key, op) \<in> set ks \<and> Option.bind (jget key criteria) (number_param dt) = Some x"
proof (induction ks)
  case (Cons k ks)
  then show ?case by (cases k) (auto simp: found_bounds_Cons split: option.splits)
qed (simp add: found_bounds_def List.map_filter_simps)

lemma range_bounds_eq:
  assumes "distinct (map fst ks)" and "\<forall>key \<in> fst ` set ks. pre @ ''_'' @ key \<notin> fst ` set ps"
  shows "range_bounds dt pre criteria ks ps bs =
    (ps @ map (\<lambda>(key, op, x). (pre @ ''_'' @ key, x)) (found_bounds dt criteria ks),
     bs @ map (\<lambda>(key, op, x). \<lparr>bound_parameter = pre @ ''_'' @ key, bound_operator = op\<rparr>) (found_bounds dt criteria ks))"
  using assms
proof (induction ks arbitrary: ps bs)
  case Nil
  then show ?case by (simp add: found_bounds_def List.map_filter_simps)
next
  case (Cons k ks)
  obtain key op where k: "k = (key, op)" by fastforce
  have fresh: "pre @ ''_'' @ key \<notin> fst ` set ps" using Cons.prems(2) k by auto
  show ?case
  proof (cases "Option.bind (jget key criteria) (number_param dt)")
    case None
    then show ?thesis
      using Cons k fresh by (auto simp: found_bounds_Cons insert_number_param_def split: option.splits)
  next
    case (Some x)
    then obtain v where v: "jget key criteria = Some v" "number_param dt v = Some x" by (cases "jget key criteria") auto
    have "bind_param (pre @ ''_'' @ key) x ps = ps @ [(pre @ ''_'' @ key, x)]"
      using fresh by (force simp: bind_param_def intro!: filter_True)
    moreover have "\<forall>key' \<in> fst ` set ks. pre @ ''_'' @ key' \<notin> fst ` set (ps @ [(pre @ ''_'' @ key, x)])"
      using Cons.prems k by auto
    ultimately show ?thesis
      using Cons.IH Cons.prems(1) Some v k by (auto simp: found_bounds_Cons insert_number_param_def Let_def)
  qed
qed

fun lower_end :: "range_bound \<Rightarrow> range_end option" where
  "lower_end b = (case bound_operator b of
       Op_Gt \<Rightarrow> Some (Exclusive (bound_parameter b)) | Op_Gte \<Rightarrow> Some (Inclusive (bound_parameter b)) | _ \<Rightarrow> None)"

fun upper_end :: "range_bound \<Rightarrow> range_end option" where
  "upper_end b = (case bound_operator b of
       Op_Lt \<Rightarrow> Some (Exclusive (bound_parameter b)) | Op_Lte \<Rightarrow> Some (Inclusive (bound_parameter b)) | _ \<Rightarrow> None)"

declare lower_end.simps [simp del] upper_end.simps [simp del]

lemmas end_simps = lower_end.simps upper_end.simps

definition lowers :: "range_bound list \<Rightarrow> range_end list" where
  "lowers bs = or_default Unbounded (List.map_filter lower_end bs)"

definition uppers :: "range_bound list \<Rightarrow> range_end list" where
  "uppers bs = or_default Unbounded (List.map_filter upper_end bs)"

definition range_query :: "string \<Rightarrow> range_bound list \<Rightarrow> ft_query" where
  "range_query field bs = Seq [Interval field lo hi. lo \<leftarrow> lowers bs, hi \<leftarrow> uppers bs]"

lemma map_filter_map_option:
  "(\<And>x. f x = map_option g (h x)) \<Longrightarrow> List.map_filter f xs = map g (List.map_filter h xs)"
  by (induction xs) (auto simp: List.map_filter_simps split: option.splits)

lemma or_default_not_Nil: "or_default x xs \<noteq> []"
  by (simp add: or_default_def)

lemma render_range_show:
  assumes "bs \<noteq> []"
  shows "render_range field bs = Some (show_query (range_query field bs))"
proof -
  have "List.map_filter lower_text bs = map (show_end ''-inf'') (List.map_filter lower_end bs)"
    "List.map_filter upper_text bs = map (show_end ''+inf'') (List.map_filter upper_end bs)"
    by (rule map_filter_map_option; auto simp: end_simps split: range_op.splits)+
  then have "or_default ''-inf'' (List.map_filter lower_text bs) = map (show_end ''-inf'') (lowers bs)"
    "or_default ''+inf'' (List.map_filter upper_text bs) = map (show_end ''+inf'') (uppers bs)"
    by (simp_all add: or_default_def lowers_def uppers_def)
  then show ?thesis
    using assms by (simp add: render_range_def Let_def range_query_def map_concat comp_def)
qed

definition bound_sat_by :: "bindings \<Rightarrow> range_bound \<Rightarrow> real \<Rightarrow> bool" where
  "bound_sat_by M b v = (case bound_operator b of
       Op_Lt \<Rightarrow> below_end M (Exclusive (bound_parameter b)) v
     | Op_Lte \<Rightarrow> below_end M (Inclusive (bound_parameter b)) v
     | Op_Gt \<Rightarrow> above_end M (Exclusive (bound_parameter b)) v
     | Op_Gte \<Rightarrow> above_end M (Inclusive (bound_parameter b)) v)"

lemma or_default_all: "(\<forall>x \<in> set (or_default u xs). P x) \<longleftrightarrow> (if xs = [] then P u else \<forall>x \<in> set xs. P x)"
  by (simp add: or_default_def)

lemma map_filter_all: "(\<forall>y \<in> set (List.map_filter f xs). P y) \<longleftrightarrow> (\<forall>x \<in> set xs. \<forall>y. f x = Some y \<longrightarrow> P y)"
  using set_map_filter_ex [of f xs "\<lambda>y. \<not> P y"] by blast

lemma range_query_eval:
  "eval_query S M d (range_query field bs) \<longleftrightarrow> (\<exists>v \<in> numbers S d field. \<forall>b \<in> set bs. bound_sat_by M b v)"
proof -
  have ends: "(\<forall>lo \<in> set (lowers bs). above_end M lo v) \<and> (\<forall>hi \<in> set (uppers bs). below_end M hi v) \<longleftrightarrow>
      (\<forall>b \<in> set bs. bound_sat_by M b v)" for v
  proof -
    have "(\<forall>lo \<in> set (lowers bs). above_end M lo v) \<longleftrightarrow> (\<forall>b \<in> set bs. \<forall>e. lower_end b = Some e \<longrightarrow> above_end M e v)"
      unfolding lowers_def or_default_all map_filter_all [symmetric] by auto
    moreover have "(\<forall>hi \<in> set (uppers bs). below_end M hi v) \<longleftrightarrow> (\<forall>b \<in> set bs. \<forall>e. upper_end b = Some e \<longrightarrow> below_end M e v)"
      unfolding uppers_def or_default_all map_filter_all [symmetric] by auto
    moreover have "bound_sat_by M b v \<longleftrightarrow> (\<forall>e. lower_end b = Some e \<longrightarrow> above_end M e v) \<and>
        (\<forall>e. upper_end b = Some e \<longrightarrow> below_end M e v)" for b
      by (cases "bound_operator b") (auto simp: bound_sat_by_def end_simps)
    ultimately show ?thesis by blast
  qed
  have "eval_query S M d (range_query field bs) \<longleftrightarrow>
      (\<forall>lo \<in> set (lowers bs). \<forall>hi \<in> set (uppers bs). \<exists>v \<in> numbers S d field. above_end M lo v \<and> below_end M hi v)"
    by (auto simp: range_query_def)
  also have "\<dots> \<longleftrightarrow> (\<exists>v \<in> numbers S d field. (\<forall>lo \<in> set (lowers bs). above_end M lo v) \<and>
      (\<forall>hi \<in> set (uppers bs). below_end M hi v))"
    by (rule interval_pairing) (simp_all add: lowers_def uppers_def or_default_not_Nil)
  finally show ?thesis using ends by simp
qed

lemma range_query_wf: "bracketed (range_query field bs)" "\<not> is_alt (range_query field bs)"
  using or_default_not_Nil [of Unbounded "List.map_filter lower_end bs"]
    or_default_not_Nil [of Unbounded "List.map_filter upper_end bs"]
  by (auto simp: range_query_def lowers_def uppers_def)

lemma range_query_refs: "refs (range_query field bs) = bound_parameter ` set bs"
proof -
  have "refs (range_query field bs) = (\<Union>lo \<in> set (lowers bs). end_refs lo) \<union> (\<Union>hi \<in> set (uppers bs). end_refs hi)"
    using or_default_not_Nil [of Unbounded "List.map_filter lower_end bs"]
      or_default_not_Nil [of Unbounded "List.map_filter upper_end bs"]
    by (fastforce simp: range_query_def lowers_def uppers_def neq_Nil_conv)
  also have "(\<Union>lo \<in> set (lowers bs). end_refs lo) = (\<Union>b \<in> set bs. case lower_end b of Some e \<Rightarrow> end_refs e | None \<Rightarrow> {})"
    by (induction bs) (auto simp: lowers_def or_default_def List.map_filter_simps split: option.splits if_splits)
  also have "(\<Union>hi \<in> set (uppers bs). end_refs hi) = (\<Union>b \<in> set bs. case upper_end b of Some e \<Rightarrow> end_refs e | None \<Rightarrow> {})"
    by (induction bs) (auto simp: uppers_def or_default_def List.map_filter_simps split: option.splits if_splits)
  also have "(\<Union>b \<in> set bs. case lower_end b of Some e \<Rightarrow> end_refs e | None \<Rightarrow> {}) \<union>
      (\<Union>b \<in> set bs. case upper_end b of Some e \<Rightarrow> end_refs e | None \<Rightarrow> {}) = (\<Union>b \<in> set bs. {bound_parameter b})"
    unfolding UN_Un_distrib [symmetric] by (intro SUP_cong refl) (auto simp: end_simps split: range_op.splits)
  finally show ?thesis by auto
qed

lemma found_bounds_distinct: "distinct (map fst ks) \<Longrightarrow> distinct (map fst (found_bounds dt criteria ks))"
proof (induction ks)
  case (Cons k ks)
  then show ?case by (cases k) (force simp: found_bounds_Cons set_found_bounds split: option.splits)
qed (simp add: found_bounds_def List.map_filter_simps)

lemma range_keys_facts: "distinct (map fst range_keys)" "fst ` set range_keys \<subseteq> set name_tails"
  by (simp_all add: range_keys_def name_tails_def)

fun op_sat :: "range_op \<Rightarrow> f64v \<Rightarrow> real \<Rightarrow> bool" where
  "op_sat Op_Lt x y = below x True y"
| "op_sat Op_Lte x y = below x False y"
| "op_sat Op_Gt x y = above x True y"
| "op_sat Op_Gte x y = above x False y"

lemma op_sat_cases:
  "op_sat op x y = (case op of Op_Lt \<Rightarrow> below x True y | Op_Lte \<Rightarrow> below x False y
     | Op_Gt \<Rightarrow> above x True y | Op_Gte \<Rightarrow> above x False y)"
  by (cases op) auto

lemma bound_sat_op:
  "M p = Some x \<Longrightarrow> bound_sat_by M \<lparr>bound_parameter = p, bound_operator = op\<rparr> v \<longleftrightarrow> op_sat op (num_of x) v"
  by (cases op) (auto simp: bound_sat_by_def param_sat_def)

lemma range_means:
  assumes "leaf_supported dt ''range'' criteria"
  shows "\<exists>f. build_range_filter dt field criteria c = (Some f, c + 1) \<and>
    filter_means S c (c + 1) (leaf_holds S dt field ''range'' criteria) f"
proof -
  define L where "L = found_bounds dt criteria range_keys"
  define pre where "pre = param_name field c"
  define ps where "ps = map (\<lambda>(key, op, x). (pre @ ''_'' @ key, x)) L"
  define bs where "bs = map (\<lambda>(key, op, x). \<lparr>bound_parameter = pre @ ''_'' @ key, bound_operator = op\<rparr>) L"
  have rb: "range_bounds dt pre criteria range_keys [] [] = (ps, bs)"
    using range_bounds_eq [OF range_keys_facts(1), of pre "[]" dt criteria "[]"] by (simp add: ps_def bs_def L_def)
  have conv: "\<exists>x. number_param dt v = Some x" if "(key, op) \<in> set range_keys" "jget key criteria = Some v" for key op v
    using assms that by (fastforce simp: leaf_supported_def list_all_iff)
  have memL: "(key, op, x) \<in> set L \<longleftrightarrow> (key, op) \<in> set range_keys \<and> Option.bind (jget key criteria) (number_param dt) = Some x"
    for key op x by (simp add: L_def set_found_bounds)
  from assms obtain key op v where "(key, op) \<in> set range_keys" "jget key criteria = Some v"
    by (auto simp: leaf_supported_def list_ex_iff)
  with conv memL have "L \<noteq> []" by fastforce
  then have "bs \<noteq> []" by (simp add: bs_def)
  have dL: "distinct (map fst L)" unfolding L_def by (rule found_bounds_distinct [OF range_keys_facts(1)])
  have dps: "distinct (map fst ps)"
    using dL unfolding ps_def by (auto simp: distinct_map comp_def case_prod_unfold inj_on_def)
  have mps: "map_of ps (pre @ ''_'' @ key) = Some x" if "(key, op, x) \<in> set L" for key op x
    using that dps unfolding ps_def by (intro map_of_is_SomeI) force+
  have "filter_means S c (c + 1) (leaf_holds S dt field ''range'' criteria) (show_query (range_query field bs), ps)"
  proof (rule filter_meansI [where e = "range_query field bs"])
    show "refs (range_query field bs) = fst ` set ps"
      unfolding range_query_refs bs_def ps_def by (force simp: image_image)
    show "\<exists>k \<ge> c. k < c + 1 \<and> named_at k p" if "p \<in> fst ` set ps" for p
    proof -
      from that obtain key op x where "(key, op, x) \<in> set L" and p: "p = pre @ CHR ''_'' # key" by (auto simp: ps_def)
      then have "key \<in> set name_tails" using memL range_keys_facts(2) by force
      then have "named_at c p" using p unfolding named_at_def pre_def by blast
      then show ?thesis by (intro exI [of _ c]) simp
    qed
    fix d
    have "(\<forall>b \<in> set bs. bound_sat_by (map_of ps) b y) \<longleftrightarrow> (\<forall>(key, op, x) \<in> set L. op_sat op (num_of x) y)" for y
      using mps by (auto simp: bs_def bound_sat_op)
    also have "\<dots> y \<longleftrightarrow> (\<forall>(key, op) \<in> set range_keys. \<forall>v. jget key criteria = Some v \<longrightarrow>
        (\<exists>x. number_param dt v = Some x \<and> op_sat op (num_of x) y))" for y
    proof -
      have "(\<forall>x. Option.bind (jget key criteria) (number_param dt) = Some x \<longrightarrow> op_sat op (num_of x) y) \<longleftrightarrow>
          (\<forall>v. jget key criteria = Some v \<longrightarrow> (\<exists>x. number_param dt v = Some x \<and> op_sat op (num_of x) y))"
        if "(key, op) \<in> set range_keys" for key op
        using conv [OF that] by (cases "jget key criteria") auto
      moreover have "(\<forall>(key, op, x) \<in> set L. op_sat op (num_of x) y) \<longleftrightarrow> (\<forall>(key, op) \<in> set range_keys.
          \<forall>x. Option.bind (jget key criteria) (number_param dt) = Some x \<longrightarrow> op_sat op (num_of x) y)"
        using memL by fastforce
      ultimately show ?thesis by blast
    qed
    finally show "eval_query S (map_of ps) d (range_query field bs) \<longleftrightarrow> leaf_holds S dt field ''range'' criteria d"
      unfolding range_query_eval by (simp add: leaf_holds.simps op_sat_cases)
  qed (simp_all add: range_query_wf dps)
  then show ?thesis
    using rb render_range_show [OF \<open>bs \<noteq> []\<close>] by (simp add: build_range_filter_def pre_def [symmetric])
qed

lemma geo_means:
  assumes "leaf_supported dt ''geo'' criteria"
  shows "\<exists>f. build_geo_filter dt field criteria c = (Some f, c + 1) \<and>
    filter_means S c (c + 1) (leaf_holds S dt field ''geo'' criteria) f"
proof -
  obtain a b r x y z where
    j: "jget ''lon'' criteria = Some a" "jget ''lat'' criteria = Some b" "jget ''radius'' criteria = Some r" and
    n: "number_param dt a = Some x" "number_param dt b = Some y" "number_param dt r = Some z"
    using assms by (auto simp: leaf_supported_def bind_eq_Some_conv)
  let ?p = "param_name field c"
  let ?ps = "[(?p @ ''_lon'', x), (?p @ ''_lat'', y), (?p @ ''_radius'', z)]"
  have "filter_means S c (c + 1) (leaf_holds S dt field ''geo'' criteria)
      (show_query (Geo_Within field (?p @ ''_lon'') (?p @ ''_lat'') (?p @ ''_radius'')), ?ps)"
  proof (rule filter_meansI [OF refl])
    show "\<exists>k \<ge> c. k < c + 1 \<and> named_at k q" if "q \<in> fst ` set ?ps" for q
    proof -
      have "\<exists>t \<in> set name_tails. q = ?p @ CHR ''_'' # t" using that by (auto simp: name_tails_def)
      then show ?thesis unfolding named_at_def by (intro exI [of _ c]) auto
    qed
  qed (auto simp: param_sat_def leaf_holds.simps j n)
  then show ?thesis
    by (auto simp: build_geo_filter_def Let_def j n insert_number_param_def bind_param_def)
qed

lemma leaf_means:
  assumes "leaf_supported dt ct criteria"
  shows "\<exists>f m. build_filter dt field ct criteria c = (Some f, m) \<and>
    filter_means S c m (leaf_holds S dt field ct criteria) f"
proof -
  consider "ct = ''match''" | "ct = ''range''" | "ct = ''geo''"
    by (cases "ct = ''match''"; cases "ct = ''range''") (use assms in \<open>simp_all add: leaf_supported_def\<close>)
  then show ?thesis
  proof cases
    case 1
    show ?thesis
    proof (cases "Option.bind (jget ''any'' criteria) as_array")
      case (Some any)
      with 1 have "leaf_holds S dt field ct criteria = (\<lambda>d. \<exists>v \<in> set any. case v of
            String s \<Rightarrow> s \<noteq> [] \<and> tag_is S d field s
          | _ \<Rightarrow> (\<exists>i. as_i64 v = Some i \<and> of_int i \<in> numbers S d field))"
        by (intro ext) (simp add: leaf_holds.simps)
      moreover have "list_all (\<lambda>v. as_i64 v \<noteq> None) any \<or> list_all (\<lambda>v. as_string v \<noteq> None) any"
        using assms 1 Some by (simp add: leaf_supported_def)
      ultimately show ?thesis
        using match_any_means [of any S c field] 1 Some
        by (cases "build_match_any_filter field any c") (simp add: build_filter_def)
    next
      case any: None
      show ?thesis
      proof (cases "Option.bind (jget ''text'' criteria) as_string")
        case (Some t)
        with 1 any have "leaf_holds S dt field ct criteria = (\<lambda>d. trim t \<noteq> [] \<and> text_matches S d field (trim t))"
          by (intro ext) (simp add: leaf_holds.simps)
        with text_means [of S c field t] 1 any Some show ?thesis
          by (cases "build_text_filter field t c") (simp add: build_filter_def)
      next
        case None
        with 1 any assms obtain v where v: "jget ''value'' criteria = Some v" "is_scalar v"
          by (auto simp: leaf_supported_def split: option.splits)
        have "leaf_holds S dt field ct criteria = (\<lambda>d. case v of
            Bool b \<Rightarrow> tag_is S d field (if b then ''true'' else ''false'')
          | String s \<Rightarrow> tag_is S d field s
          | _ \<Rightarrow> (\<exists>x. number_param dt v = Some x \<and> (\<exists>y \<in> numbers S d field. num_of x = Finite y)))"
          using 1 any None v by (intro ext) (auto simp: leaf_holds.simps split: json.splits)
        moreover from exact_means [OF v, of field c S dt] obtain f where
          f: "build_exact_match_filter field criteria c = (Some f, c + 1)" and
          m: "filter_means S c (c + 1) (\<lambda>d. case v of
            Bool b \<Rightarrow> tag_is S d field (if b then ''true'' else ''false'')
          | String s \<Rightarrow> tag_is S d field s
          | _ \<Rightarrow> (\<exists>x. number_param dt v = Some x \<and> (\<exists>y \<in> numbers S d field. num_of x = Finite y))) f" by blast
        moreover have "build_filter dt field ct criteria c = (Some f, c + 1)"
          using f 1 any None by (simp add: build_filter_def)
        ultimately show ?thesis by metis
      qed
    qed
  next
    case 2
    with range_means [of dt criteria field c S] assms show ?thesis by (auto simp: build_filter_def)
  next
    case 3
    with geo_means [of dt criteria field c S] assms show ?thesis by (auto simp: build_filter_def)
  qed
qed

section \<open>Groups mean their conditions\<close>

definition filters_mean ::
    "'d search_semantics \<Rightarrow> nat \<Rightarrow> nat \<Rightarrow> ('d \<Rightarrow> bool) list \<Rightarrow> parsed_filter list \<Rightarrow> bool" where
  "filters_mean S n m Ps fs \<longleftrightarrow> n \<le> m \<and> list_all2 (filter_means S n m) Ps fs \<and>
     distinct (map fst (concat (map snd fs)))"

lemma filter_means_weaken: "filter_means S n m P f \<Longrightarrow> n' \<le> n \<Longrightarrow> m \<le> m' \<Longrightarrow> filter_means S n' m' P f"
  unfolding filter_means_def by (meson le_trans less_le_trans)

lemma filter_means_names:
  assumes "filter_means S n m P f" and "p \<in> fst ` set (snd f)"
  shows "\<exists>k. n \<le> k \<and> k < m \<and> named_at k p"
  using assms unfolding filter_means_def by metis

lemma filters_mean_names:
  assumes "filters_mean S n m Ps fs" and "p \<in> fst ` set (concat (map snd fs))"
  shows "\<exists>k. n \<le> k \<and> k < m \<and> named_at k p"
proof -
  from assms(2) obtain f where "f \<in> set fs" "p \<in> fst ` set (snd f)" by auto
  with assms(1) filter_means_names [of S n m _ f p] show ?thesis
    by (auto simp: filters_mean_def list_all2_conv_all_nth in_set_conv_nth)
qed

text \<open>Filters numbered from separate stretches of the counter share no name.\<close>

lemma names_disjoint:
  assumes "\<And>p. p \<in> A \<Longrightarrow> \<exists>j. n \<le> j \<and> j < k \<and> named_at j p" and "\<And>p. p \<in> B \<Longrightarrow> \<exists>j. k \<le> j \<and> j < m \<and> named_at j p"
  shows "A \<inter> B = {}"
  using assms named_at_unique by (metis disjoint_iff leD)

lemma filters_mean_Cons:
  assumes "filter_means S n k P f" and "filters_mean S k m Ps fs"
  shows "filters_mean S n m (P # Ps) (f # fs)"
proof -
  from assms have le: "n \<le> k" "k \<le> m" by (auto simp: filter_means_def filters_mean_def)
  have "list_all2 (filter_means S n m) Ps fs"
    using assms(2) le by (auto simp: filters_mean_def elim!: list_all2_mono intro: filter_means_weaken)
  moreover have "filter_means S n m P f" using assms(1) le by (auto intro: filter_means_weaken)
  moreover have "fst ` set (snd f) \<inter> fst ` set (concat (map snd fs)) = {}"
    by (rule names_disjoint [OF filter_means_names [OF assms(1)] filters_mean_names [OF assms(2)]])
  moreover have "distinct (map fst (snd f))" using assms(1) by (auto simp: filter_means_def)
  ultimately show ?thesis using assms(2) le by (auto simp: filters_mean_def)
qed

lemma filters_mean_Nil: "filters_mean S n n [] []"
  by (simp add: filters_mean_def)

lemma fold_bind_distinct:
  "distinct (map fst (ys @ xs)) \<Longrightarrow> fold (\<lambda>(p, v). bind_param p v) xs ys = ys @ xs"
proof (induction xs arbitrary: ys)
  case (Cons x xs)
  obtain p v where x: "x = (p, v)" by fastforce
  with Cons.prems have "p \<notin> fst ` set ys" by auto
  then have "bind_param p v ys = ys @ [x]" using x by (force simp: bind_param_def intro!: filter_True)
  with Cons x show ?case by simp
qed simp

lemma map_of_concat:
  assumes "distinct (map fst (concat pss))" and "ps \<in> set pss" and "p \<in> fst ` set ps"
  shows "map_of (concat pss) p = map_of ps p"
proof -
  from assms(3) obtain v where v: "(p, v) \<in> set ps" by auto
  have "distinct (map fst ps)"
    using assms(1,2) by (induction pss) auto
  with v have "map_of ps p = Some v" by simp
  moreover have "map_of (concat pss) p = Some v" using assms v by (intro map_of_is_SomeI) auto
  ultimately show ?thesis by simp
qed

text \<open>The expressions behind a list of filters, evaluated under bindings that contain theirs.\<close>

lemma filters_mean_queries:
  assumes "filters_mean S n m Ps fs" and "\<And>f p. f \<in> set fs \<Longrightarrow> p \<in> fst ` set (snd f) \<Longrightarrow> M p = map_of (snd f) p"
  obtains es where "map fst fs = map show_query es" "\<forall>e \<in> set es. bracketed e \<and> \<not> is_alt e"
    "(\<Union>e \<in> set es. refs e) = fst ` set (concat (map snd fs))" "list_all2 (\<lambda>P e. \<forall>d. eval_query S M d e \<longleftrightarrow> P d) Ps es"
proof -
  from assms(1) have "list_all2 (filter_means S n m) Ps fs" by (simp add: filters_mean_def)
  then have "\<exists>es. map fst fs = map show_query es \<and> (\<forall>e \<in> set es. bracketed e \<and> \<not> is_alt e) \<and>
      (\<Union>e \<in> set es. refs e) = fst ` set (concat (map snd fs)) \<and> list_all2 (\<lambda>P e. \<forall>d. eval_query S M d e \<longleftrightarrow> P d) Ps es"
    using assms(2)
  proof (induction rule: list_all2_induct)
    case Nil
    then show ?case by (intro exI [of _ "[]"]) simp
  next
    case (Cons P Ps f fs)
    then obtain es where es: "map fst fs = map show_query es" "\<forall>e \<in> set es. bracketed e \<and> \<not> is_alt e"
      "(\<Union>e \<in> set es. refs e) = fst ` set (concat (map snd fs))" "list_all2 (\<lambda>P e. \<forall>d. eval_query S M d e \<longleftrightarrow> P d) Ps es"
      by auto
    from Cons(1) obtain e where e: "fst f = show_query e" "bracketed e" "\<not> is_alt e" "refs e = fst ` set (snd f)"
      "\<forall>d. eval_query S (map_of (snd f)) d e \<longleftrightarrow> P d"
      unfolding filter_means_def by blast
    have "\<forall>d. eval_query S M d e \<longleftrightarrow> P d"
      using e(4,5) eval_query_cong [of e M "map_of (snd f)" S] Cons.prems [of f] by auto
    with e es show ?case by (intro exI [of _ "e # es"]) auto
  qed
  with that show ?thesis by blast
qed

lemma list_all2_eval:
  assumes "list_all2 (\<lambda>P e. \<forall>d. eval_query S M d e \<longleftrightarrow> P d) Ps es"
  shows "(\<forall>e \<in> set es. eval_query S M d e) \<longleftrightarrow> (\<forall>P \<in> set Ps. P d)"
    and "(\<exists>e \<in> set es. eval_query S M d e) \<longleftrightarrow> (\<exists>P \<in> set Ps. P d)"
  using assms by (induction rule: list_all2_induct) auto

lemma build_condition_means:
  assumes "filters_mean S n k Ps as" and "filters_mean S k m Qs os" and "as \<noteq> [] \<or> os \<noteq> []"
    and "a = (if as = [] then None else Some as)" and "b = (if os = [] then None else Some os)"
  shows "\<exists>f. build_condition a b = Some f \<and>
    filter_means S n m (\<lambda>d. (\<forall>P \<in> set Ps. P d) \<and> (os \<noteq> [] \<longrightarrow> (\<exists>Q \<in> set Qs. Q d))) f"
proof -
  let ?ps = "concat (map snd as) @ concat (map snd os)"
  let ?M = "map_of ?ps"
  have le: "n \<le> k" "k \<le> m" using assms by (auto simp: filters_mean_def)
  have names: "\<exists>j. n \<le> j \<and> j < m \<and> named_at j p" if "p \<in> fst ` set ?ps" for p
    using that filters_mean_names [OF assms(1), of p] filters_mean_names [OF assms(2), of p] le
    by (metis (no_types, lifting) Un_iff image_Un le_trans less_le_trans set_append)
  have "distinct (map fst ?ps)"
    using assms(1,2) names_disjoint [OF filters_mean_names [OF assms(1)] filters_mean_names [OF assms(2)]]
    by (simp add: filters_mean_def)
  then have d: "distinct (map fst (concat (map snd (as @ os))))" by simp
  have M: "?M p = map_of (snd f) p" if "f \<in> set (as @ os)" "p \<in> fst ` set (snd f)" for f p
    using map_of_concat [OF d, of "snd f" p] that by auto
  obtain es where es: "map fst as = map show_query es" "\<forall>e \<in> set es. bracketed e \<and> \<not> is_alt e"
    "(\<Union>e \<in> set es. refs e) = fst ` set (concat (map snd as))" "list_all2 (\<lambda>P e. \<forall>d. eval_query S ?M d e \<longleftrightarrow> P d) Ps es"
    using filters_mean_queries [OF assms(1), of ?M] M by auto
  obtain hs where hs: "map fst os = map show_query hs" "\<forall>e \<in> set hs. bracketed e \<and> \<not> is_alt e"
    "(\<Union>e \<in> set hs. refs e) = fst ` set (concat (map snd os))" "list_all2 (\<lambda>P e. \<forall>d. eval_query S ?M d e \<longleftrightarrow> P d) Qs hs"
    using filters_mean_queries [OF assms(2), of ?M] M by auto
  have Nil: "as = [] \<longleftrightarrow> es = []" "os = [] \<longleftrightarrow> hs = []" "es = [] \<longleftrightarrow> Ps = []"
    using es(1,4) hs(1) by (auto dest: list_all2_lengthD)
  define e where "e = Seq ((if as = [] then [] else [Paren (Seq es)]) @ (if os = [] then [] else [Paren (Alt hs)]))"
  have "build_condition a b = Some (show_query e, ?ps)"
    using assms(3,4,5) fold_bind_distinct [of "[]" ?ps] d es(1) hs(1)
    by (auto simp: build_condition_def Let_def e_def)
  moreover have "filter_means S n m (\<lambda>d. (\<forall>P \<in> set Ps. P d) \<and> (os \<noteq> [] \<longrightarrow> (\<exists>Q \<in> set Qs. Q d))) (show_query e, ?ps)"
  proof (rule filter_meansI [OF refl])
    show "bracketed e" using assms(3) es(2) hs(2) Nil by (auto simp: e_def)
    show "refs e = fst ` set ?ps" using es(3) hs(3) by (auto simp: e_def image_Un)
    show "distinct (map fst ?ps)" using d by simp
    fix d
    show "eval_query S ?M d e \<longleftrightarrow> (\<forall>P \<in> set Ps. P d) \<and> (os \<noteq> [] \<longrightarrow> (\<exists>Q \<in> set Qs. Q d))"
      using list_all2_eval [OF es(4), of d] list_all2_eval [OF hs(4), of d] Nil by (auto simp: e_def)
  qed (use names le in \<open>auto simp: e_def\<close>)
  ultimately show ?thesis by blast
qed

lemma supported_group:
  assumes "condition_supported dt (Object es)" and "is_group es" and "key \<in> {''and'', ''or''}"
  shows "case group_entries key es of
      None \<Rightarrow> map_of es key = None
    | Some xs \<Rightarrow> xs \<noteq> [] \<and> list_all (condition_supported dt) xs"
proof -
  from assms have "map_of es key = None \<or> (case group_entries key es of
      None \<Rightarrow> False | Some xs \<Rightarrow> xs \<noteq> [] \<and> list_all (condition_supported dt) xs)"
    by (subst (asm) condition_supported.simps) auto
  then show ?thesis by (auto simp: group_entries_def split: option.splits)
qed

lemma group_holds:
  assumes "is_group es"
  shows "condition_holds S dt (Object es) d \<longleftrightarrow>
    (case group_entries ''and'' es of None \<Rightarrow> True | Some xs \<Rightarrow> \<forall>x \<in> set xs. condition_holds S dt x d) \<and>
    (case group_entries ''or'' es of None \<Rightarrow> True | Some xs \<Rightarrow> \<exists>x \<in> set xs. condition_holds S dt x d)"
  using assms by (subst condition_holds.simps) simp

lemma supported_leaf:
  assumes "condition_supported dt (Object es)" and "\<not> is_group es"
  obtains field ct criteria where "es = [(field, Object [(ct, criteria)])]" "leaf_supported dt ct criteria"
  using assms by (subst (asm) condition_supported.simps)
    (auto simp: single_leaf_iff split: option.splits)

lemma leaf_condition_holds:
  assumes "\<not> is_group [(field, Object [(ct, criteria)])]"
  shows "condition_holds S dt (Object [(field, Object [(ct, criteria)])]) = leaf_holds S dt field ct criteria"
  using assms by (intro ext) (subst condition_holds.simps, simp)

lemma builder_means:
  "is_group es \<Longrightarrow> condition_supported dt (Object es) \<Longrightarrow>
     \<exists>f m. build_group dt es c = (Some f, m) \<and> filter_means S c m (condition_holds S dt (Object es)) f"
  "list_all (condition_supported dt) xs \<Longrightarrow>
     \<exists>fs m. build_subfilters dt xs c = (fs, m) \<and> filters_mean S c m (map (condition_holds S dt) xs) fs"
proof (induction dt es c and dt xs c rule: build_group_build_subfilters.induct)
  case (1 dt es c)
  note sup = supported_group [OF 1(4,3)]
  let ?A = "case group_entries ''and'' es of None \<Rightarrow> [] | Some xs \<Rightarrow> xs"
  let ?O = "case group_entries ''or'' es of None \<Rightarrow> [] | Some xs \<Rightarrow> xs"
  have A: "\<exists>as k. filters_mean S c k (map (condition_holds S dt) ?A) as \<and>
      (case group_entries ''and'' es of None \<Rightarrow> (None, c) | Some xs \<Rightarrow> map_prod Some id (build_subfilters dt xs c)) =
        (if as = [] then None else Some as, k) \<and> (as = [] \<longleftrightarrow> group_entries ''and'' es = None)"
  proof (cases "group_entries ''and'' es")
    case (Some xs)
    with sup [of "''and''"] have "xs \<noteq> []" "list_all (condition_supported dt) xs" by auto
    with 1(1) [OF Some] obtain fs m where "build_subfilters dt xs c = (fs, m)"
      "filters_mean S c m (map (condition_holds S dt) xs) fs" by blast
    moreover from this \<open>xs \<noteq> []\<close> have "fs \<noteq> []" by (auto simp: filters_mean_def)
    ultimately show ?thesis using Some by (intro exI [of _ fs] exI [of _ m]) auto
  qed (auto intro!: exI [of _ "[]"] filters_mean_Nil)
  then obtain as k where as: "filters_mean S c k (map (condition_holds S dt) ?A) as"
    "(case group_entries ''and'' es of None \<Rightarrow> (None, c) | Some xs \<Rightarrow> map_prod Some id (build_subfilters dt xs c)) =
      (if as = [] then None else Some as, k)" "as = [] \<longleftrightarrow> group_entries ''and'' es = None"
    by (elim exE conjE) (rule that)
  have "\<exists>os m. filters_mean S k m (map (condition_holds S dt) ?O) os \<and>
      (case group_entries ''or'' es of None \<Rightarrow> (None, k) | Some xs \<Rightarrow> map_prod Some id (build_subfilters dt xs k)) =
        (if os = [] then None else Some os, m) \<and> (os = [] \<longleftrightarrow> group_entries ''or'' es = None)"
  proof (cases "group_entries ''or'' es")
    case (Some xs)
    with sup [of "''or''"] have "xs \<noteq> []" "list_all (condition_supported dt) xs" by auto
    with 1(2) [OF as(2) [symmetric] refl Some] obtain fs m where "build_subfilters dt xs k = (fs, m)"
      "filters_mean S k m (map (condition_holds S dt) xs) fs" by blast
    moreover from this \<open>xs \<noteq> []\<close> have "fs \<noteq> []" by (auto simp: filters_mean_def)
    ultimately show ?thesis using Some by (intro exI [of _ fs] exI [of _ m]) auto
  qed (auto intro!: exI [of _ "[]"] filters_mean_Nil)
  then obtain os m where os: "filters_mean S k m (map (condition_holds S dt) ?O) os"
    "(case group_entries ''or'' es of None \<Rightarrow> (None, k) | Some xs \<Rightarrow> map_prod Some id (build_subfilters dt xs k)) =
      (if os = [] then None else Some os, m)" "os = [] \<longleftrightarrow> group_entries ''or'' es = None"
    by (elim exE conjE) (rule that)
  have "as \<noteq> [] \<or> os \<noteq> []"
    using 1(3) as(3) os(3) sup [of "''and''"] sup [of "''or''"] by (auto simp: is_group_def)
  from build_condition_means [OF as(1) os(1) this refl refl] obtain f where
    f: "build_condition (if as = [] then None else Some as) (if os = [] then None else Some os) = Some f"
    "filter_means S c m (\<lambda>d. (\<forall>P \<in> set (map (condition_holds S dt) ?A). P d) \<and>
      (os \<noteq> [] \<longrightarrow> (\<exists>Q \<in> set (map (condition_holds S dt) ?O). Q d))) f" by blast
  have "condition_holds S dt (Object es) = (\<lambda>d. (\<forall>P \<in> set (map (condition_holds S dt) ?A). P d) \<and>
      (os \<noteq> [] \<longrightarrow> (\<exists>Q \<in> set (map (condition_holds S dt) ?O). Q d)))"
    using os(3) by (intro ext) (auto simp: group_holds [OF 1(3)] split: option.splits)
  moreover have "build_group dt es c = (Some f, m)"
    using f(1) as(2) os(2) by (simp add: build_group.simps)
  ultimately show ?case using f(2) by metis
next
  case (2 dt c)
  then show ?case using filters_mean_Nil by force
next
  case (3 dt x xs c)
  then obtain es where x: "x = Object es" "as_object x = Some es"
    by (cases x) (auto simp: condition_supported.simps)
  have "\<exists>f k. (if is_group es
        then let (f, c) = build_group dt es c in (case f of Some g \<Rightarrow> [g] | None \<Rightarrow> [], c)
        else build_fields dt es c) = ([f], k) \<and> filter_means S c k (condition_holds S dt x) f"
  proof (cases "is_group es")
    case True
    with 3(1) [OF x(2) True] 3(3) x show ?thesis by auto
  next
    case False
    with 3(3) x obtain field ct criteria where es: "es = [(field, Object [(ct, criteria)])]" "leaf_supported dt ct criteria"
      by (auto elim: supported_leaf)
    from leaf_means [OF this(2), of field c S] es False x show ?thesis
      by (auto simp: leaf_condition_holds)
  qed
  then obtain f k where f: "(case as_object x of None \<Rightarrow> ([], c) | Some es \<Rightarrow> if is_group es
        then let (f, c) = build_group dt es c in (case f of Some g \<Rightarrow> [g] | None \<Rightarrow> [], c)
        else build_fields dt es c) = ([f], k)" "filter_means S c k (condition_holds S dt x) f"
    using x(2) by auto
  from 3(2) [OF f(1) [symmetric] refl] 3(3) obtain fs m where
    "build_subfilters dt xs k = (fs, m)" "filters_mean S k m (map (condition_holds S dt) xs) fs" by auto
  with f show ?case using filters_mean_Cons [OF f(2)] by (auto simp: build_subfilters.simps(2))
qed

section \<open>The builder as an interface\<close>

definition query_means :: "'d search_semantics \<Rightarrow> parsed_filter \<Rightarrow> ('d \<Rightarrow> bool) \<Rightarrow> bool" where
  "query_means S f P \<longleftrightarrow>
     (\<exists>e. fst f = show_query e \<and> bracketed e \<and> refs e = fst ` set (snd f) \<and> distinct (map fst (snd f)) \<and>
        (\<forall>d. eval_query S (map_of (snd f)) d e \<longleftrightarrow> P d))"

definition filter_supported :: "datetime \<Rightarrow> json \<Rightarrow> bool" where
  "filter_supported dt c = (case c of Object es \<Rightarrow> is_group es \<and> condition_supported dt c | _ \<Rightarrow> False)"

lemma parse_conditions_means:
  assumes "filter_supported dt c"
  shows "\<exists>f m. parse_conditions dt c = Some f \<and> filter_means S 0 m (condition_holds S dt c) f"
proof -
  from assms obtain es where c: "c = Object es" "is_group es" "condition_supported dt c"
    by (cases c) (auto simp: filter_supported_def)
  moreover from this have "es \<noteq> []" by (auto simp: is_group_def)
  ultimately show ?thesis
    using builder_means(1) [of es dt 0 S] by (auto simp: parse_conditions_def)
qed

lemma filter_means_query: "filter_means S n m P f \<Longrightarrow> query_means S f P"
  unfolding filter_means_def query_means_def by blast

interpretation redis_builder: meaningful_builder "parse_conditions dt" "query_means S" "filter_supported dt"
    "condition_holds S dt"
  by unfold_locales (use parse_conditions_means filter_means_query in blast)

lemma binds_ef_iff: "binds_ef upper algorithm policy \<longleftrightarrow> knn_conditions upper algorithm policy \<noteq> []"
  by (auto simp: binds_ef_def knn_conditions_def)

lemma reserved_not_named: "p \<in> {''vec_param'', ''K'', ''EF''} \<Longrightarrow> \<not> named_at k p"
proof
  assume p: "p \<in> {''vec_param'', ''K'', ''EF''}" and "named_at k p"
  then have us: "CHR ''_'' \<in> set p" unfolding named_at_def param_name_def by fastforce
  with p have vec: "p = ''vec'' @ CHR ''_'' # ''param''" by auto
  from \<open>named_at k p\<close> show False
  proof (cases rule: named_at_tail)
    case (1 f)
    with vec have "''vec'' @ CHR ''_'' # ''param'' = f @ CHR ''_'' # nat_str k" by (simp add: param_name_def)
    from split_at_last(2) [OF this _ param_name_split(2)] have "nat_str k = ''param''" by simp
    moreover have "nat_str k \<noteq> ''param''" by (rule letters_not_digits) (simp_all add: is_digit_def byte_def)
    ultimately show False by blast
  next
    case (2 f t)
    with vec have "''vec'' @ CHR ''_'' # ''param'' = param_name f k @ CHR ''_'' # t" by simp
    from split_at_last(2) [OF this _ tail_facts(1) [OF 2(2)]] 2(2) show False by (auto simp: name_tails_def)
  qed
qed

section \<open>Properties\<close>


text \<open>A range under an exclusive and an inclusive bound, in a dataset that also has an unfiltered query.\<close>

definition demo_condition :: json where
  "demo_condition = Object [(''and'', Array [Object [(''price'', Object [(''range'',
     Object [(''gt'', Number (PosInt 3)), (''lte'', Number (PosInt 9))])])]])]"

lemma demo_supported: "filter_supported dt demo_condition"
  by (simp add: filter_supported_def demo_condition_def condition_supported.simps is_group_def group_entries_def
      leaf_supported_def range_keys_def number_param_def)

lemma demo_parse:
  "parse_conditions dt demo_condition = Some (''(@price:[($price_0_gt $price_0_lte])'',
     [(''price_0_gt'', Int_Param 3), (''price_0_lte'', Int_Param 9)])"
proof -
  have "nat_str 0 = ''0''" by code_simp
  moreover have "range_bounds dt ''price_0'' (Object [(''gt'', Number (PosInt 3)), (''lte'', Number (PosInt 9))]) range_keys [] [] =
      ([(''price_0_gt'', Int_Param 3), (''price_0_lte'', Int_Param 9)],
       [\<lparr>bound_parameter = ''price_0_gt'', bound_operator = Op_Gt\<rparr>,
        \<lparr>bound_parameter = ''price_0_lte'', bound_operator = Op_Lte\<rparr>])"
    by (simp add: range_keys_def insert_number_param_def number_param_def bind_param_def Let_def)
  ultimately show ?thesis
    by (simp add: parse_conditions_def demo_condition_def build_group.simps build_subfilters.simps group_entries_def
        is_group_def build_filter_def build_range_filter_def param_name_def render_range_def or_default_def
        List.map_filter_simps build_condition_def bind_param_def)
qed


definition filter_params :: "parsed_filter option \<Rightarrow> (string \<times> filter_param) list" where
  "filter_params flt = (case flt of Some (_, ps) \<Rightarrow> ps | None \<Rightarrow> [])"

lemma command_params:
  assumes "distinct (map fst (filter_params flt))" and "{''vec_param'', ''K'', ''EF''} \<inter> fst ` set (filter_params flt) = {}"
    and "mset (hash_order (filter_params flt)) = mset (filter_params flt)"
  shows "\<exists>head names vals. build_ft_search_cmd upper hash_order idx vec_bytes q topn ef algorithm policy timeout flt =
      head @ [Text_Arg ''PARAMS'', Int_Arg (2 * int (length names))] @ concat (map2 (\<lambda>n v. [Text_Arg n, v]) names vals) \<and>
    length vals = length names \<and> distinct names \<and>
    set names = {''vec_param'', ''K''} \<union> (if knn_conditions upper algorithm policy = [] then {} else {''EF''}) \<union>
      fst ` set (filter_params flt)"
proof -
  let ?ps = "hash_order (filter_params flt)"
  let ?ef = "if binds_ef upper algorithm policy then [(''EF'', Text_Arg (int_str ef))] else []"
  define bs where "bs = [(''vec_param'', Text_Arg vec_bytes), (''K'', Text_Arg (nat_str topn))] @ ?ef @
    map (\<lambda>(n, v). (n, param_arg v)) ?ps"
  have "mset (map fst ?ps) = mset (map fst (filter_params flt))" using assms(3) by (simp add: mset_map)
  then have ps: "set (map fst ?ps) = fst ` set (filter_params flt)" "distinct (map fst ?ps)" "length ?ps = length (filter_params flt)"
    using assms(1,3) by (metis list.set_map mset_eq_setD, metis mset_eq_imp_distinct_iff, metis size_mset)
  have fst: "map fst bs = [''vec_param'', ''K''] @ map fst ?ef @ map fst ?ps"
    by (simp add: bs_def comp_def case_prod_unfold)
  have cc: "concat (map2 (\<lambda>n v. [Text_Arg n, v]) (map fst bs) (map snd bs)) = concat (map (\<lambda>(n, v). [Text_Arg n, v]) bs)"
    by (simp add: zip_map_fst_snd)
  have "build_ft_search_cmd upper hash_order idx vec_bytes q topn ef algorithm policy timeout flt =
      (map Text_Arg [''FT.SEARCH'', idx, q, ''SORTBY'', ''vector_score'',
         ''ASC'', ''LIMIT''] @ [Int_Arg 0, Int_Arg (int topn), Text_Arg ''RETURN'', Int_Arg 1, Text_Arg ''vector_score'',
         Text_Arg ''DIALECT'', Int_Arg 4, Text_Arg ''TIMEOUT'', Int_Arg timeout]) @
      [Text_Arg ''PARAMS'', Int_Arg (2 * int (length (map fst bs)))] @
      concat (map2 (\<lambda>n v. [Text_Arg n, v]) (map fst bs) (map snd bs))"
    unfolding cc using ps(3)
    by (simp add: build_ft_search_cmd_def Let_def bs_def comp_def case_prod_unfold filter_params_def)
  moreover have "distinct (map fst bs)" "set (map fst bs) = {''vec_param'', ''K''} \<union>
      (if knn_conditions upper algorithm policy = [] then {} else {''EF''}) \<union> fst ` set (filter_params flt)"
    unfolding fst using ps assms(2) by (auto simp: binds_ef_iff)
  ultimately show ?thesis by (metis (no_types, lifting) length_map)
qed



lemma three_bound_iff:
  assumes "x \<noteq> y" "x \<noteq> z" "y \<noteq> z"
  shows "{x, y, z} = fst ` set (insert_number_param dt (insert_number_param dt (insert_number_param dt [] x a) y b) z r) \<longleftrightarrow>
    number_param dt a \<noteq> None \<and> number_param dt b \<noteq> None \<and> number_param dt r \<noteq> None"
  using assms
  by (cases "number_param dt a"; cases "number_param dt b"; cases "number_param dt r")
    (auto simp: insert_number_param_def bind_param_def)

text \<open>
  C39: which geo filters are sent with an unbound parameter.  Once \<open>lon\<close>, \<open>lat\<close> and \<open>radius\<close> are present, the
  builder always returns a clause over three parameters, but binds only those whose value converts to a
  number: the clause is closed exactly when all three convert.
\<close>

theorem geo_parameters_bound_iff:
  assumes "jget ''lon'' criteria = Some a" and "jget ''lat'' criteria = Some b" and "jget ''radius'' criteria = Some r"
  shows "\<exists>q ps e. fst (build_geo_filter dt field criteria c) = Some (q, ps) \<and> q = show_query e \<and>
    (refs e = fst ` set ps \<longleftrightarrow> number_param dt a \<noteq> None \<and> number_param dt b \<noteq> None \<and> number_param dt r \<noteq> None)"
proof -
  let ?p = "param_name field c"
  let ?e = "Geo_Within field (?p @ ''_lon'') (?p @ ''_lat'') (?p @ ''_radius'')"
  let ?ps = "insert_number_param dt (insert_number_param dt (insert_number_param dt [] (?p @ ''_lon'') a)
    (?p @ ''_lat'') b) (?p @ ''_radius'') r"
  have "fst (build_geo_filter dt field criteria c) = Some (show_query ?e, ?ps)"
    using assms by (simp add: build_geo_filter_def Let_def)
  moreover have "refs ?e = fst ` set ?ps \<longleftrightarrow> number_param dt a \<noteq> None \<and> number_param dt b \<noteq> None \<and> number_param dt r \<noteq> None"
    unfolding refs.simps by (rule three_bound_iff) simp_all
  ultimately show ?thesis by blast
qed

theorem geo_parameters_bound_iff_witness:
  "\<exists>q ps e. fst (build_geo_filter (\<lambda>_. None) ''loc''
       (Object [(''lon'', Bool True), (''lat'', Number (PosInt 1)), (''radius'', Number (PosInt 2))]) 0) = Some (q, ps) \<and>
     q = show_query e \<and> refs e \<noteq> fst ` set ps"
  using geo_parameters_bound_iff [of "Object [(''lon'', Bool True), (''lat'', Number (PosInt 1)), (''radius'', Number (PosInt 2))]"
      "Bool True" "Number (PosInt 1)" "Number (PosInt 2)" "\<lambda>_. None" "''loc''" 0]
  by (auto simp: number_param_def)

end
