(* ===== verification/Text_Match.thy ===== *)
theory Text_Match
  imports Prelude Text "HOL-Library.List_Lexorder" "HOL-Library.Char_ord" "HOL-Library.Product_Lexorder"
begin

text \<open>
  Full-text matching on which two engines agree, \<open>src/src/msmarco/text_match.rs\<close>: the classification of a
  document for a term as \<open>Yes\<close>, \<open>No\<close> or \<open>Ambiguous\<close>, the raw term counter and the choice of a term for a
  target frequency.

  A text is its UTF-8 bytes; the source iterates over its \<open>char\<close>s, here the list of code points.  The hash
  maps are association lists.  The corpus scan that confirms a term is a parameter, as in the source.
\<close>

section \<open>Characters\<close>

fun points :: "nat list \<Rightarrow> nat list" where
  "points [] = []"
| "points (a # r) =
     (if a < 128 then a # points r
      else if a < 224 then
        (case r of b # r1 \<Rightarrow> ((a mod 32) * 64 + b mod 64) # points r1 | _ \<Rightarrow> [])
      else if a < 240 then
        (case r of b # c # r1 \<Rightarrow> ((a mod 16) * 4096 + (b mod 64) * 64 + c mod 64) # points r1 | _ \<Rightarrow> [])
      else
        (case r of b # c # d # r1 \<Rightarrow>
           ((a mod 8) * 262144 + (b mod 64) * 4096 + (c mod 64) * 64 + d mod 64) # points r1 | _ \<Rightarrow> []))"

definition chars :: "string \<Rightarrow> nat list" where
  "chars s = points (map byte s)"

definition cp_alpha :: "nat \<Rightarrow> bool" where
  "cp_alpha c \<longleftrightarrow> (65 \<le> c \<and> c \<le> 90) \<or> (97 \<le> c \<and> c \<le> 122)"

definition cp_alnum :: "nat \<Rightarrow> bool" where
  "cp_alnum c \<longleftrightarrow> (48 \<le> c \<and> c \<le> 57) \<or> cp_alpha c"

definition cp_lower :: "nat \<Rightarrow> nat" where
  "cp_lower c = (if 65 \<le> c \<and> c \<le> 90 then c + 32 else c)"

definition cp_is :: "char \<Rightarrow> nat \<Rightarrow> bool" where
  "cp_is x c \<longleftrightarrow> c = byte x"

definition cp_in :: "string \<Rightarrow> nat \<Rightarrow> bool" where
  "cp_in s c \<longleftrightarrow> c \<in> set (map byte s)"

section \<open>The rules\<close>

definition REDIS_STOPWORDS :: "string list" where
  "REDIS_STOPWORDS =
     [''a'', ''is'', ''the'', ''an'', ''and'', ''are'', ''as'', ''at'', ''be'', ''but'', ''by'', ''for'', ''if'', ''in'',
      ''into'', ''it'', ''no'', ''not'', ''of'', ''on'', ''or'', ''such'', ''that'', ''their'', ''then'', ''there'', ''these'',
      ''they'', ''this'', ''to'', ''was'', ''will'', ''with'']"

definition SAFE_SEPARATORS :: string where
  "SAFE_SEPARATORS = '',<>{}[]'' @ [CHR 0x22] @ '';!@#$%^&*()-+=~''"

definition MID_SEPARATORS :: string where
  "MID_SEPARATORS = ''.'' @ [CHR 0x27] @ '':''"

definition MIN_TERM_LEN :: nat where
  "MIN_TERM_LEN = 3"

definition MAX_TERM_LEN :: nat where
  "MAX_TERM_LEN = 64"

definition LUCENE_MAX_TOKEN_LEN :: nat where
  "LUCENE_MAX_TOKEN_LEN = 255"

datatype text_match = Yes | No | Ambiguous

fun tm_or :: "text_match \<Rightarrow> text_match \<Rightarrow> text_match" where
  "tm_or Yes _ = Yes"
| "tm_or _ Yes = Yes"
| "tm_or Ambiguous _ = Ambiguous"
| "tm_or _ Ambiguous = Ambiguous"
| "tm_or No No = No"

datatype term_refusal = Not_A_Word string | Stopword string

definition validate_term :: "string \<Rightarrow> term_refusal + unit" where
  "validate_term t =
     (if \<not> (MIN_TERM_LEN \<le> length t \<and> length t \<le> MAX_TERM_LEN) \<or> \<not> list_all is_lower t then Inl (Not_A_Word t)
      else if t \<in> set REDIS_STOPWORDS then Inl (Stopword t)
      else Inr ())"

definition is_safe :: "nat \<Rightarrow> bool" where
  "is_safe c \<longleftrightarrow> cp_is CHR '' '' c \<or> cp_in SAFE_SEPARATORS c"

datatype side = Boundary | Joined | Unknown_Side

definition at_point :: "nat list \<Rightarrow> int \<Rightarrow> nat option" where
  "at_point cs j = (if j < 0 \<or> nat j \<ge> length cs then None else Some (cs ! nat j))"

definition side :: "nat list \<Rightarrow> int \<Rightarrow> int \<Rightarrow> side" where
  "side cs i step = (case at_point cs i of
       None \<Rightarrow> Boundary
     | Some c \<Rightarrow>
         if cp_is CHR ''_'' c then Joined
         else if is_safe c then
           (if step < 0 \<and> \<not> cp_is CHR '' '' c \<and> at_point cs (i - 1) = Some (byte CHR 0x5C) then Unknown_Side
            else Boundary)
         else if cp_in MID_SEPARATORS c then
           (case at_point cs (i + step) of
              None \<Rightarrow> Boundary
            | Some d \<Rightarrow> if is_safe d then Boundary else Unknown_Side)
         else Unknown_Side)"

function run_end :: "nat list \<Rightarrow> nat \<Rightarrow> nat" where
  "run_end cs i = (if i < length cs \<and> cp_alnum (cs ! i) then run_end cs (i + 1) else i)"
  by pat_completeness auto
termination by (relation "measure (\<lambda>(cs, i). length cs - i)") auto

declare run_end.simps [simp del]

lemma run_end_bounds: "i \<le> length cs \<Longrightarrow> i \<le> run_end cs i \<and> run_end cs i \<le> length cs"
proof (induction cs i rule: run_end.induct)
  case (1 cs i)
  then show ?case by (subst (1 2) run_end.simps) auto
qed

lemma run_end_step: "i < length cs \<Longrightarrow> cp_alnum (cs ! i) \<Longrightarrow> i < run_end cs i"
  using run_end_bounds [of "i + 1" cs] by (subst run_end.simps) auto

function ascii_runs_from :: "nat list \<Rightarrow> nat \<Rightarrow> (nat \<times> nat) list" where
  "ascii_runs_from cs i =
     (if i < length cs then
        if cp_alnum (cs ! i) then (i, run_end cs i) # ascii_runs_from cs (run_end cs i)
        else ascii_runs_from cs (i + 1)
      else [])"
  by pat_completeness auto
termination
  by (relation "measure (\<lambda>(cs, i). length cs - i)") (auto dest: run_end_step intro: diff_less_mono2)

declare ascii_runs_from.simps [simp del]

definition ascii_runs :: "nat list \<Rightarrow> (nat \<times> nat) list" where
  "ascii_runs cs = ascii_runs_from cs 0"

definition slice :: "nat list \<Rightarrow> nat \<times> nat \<Rightarrow> nat list" where
  "slice cs r = take (snd r - fst r) (drop (fst r) cs)"

definition lower_run :: "nat list \<Rightarrow> nat \<times> nat \<Rightarrow> string" where
  "lower_run cs r = map (\<lambda>c. char_of (cp_lower c)) (slice cs r)"

definition LATIN :: "string list" where
  "LATIN =
     [''a'', ''a'', ''a'', ''a'', ''a'', ''a'', ''ae'', ''c'', ''e'', ''e'', ''e'', ''e'', ''i'', ''i'', ''i'', ''i'',
      ''d'', ''n'', ''o'', ''o'', ''o'', ''o'', ''o'', [], ''o'', ''u'', ''u'', ''u'', ''u'', ''y'', ''th'', ''ss'',
      ''a'', ''a'', ''a'', ''a'', ''a'', ''a'', ''ae'', ''c'', ''e'', ''e'', ''e'', ''e'', ''i'', ''i'', ''i'', ''i'',
      ''d'', ''n'', ''o'', ''o'', ''o'', ''o'', ''o'', [], ''o'', ''u'', ''u'', ''u'', ''u'', ''y'', ''th'', ''y'',
      ''a'', ''a'', ''a'', ''a'', ''a'', ''a'', ''c'', ''c'', ''c'', ''c'', ''c'', ''c'', ''c'', ''c'', ''d'', ''d'',
      ''d'', ''d'', ''e'', ''e'', ''e'', ''e'', ''e'', ''e'', ''e'', ''e'', ''e'', ''e'', ''g'', ''g'', ''g'', ''g'',
      ''g'', ''g'', ''g'', ''g'', ''h'', ''h'', ''h'', ''h'', ''i'', ''i'', ''i'', ''i'', ''i'', ''i'', ''i'', ''i'',
      ''i'', ''i'', ''ij'', ''ij'', ''j'', ''j'', ''k'', ''k'', ''k'', ''l'', ''l'', ''l'', ''l'', ''l'', ''l'', ''l'',
      ''l'', ''l'', ''l'', ''n'', ''n'', ''n'', ''n'', ''n'', ''n'', ''n'', ''n'', ''n'', ''o'', ''o'', ''o'', ''o'',
      ''o'', ''o'', ''oe'', ''oe'', ''r'', ''r'', ''r'', ''r'', ''r'', ''r'', ''s'', ''s'', ''s'', ''s'', ''s'', ''s'',
      ''s'', ''s'', ''t'', ''t'', ''t'', ''t'', ''t'', ''t'', ''u'', ''u'', ''u'', ''u'', ''u'', ''u'', ''u'', ''u'',
      ''u'', ''u'', ''u'', ''u'', ''w'', ''w'', ''y'', ''y'', ''y'', ''z'', ''z'', ''z'', ''z'', ''z'', ''z'', ''s'']"

definition ascii_fold :: "nat \<Rightarrow> string option" where
  "ascii_fold c =
     (if 192 \<le> c \<and> c < 384 then (let s = LATIN ! (c - 192) in if s = [] then None else Some s)
      else if c = 0x1E9E then Some ''ss''
      else if c = 0x212A then Some ''k''
      else if c = 0xFB00 then Some ''ff''
      else if c = 0xFB01 then Some ''fi''
      else if c = 0xFB02 then Some ''fl''
      else if c = 0xFB03 then Some ''ffi''
      else if c = 0xFB04 then Some ''ffl''
      else if c = 0xFB05 \<or> c = 0xFB06 then Some ''st''
      else None)"

text \<open>Most characters are below the table.\<close>

definition ascii_fold_above :: "nat \<Rightarrow> string option" where
  "ascii_fold_above c = ascii_fold c"

lemma ascii_fold_code [code]: "ascii_fold c = (if c < 192 then None else ascii_fold_above c)"
  by (auto simp: ascii_fold_above_def ascii_fold_def)

lemmas ascii_fold_above_code [code] = ascii_fold_above_def [unfolded ascii_fold_def]

definition same_run :: "nat list \<Rightarrow> string \<Rightarrow> nat \<times> nat \<Rightarrow> bool" where
  "same_run cs t r \<longleftrightarrow> snd r - fst r = length t \<and>
     list_all (\<lambda>(a, b). cp_lower a = b) (zip (slice cs r) (chars t))"

definition run_sides :: "nat list \<Rightarrow> nat \<times> nat \<Rightarrow> text_match" where
  "run_sides cs r = (case (side cs (int (fst r) - 1) (- 1), side cs (int (snd r)) 1) of
       (Joined, _) \<Rightarrow> No
     | (_, Joined) \<Rightarrow> No
     | (Boundary, Boundary) \<Rightarrow> Yes
     | _ \<Rightarrow> Ambiguous)"

definition classify_step :: "nat list \<Rightarrow> string \<Rightarrow> text_match \<Rightarrow> nat \<times> nat \<Rightarrow> text_match" where
  "classify_step cs t verdict r =
     (if snd r - fst r > LUCENE_MAX_TOKEN_LEN
      then (if contains (lower_run cs r) t then tm_or verdict Ambiguous else verdict)
      else if \<not> same_run cs t r then verdict
      else tm_or verdict (run_sides cs r))"

definition classify_runs :: "nat list \<Rightarrow> string \<Rightarrow> text_match" where
  "classify_runs cs t = foldl (classify_step cs t) No (ascii_runs cs)"

definition folds :: "nat \<Rightarrow> bool" where
  "folds c \<longleftrightarrow> \<not> Option.is_none (ascii_fold c)"

definition fold_char :: "nat \<Rightarrow> string" where
  "fold_char c = (if c < 128 then [char_of (cp_lower c)]
     else case ascii_fold c of Some s \<Rightarrow> s | None \<Rightarrow> [CHR 0x00])"

definition fold_text :: "nat list \<Rightarrow> string" where
  "fold_text cs = concat (map fold_char cs)"

definition folded_could_spell :: "nat list \<Rightarrow> string \<Rightarrow> bool" where
  "folded_could_spell cs t \<longleftrightarrow>
     list_ex folds cs \<and> t \<in> set (split_by (\<lambda>c. \<not> is_alnum c) (fold_text cs))"

definition classify :: "string \<Rightarrow> string \<Rightarrow> text_match" where
  "classify txt t =
     (if \<not> is_ok (validate_term t) then Ambiguous
      else let cs = chars txt in
        case classify_runs cs t of
          Yes \<Rightarrow> Yes
        | raw \<Rightarrow> if folded_could_spell cs t then Ambiguous else raw)"

section \<open>Counting and choosing terms\<close>

record term_counter =
  counts :: "(string \<times> nat \<times> nat) list"
  docs_counted :: nat

definition counter_new :: term_counter where
  "counter_new = \<lparr>counts = [], docs_counted = 0\<rparr>"

definition candidate_run :: "nat list \<Rightarrow> nat \<times> nat \<Rightarrow> bool" where
  "candidate_run cs r \<longleftrightarrow> MIN_TERM_LEN \<le> snd r - fst r \<and> snd r - fst r \<le> MAX_TERM_LEN \<and> list_all cp_alpha (slice cs r)"

definition doc_terms :: "nat list \<Rightarrow> (string \<times> text_match) list" where
  "doc_terms cs = foldl (\<lambda>seen r.
     if \<not> candidate_run cs r then seen
     else let t = lower_run cs r in
       if t \<in> fst ` set seen then seen else seen @ [(t, classify_runs cs t)]) [] (ascii_runs cs)"

fun bump :: "text_match \<Rightarrow> nat \<times> nat \<Rightarrow> nat \<times> nat" where
  "bump Yes (y, a) = (y + 1, a)"
| "bump Ambiguous (y, a) = (y, a + 1)"
| "bump No e = e"

fun count_term :: "(string \<times> nat \<times> nat) list \<Rightarrow> string \<times> text_match \<Rightarrow> (string \<times> nat \<times> nat) list" where
  "count_term [] (t, m) = [(t, bump m (0, 0))]"
| "count_term ((u, e) # es) (t, m) = (if u = t then (u, bump m e) # es else (u, e) # count_term es (t, m))"

definition add_doc :: "term_counter \<Rightarrow> string \<Rightarrow> term_counter" where
  "add_doc c txt = c\<lparr>docs_counted := docs_counted c + 1, counts := foldl count_term (counts c) (doc_terms (chars txt))\<rparr>"

definition candidates :: "term_counter \<Rightarrow> (nat \<times> string) list" where
  "candidates c = map (\<lambda>(t, yes, _). (yes, t))
     (filter (\<lambda>(t, yes, amb). yes > 0 \<and> amb = 0 \<and> is_ok (validate_term t)) (counts c))"

datatype 'e term_error =
    Scan_Error 'e
  | Different_Corpora string nat nat
  | No_Term nat nat

fun confirm :: "(string \<Rightarrow> 'e + nat \<times> nat) \<Rightarrow> nat \<Rightarrow> nat \<Rightarrow> (nat \<times> string) list \<Rightarrow> 'e term_error + string \<times> nat" where
  "confirm scan target n [] = Inl (No_Term target n)"
| "confirm scan target n ((raw_yes, t) # cs) =
     rbind (map_err Scan_Error (scan t)) (\<lambda>(yes, amb).
       if yes \<noteq> raw_yes then Inl (Different_Corpora t yes raw_yes)
       else if amb = 0 then Inr (t, yes)
       else confirm scan target n cs)"

definition choose_term ::
    "term_counter \<Rightarrow> nat \<Rightarrow> string list \<Rightarrow> (string \<Rightarrow> 'e + nat \<times> nat) \<Rightarrow> 'e term_error + string \<times> nat" where
  "choose_term c target excluded scan =
     confirm scan target (docs_counted c)
       (sort_key (\<lambda>(yes, t). (abs_diff yes target, t)) (filter (\<lambda>(_, t). t \<notin> set excluded) (candidates c)))"


section \<open>Whole runs\<close>

definition whole_run :: "nat list \<Rightarrow> nat \<times> nat \<Rightarrow> bool" where
  "whole_run cs r \<longleftrightarrow> fst r < snd r \<and> snd r \<le> length cs \<and> (\<forall>j. fst r \<le> j \<and> j < snd r \<longrightarrow> cp_alnum (cs ! j)) \<and>
     (fst r = 0 \<or> \<not> cp_alnum (cs ! (fst r - 1))) \<and> (snd r = length cs \<or> \<not> cp_alnum (cs ! snd r))"

lemma run_end_alnum: "i \<le> j \<Longrightarrow> j < run_end cs i \<Longrightarrow> cp_alnum (cs ! j)"
proof (induction cs i rule: run_end.induct)
  case (1 cs i)
  show ?case
  proof (cases "i < length cs \<and> cp_alnum (cs ! i)")
    case True
    with 1 show ?thesis by (cases "i = j") (simp_all add: run_end.simps [of cs i])
  next
    case False
    with 1(2,3) show ?thesis by (subst (asm) run_end.simps) auto
  qed
qed

lemma run_end_stops: "run_end cs i < length cs \<Longrightarrow> \<not> cp_alnum (cs ! run_end cs i)"
proof (induction cs i rule: run_end.induct)
  case (1 cs i)
  then show ?case by (cases "i < length cs \<and> cp_alnum (cs ! i)") (simp_all add: run_end.simps [of cs i])
qed

lemma run_end_eqI:
  assumes "whole_run cs r"
  shows "run_end cs (fst r) = snd r"
proof (rule antisym)
  from assms have r: "fst r < snd r" "snd r \<le> length cs" by (auto simp: whole_run_def)
  note b = run_end_bounds [of "fst r" cs]
  show "run_end cs (fst r) \<le> snd r"
  proof (rule ccontr)
    assume "\<not> ?thesis"
    then have "cp_alnum (cs ! snd r)" "snd r < length cs" using r b run_end_alnum [of "fst r" "snd r" cs] by auto
    with assms show False by (auto simp: whole_run_def)
  qed
  show "snd r \<le> run_end cs (fst r)"
  proof (rule ccontr)
    assume "\<not> ?thesis"
    then have "run_end cs (fst r) < snd r" "fst r \<le> run_end cs (fst r)" using r b by auto
    with assms run_end_stops [of cs "fst r"] show False by (auto simp: whole_run_def)
  qed
qed

lemma ascii_runs_from_sound:
  assumes "r \<in> set (ascii_runs_from cs i)" and "i = 0 \<or> \<not> cp_alnum (cs ! (i - 1)) \<or> i \<ge> length cs \<or> \<not> cp_alnum (cs ! i)"
  shows "whole_run cs r"
  using assms
proof (induction cs i rule: ascii_runs_from.induct)
  case (1 cs i)
  show ?case
  proof (cases "i < length cs \<and> cp_alnum (cs ! i)")
    case True
    have "whole_run cs (i, run_end cs i)"
      using True 1(4) run_end_step [of i cs] run_end_bounds [of i cs] run_end_alnum [of i _ cs] run_end_stops [of cs i]
      by (auto simp: whole_run_def)
    moreover have "run_end cs i = 0 \<or> \<not> cp_alnum (cs ! (run_end cs i - 1)) \<or> run_end cs i \<ge> length cs \<or>
        \<not> cp_alnum (cs ! run_end cs i)" using run_end_stops [of cs i] by linarith
    ultimately show ?thesis using True 1(1) 1(3) by (subst (asm) ascii_runs_from.simps) auto
  next
    case False
    with 1(2,3,4) show ?thesis by (subst (asm) ascii_runs_from.simps) (auto split: if_splits)
  qed
qed

lemma ascii_runs_from_complete: "whole_run cs r \<Longrightarrow> i \<le> fst r \<Longrightarrow> r \<in> set (ascii_runs_from cs i)"
proof (induction cs i rule: ascii_runs_from.induct)
  case (1 cs i)
  then have i: "i < length cs" by (auto simp: whole_run_def)
  show ?case
  proof (cases "cp_alnum (cs ! i)")
    case True
    show ?thesis
    proof (cases "i = fst r")
      case True
      then have "r = (i, run_end cs i)" using run_end_eqI [OF 1(3)] by (simp add: prod_eq_iff)
      with \<open>cp_alnum (cs ! i)\<close> i show ?thesis by (subst ascii_runs_from.simps) auto
    next
      case False
      with 1(4) have "i < fst r" by simp
      moreover from this 1(3) have "\<not> cp_alnum (cs ! (fst r - 1))" by (auto simp: whole_run_def)
      ultimately have "\<not> fst r - 1 < run_end cs i" using run_end_alnum [of i "fst r - 1" cs] by fastforce
      then have "run_end cs i \<le> fst r" by linarith
      with True i 1(1,3) show ?thesis by (subst ascii_runs_from.simps) auto
    qed
  next
    case False
    then have "i \<noteq> fst r" using 1(3) by (auto simp: whole_run_def)
    with False i 1(2,3,4) show ?thesis by (subst ascii_runs_from.simps) auto
  qed
qed

lemma ascii_runs_iff: "r \<in> set (ascii_runs cs) \<longleftrightarrow> whole_run cs r"
  unfolding ascii_runs_def using ascii_runs_from_sound ascii_runs_from_complete by fastforce

section \<open>The verdict of a document\<close>

lemma tm_or_Yes_iff [simp]: "tm_or a b = Yes \<longleftrightarrow> a = Yes \<or> b = Yes"
  by (cases a; cases b) simp_all

lemma tm_or_No_iff [simp]: "tm_or a b = No \<longleftrightarrow> a = No \<and> b = No"
  by (cases a; cases b) simp_all

lemma classify_step_or: "classify_step cs t v r = tm_or v (classify_step cs t No r)"
  by (cases v; cases "run_sides cs r") (simp_all add: classify_step_def)

lemma foldl_classify_Yes:
  "foldl (classify_step cs t) v rs = Yes \<longleftrightarrow> v = Yes \<or> (\<exists>r \<in> set rs. classify_step cs t No r = Yes)"
proof (induction rs arbitrary: v)
  case (Cons r rs)
  then show ?case using classify_step_or [of cs t v r] by (cases "classify_step cs t No r = Yes") simp_all
qed simp

lemma foldl_classify_No:
  "foldl (classify_step cs t) v rs = No \<longleftrightarrow> v = No \<and> (\<forall>r \<in> set rs. classify_step cs t No r = No)"
proof (induction rs arbitrary: v)
  case (Cons r rs)
  then show ?case using classify_step_or [of cs t v r] by (cases "classify_step cs t No r = No") simp_all
qed simp

lemma classify_step_Yes_iff:
  "classify_step cs t No r = Yes \<longleftrightarrow>
     snd r - fst r \<le> LUCENE_MAX_TOKEN_LEN \<and> same_run cs t r \<and> run_sides cs r = Yes"
  by (cases "run_sides cs r") (auto simp: classify_step_def)

lemma classify_runs_Yes_iff:
  "classify_runs cs t = Yes \<longleftrightarrow>
     (\<exists>r. whole_run cs r \<and> snd r - fst r \<le> LUCENE_MAX_TOKEN_LEN \<and> same_run cs t r \<and> run_sides cs r = Yes)"
  unfolding classify_runs_def foldl_classify_Yes classify_step_Yes_iff Bex_def ascii_runs_iff by blast

lemma run_sides_Yes_iff:
  "run_sides cs r = Yes \<longleftrightarrow> side cs (int (fst r) - 1) (- 1) = Boundary \<and> side cs (int (snd r)) 1 = Boundary"
  by (auto simp: run_sides_def split: side.splits)

lemma classify_Yes_iff: "classify txt t = Yes \<longleftrightarrow> is_ok (validate_term t) \<and> classify_runs (chars txt) t = Yes"
  by (auto simp: classify_def Let_def split: text_match.splits)

lemma classify_Ambiguous_raw:
  "is_ok (validate_term t) \<Longrightarrow> classify_runs (chars txt) t = Ambiguous \<Longrightarrow> classify txt t = Ambiguous"
  by (simp add: classify_def)


section \<open>What the counter holds\<close>

definition terms_of :: "nat list \<Rightarrow> string set" where
  "terms_of cs = {lower_run cs r | r. whole_run cs r \<and> candidate_run cs r}"

lemma map_of_snoc: "t \<notin> fst ` set es \<Longrightarrow> map_of (es @ [(t, v)]) = (map_of es)(t \<mapsto> v)"
  by (auto simp: map_add_def fun_eq_iff split: option.splits dest: map_of_SomeD intro: rev_image_eqI)

lemma doc_terms_foldl:
  fixes cs P seen
  defines "f \<equiv> \<lambda>seen r. if \<not> P r then seen else let t = lower_run cs r in
       if t \<in> fst ` set seen then seen else seen @ [(t, classify_runs cs t)]"
  assumes "\<And>t m. map_of seen t = Some m \<Longrightarrow> m = classify_runs cs t" and "distinct (map fst seen)"
  shows "map_of (foldl f seen rs) t =
      (if t \<in> fst ` set seen \<or> (\<exists>r \<in> set rs. P r \<and> t = lower_run cs r) then Some (classify_runs cs t) else None) \<and>
    distinct (map fst (foldl f seen rs))"
  using assms(2,3)
proof (induction rs arbitrary: seen)
  case Nil
  then show ?case by (auto simp: map_of_eq_None_iff dest: map_of_is_SomeI)
next
  case (Cons r rs)
  let ?s = "f seen r"
  have "map_of ?s u = Some m \<Longrightarrow> m = classify_runs cs u" for u m
    using Cons(2) by (auto simp: f_def Let_def map_of_snoc split: if_splits)
  moreover have "distinct (map fst ?s)" using Cons(3) by (auto simp: f_def Let_def)
  moreover have "t \<in> fst ` set ?s \<longleftrightarrow> t \<in> fst ` set seen \<or> P r \<and> t = lower_run cs r" by (auto simp: f_def Let_def)
  ultimately show ?case using Cons(1) [of ?s] by auto
qed

lemma map_of_doc_terms: "map_of (doc_terms cs) t = (if t \<in> terms_of cs then Some (classify_runs cs t) else None)"
  and distinct_doc_terms: "distinct (map fst (doc_terms cs))"
proof -
  note * = doc_terms_foldl [of "[]" cs "candidate_run cs" "ascii_runs cs", folded doc_terms_def]
  show "map_of (doc_terms cs) t = (if t \<in> terms_of cs then Some (classify_runs cs t) else None)"
    using * [of t] by (auto simp: terms_of_def Bex_def ascii_runs_iff)
  show "distinct (map fst (doc_terms cs))"
    using * [of t] by simp
qed

lemma map_of_count_term:
  "map_of (count_term es (t, m)) u =
     (if u = t then Some (bump m (case map_of es t of Some e \<Rightarrow> e | None \<Rightarrow> (0, 0))) else map_of es u)"
  by (induction es "(t, m)" rule: count_term.induct) auto

lemma set_count_term: "fst ` set (count_term es (t, m)) = insert t (fst ` set es)"
  by (induction es "(t, m)" rule: count_term.induct) auto

lemma distinct_count_term: "distinct (map fst es) \<Longrightarrow> distinct (map fst (count_term es (t, m)))"
  by (induction es "(t, m)" rule: count_term.induct) (simp_all add: set_count_term, fast)

lemma foldl_count_term:
  assumes "distinct (map fst ts)"
  shows "map_of (foldl count_term es ts) u = (case map_of ts u of
      None \<Rightarrow> map_of es u
    | Some m \<Rightarrow> Some (bump m (case map_of es u of Some e \<Rightarrow> e | None \<Rightarrow> (0, 0))))"
  using assms
proof (induction ts arbitrary: es)
  case (Cons p ts)
  obtain t m where p: "p = (t, m)" by force
  with Cons(2) have "map_of ts t = None" by (auto simp: map_of_eq_None_iff)
  with Cons p show ?case by (auto simp: map_of_count_term split: option.splits)
qed simp

lemma distinct_foldl_count_term: "distinct (map fst es) \<Longrightarrow> distinct (map fst (foldl count_term es ts))"
proof (induction ts arbitrary: es)
  case (Cons p ts)
  then show ?case by (cases p) (simp add: distinct_count_term)
qed simp

definition raw_count :: "text_match \<Rightarrow> string \<Rightarrow> string list \<Rightarrow> nat" where
  "raw_count m t ds = length (filter (\<lambda>d. t \<in> terms_of (chars d) \<and> classify_runs (chars d) t = m) ds)"

lemma counter_counts:
  "map_of (counts (foldl add_doc counter_new ds)) t =
     (if \<exists>d \<in> set ds. t \<in> terms_of (chars d) then Some (raw_count Yes t ds, raw_count Ambiguous t ds) else None) \<and>
   distinct (map fst (counts (foldl add_doc counter_new ds)))"
proof (induction ds rule: rev_induct)
  case (snoc d ds)
  then show ?case
    by (cases "classify_runs (chars d) t")
      (auto simp: add_doc_def foldl_count_term [OF distinct_doc_terms] map_of_doc_terms distinct_foldl_count_term raw_count_def)
qed (simp add: counter_new_def)


section \<open>The raw view and the full classification\<close>

lemma points_ascii: "list_all (\<lambda>b. b < 128) bs \<Longrightarrow> points bs = bs"
  by (induction bs) auto

lemma valid_term_chars: "is_ok (validate_term t) \<Longrightarrow> chars t = map byte t"
  by (fastforce simp: validate_term_def chars_def is_lower_def list_all_iff split: if_splits intro!: points_ascii)

lemma char_of_byte [simp]: "char_of (byte c) = c"
  by (simp add: byte_def)

lemma length_slice: "whole_run cs r \<Longrightarrow> length (slice cs r) = snd r - fst r"
  by (auto simp: slice_def whole_run_def)

lemma same_run_lower:
  assumes "whole_run cs r" and "is_ok (validate_term t)" and "same_run cs t r"
  shows "map cp_lower (slice cs r) = map byte t"
proof (rule nth_equalityI)
  from assms(1,3) show len: "length (map cp_lower (slice cs r)) = length (map byte t)"
    by (simp add: length_slice same_run_def)
  fix i assume "i < length (map cp_lower (slice cs r))"
  with len assms(3) valid_term_chars [OF assms(2)] show "map cp_lower (slice cs r) ! i = map byte t ! i"
    by (auto simp: same_run_def list_all_length)
qed

lemma whole_term_counted:
  assumes "is_ok (validate_term t)" and "classify_runs cs t = Yes"
  shows "t \<in> terms_of cs"
proof -
  from assms(2) obtain r where r: "whole_run cs r" "same_run cs t r" by (auto simp: classify_runs_Yes_iff)
  note low = same_run_lower [OF r(1) assms(1) r(2)]
  have "lower_run cs r = map char_of (map cp_lower (slice cs r))" by (simp add: lower_run_def)
  with low have t: "lower_run cs r = t" by (simp add: comp_def)
  have lower: "\<forall>c \<in> set t. is_lower c" and len: "MIN_TERM_LEN \<le> length t" "length t \<le> MAX_TERM_LEN"
    using assms(1) by (auto simp: validate_term_def list_all_iff split: if_splits)
  have "cp_alpha a" if "a \<in> set (slice cs r)" for a
  proof -
    from that have "cp_lower a \<in> set (map byte t)" by (simp flip: low)
    with lower show ?thesis by (auto simp: cp_lower_def cp_alpha_def is_lower_def split: if_splits)
  qed
  moreover have "snd r - fst r = length t" using r(2) by (simp add: same_run_def)
  ultimately have "candidate_run cs r" using len by (simp add: candidate_run_def list_all_iff)
  with t r(1) show ?thesis unfolding terms_of_def by blast
qed

definition class_count :: "text_match \<Rightarrow> string \<Rightarrow> string list \<Rightarrow> nat" where
  "class_count m t ds = length (filter (\<lambda>d. classify d t = m) ds)"

lemma raw_count_Yes: "is_ok (validate_term t) \<Longrightarrow> raw_count Yes t ds = class_count Yes t ds"
  unfolding raw_count_def class_count_def
  by (intro arg_cong [where f = length] filter_cong) (auto simp: classify_Yes_iff whole_term_counted)

lemma raw_count_Ambiguous:
  assumes "is_ok (validate_term t)" and "class_count Ambiguous t ds = 0"
  shows "raw_count Ambiguous t ds = 0"
  using assms classify_Ambiguous_raw by (auto simp: raw_count_def class_count_def filter_empty_conv)

lemma candidates_iff:
  "(y, t) \<in> set (candidates (foldl add_doc counter_new ds)) \<longleftrightarrow>
     is_ok (validate_term t) \<and> y = class_count Yes t ds \<and> 0 < y \<and> raw_count Ambiguous t ds = 0"
proof -
  let ?c = "counts (foldl add_doc counter_new ds)"
  have "(y, t) \<in> set (candidates (foldl add_doc counter_new ds)) \<longleftrightarrow>
      (\<exists>a. (t, y, a) \<in> set ?c \<and> 0 < y \<and> a = 0 \<and> is_ok (validate_term t))"
    by (force simp: candidates_def)
  also have "\<dots> \<longleftrightarrow> map_of ?c t = Some (y, 0) \<and> 0 < y \<and> is_ok (validate_term t)"
    using map_of_eq_Some_iff [OF conjunct2 [OF counter_counts [of ds t]], of t "(y, 0)"] by auto
  also have "\<dots> \<longleftrightarrow> is_ok (validate_term t) \<and> y = class_count Yes t ds \<and> 0 < y \<and> raw_count Ambiguous t ds = 0"
  proof (cases "is_ok (validate_term t) \<and> 0 < class_count Yes t ds")
    case True
    then have "\<exists>d \<in> set ds. t \<in> terms_of (chars d)"
    proof (rule contrapos_pp)
      assume "\<not> (\<exists>d \<in> set ds. t \<in> terms_of (chars d))"
      then have "raw_count Yes t ds = 0" by (auto simp: raw_count_def filter_empty_conv)
      with True raw_count_Yes [of t ds] show "\<not> (is_ok (validate_term t) \<and> 0 < class_count Yes t ds)" by auto
    qed
    with True counter_counts [of ds t] raw_count_Yes [of t ds] show ?thesis by auto
  next
    case False
    with counter_counts [of ds t] raw_count_Yes [of t ds] show ?thesis by (auto split: if_splits)
  qed
  finally show ?thesis .
qed


section \<open>Properties\<close>

lemma confirm_sorted:
  assumes "\<And>y t. (y, t) \<in> set cs \<Longrightarrow> scan t = Inr (y, amb t)" and "sorted (map key cs)"
  shows "case confirm scan target n cs of
      Inl e \<Rightarrow> e = No_Term target n \<and> (\<forall>(y, t) \<in> set cs. amb t \<noteq> 0)
    | Inr (t, y) \<Rightarrow> (y, t) \<in> set cs \<and> amb t = 0 \<and> (\<forall>(k, u) \<in> set cs. amb u = 0 \<longrightarrow> key (y, t) \<le> key (k, u))"
  using assms
proof (induction cs)
  case (Cons p cs)
  obtain y t where p: "p = (y, t)" by force
  with Cons(2) have "scan t = Inr (y, amb t)" by simp
  moreover have "case confirm scan target n cs of
      Inl e \<Rightarrow> e = No_Term target n \<and> (\<forall>(y, t) \<in> set cs. amb t \<noteq> 0)
    | Inr (t, y) \<Rightarrow> (y, t) \<in> set cs \<and> amb t = 0 \<and> (\<forall>(k, u) \<in> set cs. amb u = 0 \<longrightarrow> key (y, t) \<le> key (k, u))"
    using Cons by simp
  ultimately show ?case using Cons(3) p by (auto split: sum.splits)
qed simp

definition corpus_scan :: "string list \<Rightarrow> string \<Rightarrow> 'e + nat \<times> nat" where
  "corpus_scan ds t = Inr (class_count Yes t ds, class_count Ambiguous t ds)"

definition agreed_term :: "string list \<Rightarrow> string list \<Rightarrow> string \<Rightarrow> nat \<Rightarrow> bool" where
  "agreed_term ds excluded t n \<longleftrightarrow> is_ok (validate_term t) \<and> t \<notin> set excluded \<and>
     n = class_count Yes t ds \<and> 0 < n \<and> class_count Ambiguous t ds = 0"

text \<open>
  C17: the term chosen for a target frequency.  With a counter fed every document of a corpus and a scan that
  classifies the same documents, the choice is a valid term, not excluded, that some document matches and no
  document leaves ambiguous, with the exact number of matching documents, and of all such terms the one
  whose number is nearest to the target, ties to the smallest term; it fails only when no such term exists,
  never because the two passes disagree.
\<close>

theorem choose_term_correct:
  "case choose_term (foldl add_doc counter_new ds) target excluded (corpus_scan ds) of
     Inl e \<Rightarrow> e = No_Term target (length ds) \<and> (\<forall>t n. \<not> agreed_term ds excluded t n)
   | Inr (t, n) \<Rightarrow> agreed_term ds excluded t n \<and>
       (\<forall>u k. agreed_term ds excluded u k \<longrightarrow> (abs_diff n target, t) \<le> (abs_diff k target, u))"
proof -
  let ?c = "foldl add_doc counter_new ds"
  let ?key = "\<lambda>(yes, t). (abs_diff yes target, t)"
  let ?cs = "sort_key ?key (filter (\<lambda>(_, t). t \<notin> set excluded) (candidates ?c))"
  have n: "docs_counted ?c = length ds"
    by (induction ds rule: rev_induct) (simp_all add: counter_new_def add_doc_def)
  have scan: "corpus_scan ds t = Inr (y, class_count Ambiguous t ds)" if "(y, t) \<in> set ?cs" for y t
    using that by (auto simp: candidates_iff corpus_scan_def)
  have agreed: "agreed_term ds excluded t y \<longleftrightarrow> (y, t) \<in> set ?cs \<and> class_count Ambiguous t ds = 0" for t y
    using raw_count_Ambiguous [of t ds] by (auto simp: agreed_term_def candidates_iff)
  have "case confirm (corpus_scan ds :: string \<Rightarrow> 'a + _) target (docs_counted ?c) ?cs of
      Inl e \<Rightarrow> e = No_Term target (docs_counted ?c) \<and> (\<forall>(y, t) \<in> set ?cs. class_count Ambiguous t ds \<noteq> 0)
    | Inr (t, y) \<Rightarrow> (y, t) \<in> set ?cs \<and> class_count Ambiguous t ds = 0 \<and>
        (\<forall>(k, u) \<in> set ?cs. class_count Ambiguous u ds = 0 \<longrightarrow> ?key (y, t) \<le> ?key (k, u))"
    by (rule confirm_sorted) (use scan in blast, simp only: sorted_sort_key)
  then show ?thesis
    unfolding choose_term_def n agreed by (fastforce split: sum.splits prod.splits)
qed


theorem choose_term_correct_witness:
  "choose_term (foldl add_doc counter_new [''Red fox'', ''infrared red'']) 1 [] (corpus_scan [''Red fox'', ''infrared red'']) =
     (Inr (''fox'', 1) :: unit term_error + _) \<and>
   (abs_diff 1 1, ''fox'') \<le> (abs_diff 2 1, ''red'')"
proof -
  let ?ds = "[''Red fox'', ''infrared red'']"
  have c: "choose_term (foldl add_doc counter_new ?ds) 1 [] (corpus_scan ?ds) = (Inr (''fox'', 1) :: unit term_error + _)"
    by code_simp
  have "agreed_term ?ds [] ''red'' 2" by code_simp
  with choose_term_correct [where ds = ?ds and target = 1 and excluded = "[]" and ?'a = unit] c show ?thesis by auto
qed

end
