(* ===== verification/Derived_Predicate.thy ===== *)
theory Derived_Predicate
  imports Text_Match Json
begin

text \<open>
  The derived exact-match fields of the MS MARCO corpus and the predicates over them,
  \<open>src/src/msmarco/derived.rs\<close>: the derivation from a document id, the compiled condition grammar and its
  evaluation, and the filter query set with its expected counts.

  SHA-256 and CRC-32 are third-party and parameters: \<open>digest\<close> gives the 32 bytes of a hash, \<open>crc32\<close> the
  checksum.  The unsigned fields of \<open>DerivedFields\<close> are naturals, with the truncating casts written out.  JSON
  objects are \<open>BTreeMap\<close>s, entries in key order.  The parallel iterators collect in row order, so a loop over
  the rows is a fold; which of several row errors is reported is the first one's.
\<close>

section \<open>Derived fields\<close>

definition DERIVATION_SALT :: string where
  "DERIVATION_SALT = ''vdb-msmarco-derived/v1'' @ [CHR 0x00]"

definition DERIVED_FIELDS :: "(string \<times> string) list" where
  "DERIVED_FIELDS = [(''category'', ''keyword''), (''doc_len'', ''int''), (''tier'', ''int''), (''rand_key'', ''int'')]"

definition CATEGORY_COUNT :: nat where
  "CATEGORY_COUNT = 32"

definition TIER_COUNT :: nat where
  "TIER_COUNT = 10"

definition RAND_KEY_SPAN :: nat where
  "RAND_KEY_SPAN = 2 ^ 40"

definition CATEGORY_NAMES :: "string list" where
  "CATEGORY_NAMES =
     [''cat00'', ''cat01'', ''cat02'', ''cat03'', ''cat04'', ''cat05'', ''cat06'', ''cat07'', ''cat08'', ''cat09'', ''cat10'',
      ''cat11'', ''cat12'', ''cat13'', ''cat14'', ''cat15'', ''cat16'', ''cat17'', ''cat18'', ''cat19'', ''cat20'', ''cat21'',
      ''cat22'', ''cat23'', ''cat24'', ''cat25'', ''cat26'', ''cat27'', ''cat28'', ''cat29'', ''cat30'', ''cat31'']"

definition CATEGORY_WEIGHTS :: "nat list" where
  "CATEGORY_WEIGHTS = map (\<lambda>i. 1000000 div (i + 1)) [0..<CATEGORY_COUNT]"

definition CATEGORY_WEIGHT_TOTAL :: nat where
  "CATEGORY_WEIGHT_TOTAL = foldl (+) 0 CATEGORY_WEIGHTS"

record derived_fields =
  category :: nat
  doc_len :: nat
  tier :: nat
  rand_key :: nat

definition be_word :: "string \<Rightarrow> nat \<Rightarrow> nat" where
  "be_word d i = foldl (\<lambda>n c. 256 * n + byte c) 0 (take 8 (drop (8 * i) d))"

text \<open>The loop over the weights; running past the array panics.\<close>

fun zipf_bucket :: "nat list \<Rightarrow> nat \<Rightarrow> nat \<Rightarrow> nat option" where
  "zipf_bucket [] c r = None"
| "zipf_bucket (w # ws) c r = (if r \<ge> w then zipf_bucket ws (c + 1) (r - w) else Some c)"

definition from_docid :: "(string \<Rightarrow> string) \<Rightarrow> string \<Rightarrow> derived_fields option" where
  "from_docid digest docid =
     (let d = digest (DERIVATION_SALT @ docid);
          w0 = be_word d 0; w1 = be_word d 1; w2 = be_word d 2; w3 = be_word d 3;
          e = 4 + w1 mod 12;
          len = 2 ^ e + (w1 div 2 ^ 32) mod 2 ^ e
      in map_option (\<lambda>c. \<lparr>category = c mod 2 ^ 8, doc_len = len mod 2 ^ 32, tier = (w2 mod TIER_COUNT) mod 2 ^ 8,
             rand_key = w3 div 2 ^ 24\<rparr>)
           (zipf_bucket CATEGORY_WEIGHTS 0 (w0 mod CATEGORY_WEIGHT_TOTAL)))"

definition category_name :: "derived_fields \<Rightarrow> string" where
  "category_name d = CATEGORY_NAMES ! category d"

definition jnat :: "nat \<Rightarrow> json" where
  "jnat n = Number (PosInt n)"

definition to_json_fields :: "derived_fields \<Rightarrow> (string \<times> json) list" where
  "to_json_fields d =
     [(''category'', String (category_name d)), (''doc_len'', jnat (doc_len d)), (''tier'', jnat (tier d)),
      (''rand_key'', jnat (rand_key d))]"

fun obj_insert :: "string \<Rightarrow> json \<Rightarrow> (string \<times> json) list \<Rightarrow> (string \<times> json) list" where
  "obj_insert k v [] = [(k, v)]"
| "obj_insert k v ((j, u) # es) =
     (if k = j then (k, v) # es else if k < j then (k, v) # (j, u) # es else (j, u) # obj_insert k v es)"

datatype payload_refusal =
    Field_Conflict string json json
  | Payload_Not_Object
  | No_Docid
  | No_Derived_Field string string
  | Field_Drift string string json json

definition insert_into :: "derived_fields \<Rightarrow> (string \<times> json) list \<Rightarrow> payload_refusal + (string \<times> json) list" where
  "insert_into d payload =
     ffold (\<lambda>es (name, v). case map_of es name of
         Some existing \<Rightarrow> if existing \<noteq> v then Inl (Field_Conflict name existing v) else Inr (obj_insert name v es)
       | None \<Rightarrow> Inr (obj_insert name v es)) payload (to_json_fields d)"

text \<open>The derivation never panics (shown below), so its value is taken here.\<close>

definition derive :: "(string \<Rightarrow> string) \<Rightarrow> string \<Rightarrow> derived_fields" where
  "derive digest docid = the (from_docid digest docid)"

definition check_payload :: "(string \<Rightarrow> string) \<Rightarrow> json \<Rightarrow> payload_refusal + derived_fields" where
  "check_payload digest payload =
     rbind (ok_or Payload_Not_Object (as_object payload)) (\<lambda>obj.
     rbind (ok_or No_Docid (Option.bind (map_of obj ''docid'') as_string)) (\<lambda>docid.
       let d = derive digest docid in
       rbind (check_each (\<lambda>(name, v). case map_of obj name of
           None \<Rightarrow> Inl (No_Derived_Field docid name)
         | Some stored \<Rightarrow> if stored \<noteq> v then Inl (Field_Drift docid name stored v) else Inr ()) (to_json_fields d)) (\<lambda>_.
       Inr d)))"

section \<open>Predicates\<close>

datatype field_value = Keyword_Value string | Int_Value int | Other_Value | Unknown_Value

type_synonym row_fields = "string \<Rightarrow> field_value option"

definition derived_field :: "derived_fields \<Rightarrow> row_fields" where
  "derived_field d name = Some
     (if name = ''category'' then Keyword_Value (category_name d)
      else if name = ''doc_len'' then Int_Value (int (doc_len d))
      else if name = ''tier'' then Int_Value (int (tier d))
      else if name = ''rand_key'' then Int_Value (let n = rand_key d in if n < 2 ^ 63 then int n else int n - 2 ^ 64)
      else Unknown_Value)"

definition payload_field :: "(string \<times> json) list \<Rightarrow> row_fields" where
  "payload_field es name = (case map_of es name of
       None \<Rightarrow> None
     | Some Null \<Rightarrow> None
     | Some (String s) \<Rightarrow> Some (Keyword_Value s)
     | Some v \<Rightarrow> Some (case as_i64 v of Some i \<Rightarrow> Int_Value i | None \<Rightarrow> Other_Value))"

datatype operand = Keyword_Op string | Int_Op int

datatype leaf =
    Match_Leaf "operand list"
  | Range_Leaf (leaf_gt: "real option") (leaf_gte: "real option") (leaf_lt: "real option") (leaf_lte: "real option")
  | Text_Leaf string

datatype predicate = And "predicate list" | Or "predicate list" | Leaf string leaf

datatype predicate_error =
    Conditions_Not_Object
  | No_Group
  | Entry_Not_Object json
  | Not_One_Key nat
  | Empty_Group string
  | Not_One_Operation string
  | Match_Not_One string
  | Text_Not_String string
  | Bad_Term string term_refusal
  | Bad_Operand string json
  | Any_Empty string
  | Match_Unknown string
  | Range_Empty string
  | Bad_Bound string string
  | Unknown_Bound string string
  | Two_Bounds string
  | Unknown_Operation string string
  | Int_Against_Keyword string
  | Keyword_Against_Int string
  | Outside_Exact string int
  | Range_On_Keyword string
  | Text_Ambiguous string string string
  | Text_On_Int string
  | Incomparable string
  | Unknown_Field string

definition MAX_EXACT_INTEGER :: int where
  "MAX_EXACT_INTEGER = 2 ^ 53"

definition match_operand :: "string \<Rightarrow> json \<Rightarrow> predicate_error + operand" where
  "match_operand field v = (case as_string v of
       Some s \<Rightarrow> Inr (Keyword_Op s)
     | None \<Rightarrow> (case as_i64 v of
         Some n \<Rightarrow> if \<bar>n\<bar> \<le> MAX_EXACT_INTEGER then Inr (Int_Op n) else Inl (Bad_Operand field v)
       | None \<Rightarrow> Inl (Bad_Operand field v)))"

type_synonym bounds = "real option \<times> real option \<times> real option \<times> real option"

definition put_bound :: "string \<Rightarrow> bounds \<Rightarrow> string \<times> json \<Rightarrow> predicate_error + bounds" where
  "put_bound field b kv = (case b of (gt, gte, lt, lte) \<Rightarrow> case kv of (k, v) \<Rightarrow>
     (case as_f64 v of
        None \<Rightarrow> Inl (Bad_Bound field k)
      | Some n \<Rightarrow>
          if \<bar>n\<bar> > of_int MAX_EXACT_INTEGER then Inl (Bad_Bound field k)
          else if k = ''gt'' then Inr (Some n, gte, lt, lte)
          else if k = ''gte'' then Inr (gt, Some n, lt, lte)
          else if k = ''lt'' then Inr (gt, gte, Some n, lte)
          else if k = ''lte'' then Inr (gt, gte, lt, Some n)
          else Inl (Unknown_Bound field k)))"

definition compile_match :: "string \<Rightarrow> json \<Rightarrow> predicate_error + leaf" where
  "compile_match field criteria = (case as_object criteria of
       Some [(key, v)] \<Rightarrow>
         if key = ''text'' then
           rbind (ok_or (Text_Not_String field) (as_string v)) (\<lambda>t.
           rbind (map_err (Bad_Term field) (validate_term t)) (\<lambda>_. Inr (Text_Leaf t)))
         else if key = ''value'' then rbind (match_operand field v) (\<lambda>x. Inr (Match_Leaf [x]))
         else if key = ''any'' then
           (case as_array v of
              Some (x # xs) \<Rightarrow> rbind (traverse (match_operand field) (x # xs)) (\<lambda>ops. Inr (Match_Leaf ops))
            | _ \<Rightarrow> Inl (Any_Empty field))
         else Inl (Match_Unknown field)
     | _ \<Rightarrow> Inl (Match_Not_One field))"

definition compile_range :: "string \<Rightarrow> json \<Rightarrow> predicate_error + leaf" where
  "compile_range field criteria = (case as_object criteria of
       Some (e # es) \<Rightarrow>
         rbind (ffold (put_bound field) (None, None, None, None) (e # es)) (\<lambda>(gt, gte, lt, lte).
           if gt \<noteq> None \<and> gte \<noteq> None \<or> lt \<noteq> None \<and> lte \<noteq> None then Inl (Two_Bounds field)
           else Inr (Range_Leaf gt gte lt lte))
     | _ \<Rightarrow> Inl (Range_Empty field))"

definition compile_leaf :: "string \<Rightarrow> json \<Rightarrow> predicate_error + leaf" where
  "compile_leaf field body = (case as_object body of
       Some [(op, criteria)] \<Rightarrow>
         if op = ''match'' then compile_match field criteria
         else if op = ''range'' then compile_range field criteria
         else Inl (Unknown_Operation field op)
     | _ \<Rightarrow> Inl (Not_One_Operation field))"

function compile_node :: "json \<Rightarrow> predicate_error + predicate" where
  "compile_node v = (case v of
       Object es \<Rightarrow>
         (case es of
            [(key, body)] \<Rightarrow>
              if key = ''and'' \<or> key = ''or'' then
                (case body of
                   Array (x # xs) \<Rightarrow>
                     rbind (traverse compile_node (x # xs)) (\<lambda>children.
                       Inr (if key = ''and'' then And children else Or children))
                 | _ \<Rightarrow> Inl (Empty_Group key))
              else rbind (compile_leaf key body) (\<lambda>l. Inr (Leaf key l))
          | _ \<Rightarrow> Inl (Not_One_Key (length es)))
     | _ \<Rightarrow> Inl (Entry_Not_Object v))"
  by pat_completeness auto
termination
proof (relation "measure size", goal_cases)
  case (2 v es e rest key body xs' x xs y)
  then show ?case using size_list_estimation' [of y "x # xs" "size y" size] by auto
qed simp

declare compile_node.simps [simp del]

definition compile_predicate :: "json \<Rightarrow> predicate_error + predicate" where
  "compile_predicate conditions =
     rbind (ok_or Conditions_Not_Object (as_object conditions)) (\<lambda>obj.
       if map_of obj ''and'' = None \<and> map_of obj ''or'' = None then Inl No_Group
       else compile_node conditions)"

fun match_keyword :: "string \<Rightarrow> string \<Rightarrow> bool \<Rightarrow> operand list \<Rightarrow> predicate_error + bool" where
  "match_keyword field s hit [] = Inr hit"
| "match_keyword field s hit (Keyword_Op k # ops) = match_keyword field s (hit \<or> k = s) ops"
| "match_keyword field s hit (Int_Op _ # ops) = Inl (Int_Against_Keyword field)"

fun match_int :: "string \<Rightarrow> int \<Rightarrow> bool \<Rightarrow> operand list \<Rightarrow> predicate_error + bool" where
  "match_int field n hit [] = Inr hit"
| "match_int field n hit (Int_Op k # ops) = match_int field n (hit \<or> k = n) ops"
| "match_int field n hit (Keyword_Op _ # ops) = Inl (Keyword_Against_Int field)"

definition none_or :: "('a \<Rightarrow> bool) \<Rightarrow> 'a option \<Rightarrow> bool" where
  "none_or P x = (case x of None \<Rightarrow> True | Some y \<Rightarrow> P y)"

fun match_leaf :: "string \<Rightarrow> leaf \<Rightarrow> field_value \<Rightarrow> predicate_error + bool" where
  "match_leaf field (Match_Leaf ops) (Keyword_Value s) = match_keyword field s False ops"
| "match_leaf field (Match_Leaf ops) (Int_Value n) = match_int field n False ops"
| "match_leaf field (Range_Leaf gt gte lt lte) (Int_Value n) =
     (if \<bar>n\<bar> > MAX_EXACT_INTEGER then Inl (Outside_Exact field n)
      else let x = rnd64 (of_int n)
        in Inr (none_or (\<lambda>b. x > b) gt \<and> none_or (\<lambda>b. x \<ge> b) gte \<and> none_or (\<lambda>b. x < b) lt \<and> none_or (\<lambda>b. x \<le> b) lte))"
| "match_leaf field (Range_Leaf _ _ _ _) (Keyword_Value _) = Inl (Range_On_Keyword field)"
| "match_leaf field (Text_Leaf t) (Keyword_Value s) =
     (case classify s t of Yes \<Rightarrow> Inr True | No \<Rightarrow> Inr False | Ambiguous \<Rightarrow> Inl (Text_Ambiguous field s t))"
| "match_leaf field (Text_Leaf _) (Int_Value _) = Inl (Text_On_Int field)"
| "match_leaf field _ Other_Value = Inl (Incomparable field)"
| "match_leaf field _ Unknown_Value = Inl (Unknown_Field field)"

fun pmatches :: "row_fields \<Rightarrow> predicate \<Rightarrow> predicate_error + bool"
  and all_match :: "row_fields \<Rightarrow> predicate list \<Rightarrow> predicate_error + bool"
  and any_match :: "row_fields \<Rightarrow> predicate list \<Rightarrow> predicate_error + bool" where
  "pmatches row (And c) = all_match row c"
| "pmatches row (Or c) = any_match row c"
| "pmatches row (Leaf field l) = (case row field of None \<Rightarrow> Inr False | Some v \<Rightarrow> match_leaf field l v)"
| "all_match row [] = Inr True"
| "all_match row (p # ps) = rbind (pmatches row p) (\<lambda>b. if b then all_match row ps else Inr False)"
| "any_match row [] = Inr False"
| "any_match row (p # ps) = rbind (pmatches row p) (\<lambda>b. if b then Inr True else any_match row ps)"

function check_leaves :: "row_fields list \<Rightarrow> predicate \<Rightarrow> predicate_error + unit" where
  "check_leaves rows p = (case rows of
       [] \<Rightarrow> Inr ()
     | row # _ \<Rightarrow>
         (case p of
            And c \<Rightarrow> check_each (check_leaves rows) c
          | Or c \<Rightarrow> check_each (check_leaves rows) c
          | Leaf _ _ \<Rightarrow> rbind (pmatches row p) (\<lambda>_. Inr ())))"
  by pat_completeness auto
termination
proof (relation "measure (\<lambda>(_, p). size p)", goal_cases)
  case (2 rows p row rest c q)
  then show ?case using size_list_estimation' [of q c "size q" size] by auto
next
  case (3 rows p row rest c q)
  then show ?case using size_list_estimation' [of q c "size q" size] by auto
qed simp

declare check_leaves.simps [simp del]

definition count_matches :: "row_fields list \<Rightarrow> predicate \<Rightarrow> predicate_error + nat" where
  "count_matches rows p =
     rbind (check_leaves rows p) (\<lambda>_.
     rbind (traverse (\<lambda>r. pmatches r p) rows) (\<lambda>bs. Inr (length (filter id bs))))"

definition matching_ids :: "row_fields list \<Rightarrow> predicate \<Rightarrow> predicate_error + nat list" where
  "matching_ids rows p =
     rbind (check_leaves rows p) (\<lambda>_.
     rbind (traverse (\<lambda>(i, r). rbind (pmatches r p) (\<lambda>b. Inr (if b then Some i else None))) (enumerate 0 rows)) (\<lambda>hits.
     Inr (List.map_filter id hits)))"


section \<open>The derivation\<close>

lemma zipf_bucket_total:
  "r < sum_list ws \<Longrightarrow> \<exists>k. zipf_bucket ws c r = Some k \<and> c \<le> k \<and> k < c + length ws"
proof (induction ws arbitrary: c r)
  case (Cons w ws)
  then show ?case using Cons.IH [of "r - w" "c + 1"] by (cases "r \<ge> w") force+
qed simp

lemma be_word_bound: "be_word d i < 2 ^ 64"
proof -
  have "foldl (\<lambda>n c. 256 * n + byte c) a s < (a + 1) * 256 ^ length s" for a s
  proof (induction s arbitrary: a)
    case (Cons c s)
    have "byte c < 256" by (simp add: byte_def)
    then have "(256 * a + byte c + 1) * 256 ^ length s \<le> (a + 1) * 256 * 256 ^ length s" by (intro mult_right_mono) auto
    with Cons [of "256 * a + byte c"] have "foldl (\<lambda>n c. 256 * n + byte c) (256 * a + byte c) s < (a + 1) * 256 * 256 ^ length s"
      by (rule less_le_trans)
    then show ?case by (simp add: algebra_simps)
  qed simp
  from this [of 0 "take 8 (drop (8 * i) d)"] have "be_word d i < 256 ^ length (take 8 (drop (8 * i) d))"
    by (simp add: be_word_def)
  also have "\<dots> \<le> 256 ^ 8" by (rule power_increasing) auto
  finally show ?thesis by simp
qed

definition derived_ok :: "derived_fields \<Rightarrow> bool" where
  "derived_ok d \<longleftrightarrow> category d < CATEGORY_COUNT \<and> 2 ^ 4 \<le> doc_len d \<and> doc_len d \<le> 2 ^ 16 - 1 \<and> tier d < TIER_COUNT \<and>
     rand_key d < RAND_KEY_SPAN"

lemma doc_len_bounds:
  fixes w :: nat
  shows "2 ^ 4 \<le> (2 ^ (4 + w mod 12) + x mod 2 ^ (4 + w mod 12) :: nat) \<and> 2 ^ (4 + w mod 12) + x mod 2 ^ (4 + w mod 12) \<le> (2 ^ 16 - 1 :: nat)"
proof -
  define e where "e = 4 + w mod 12"
  have "w mod 12 < 12" by simp
  then have "4 \<le> e" "e \<le> 15" unfolding e_def by linarith+
  then have "16 \<le> (2 :: nat) ^ e" "(2 :: nat) ^ e \<le> 32768"
    using power_increasing [of 4 e "2 :: nat"] power_increasing [of e 15 "2 :: nat"] by simp_all
  moreover have "x mod 2 ^ e < (2 :: nat) ^ e" by simp
  ultimately have "16 \<le> 2 ^ e + x mod (2 :: nat) ^ e" "2 ^ e + x mod (2 :: nat) ^ e \<le> 65535" by linarith+
  then show ?thesis unfolding e_def [symmetric] by simp
qed

lemma foldl_plus: "foldl (+) (a :: nat) ws = a + sum_list ws"
  by (induction ws arbitrary: a) simp_all

lemma from_docid_ok: "\<exists>d. from_docid digest docid = Some d \<and> derived_ok d"
proof -
  let ?w = "be_word (digest (DERIVATION_SALT @ docid))"
  have "CATEGORY_WEIGHT_TOTAL = sum_list CATEGORY_WEIGHTS"
    by (simp add: CATEGORY_WEIGHT_TOTAL_def foldl_plus)
  moreover have "0 < sum_list CATEGORY_WEIGHTS" by (simp add: CATEGORY_WEIGHTS_def CATEGORY_COUNT_def upt_conv_Cons)
  ultimately have "?w 0 mod CATEGORY_WEIGHT_TOTAL < sum_list CATEGORY_WEIGHTS" by simp
  from zipf_bucket_total [OF this, of 0] obtain k where
    k: "zipf_bucket CATEGORY_WEIGHTS 0 (?w 0 mod CATEGORY_WEIGHT_TOTAL) = Some k" "k < 32"
    by (auto simp: CATEGORY_WEIGHTS_def CATEGORY_COUNT_def)
  have "?w 3 div 2 ^ 24 < 2 ^ 40" using be_word_bound [of "digest (DERIVATION_SALT @ docid)" 3]
    by (simp add: div_less_iff_less_mult)
  with k doc_len_bounds [of "?w 1" "?w 1 div 2 ^ 32"] show ?thesis
    by (auto simp: from_docid_def Let_def derived_ok_def CATEGORY_COUNT_def TIER_COUNT_def RAND_KEY_SPAN_def)
qed

lemma derive_ok: "derived_ok (derive digest docid)"
  using from_docid_ok [of digest docid] by (auto simp: derive_def)


section \<open>Payloads\<close>

lemma map_of_obj_insert [simp]: "map_of (obj_insert k v es) = (map_of es)(k \<mapsto> v)"
  by (induction es) (auto simp: fun_eq_iff)

lemma insert_into_fields:
  assumes "insert_into d es = Inr es'"
  shows "map_of es' = map_of es ++ map_of (to_json_fields d)"
proof -
  have key: "map_of es' = map_of es ++ map_of fs" if "ffold (\<lambda>es (name, v). case map_of es name of
         Some existing \<Rightarrow> if existing \<noteq> v then Inl (Field_Conflict name existing v) else Inr (obj_insert name v es)
       | None \<Rightarrow> Inr (obj_insert name v es)) es fs = Inr es'" and "distinct (map fst fs)" for es fs
    using that
  proof (induction fs arbitrary: es)
    case (Cons f fs)
    obtain name v where f: "f = (name, v)" by force
    with Cons(2) have "ffold (\<lambda>es (name, v). case map_of es name of
         Some existing \<Rightarrow> if existing \<noteq> v then Inl (Field_Conflict name existing v) else Inr (obj_insert name v es)
       | None \<Rightarrow> Inr (obj_insert name v es)) (obj_insert name v es) fs = Inr es'"
      by (auto split: option.splits if_splits)
    from Cons(1) [OF this] Cons(3) have "map_of es' = map_of (obj_insert name v es) ++ map_of fs"
      by (simp del: map_of_obj_insert)
    moreover have "map_of fs name = None" using Cons(3) f by (simp add: map_of_eq_None_iff)
    ultimately show ?case by (auto simp: f fun_eq_iff map_add_def split: option.splits)
  qed simp
  show ?thesis
  proof (rule key)
    show "distinct (map fst (to_json_fields d))" by (simp add: to_json_fields_def)
  qed (use assms in \<open>simp add: insert_into_def\<close>)
qed

lemma check_payload_Inr_iff:
  "check_payload digest (Object es) = Inr d \<longleftrightarrow>
     (\<exists>docid. map_of es ''docid'' = Some (String docid) \<and> d = derive digest docid \<and> map_of (to_json_fields d) \<subseteq>\<^sub>m map_of es)"
  (is "?L \<longleftrightarrow> ?R")
proof -
  have sub: "map_of (to_json_fields d) \<subseteq>\<^sub>m map_of es \<longleftrightarrow> (\<forall>(name, v) \<in> set (to_json_fields d). map_of es name = Some v)" for d
    by (auto simp: map_le_def to_json_fields_def)
  have step: "(case map_of es name of None \<Rightarrow> Inl (No_Derived_Field docid name)
      | Some stored \<Rightarrow> if stored \<noteq> v then Inl (Field_Drift docid name stored v) else Inr ()) = Inr () \<longleftrightarrow>
      map_of es name = Some v" for docid name v
    by (auto split: option.splits)
  show ?thesis
    unfolding sub
    by (auto simp: check_payload_def Let_def as_string_iff case_prod_unfold step split: Option.bind_splits)
qed


section \<open>Properties\<close>

text \<open>
  The derivation is total and in range.  For every document id and whatever the hash, the loop over the
  category weights ends inside the array, and the four derived values lie in their declared ranges, so no
  cast truncates: 32 categories, lengths from 16 to 65535, ten tiers, keys below 2 to the 40.
\<close>

theorem derived_fields_in_range:
  "\<exists>d. from_docid digest docid = Some d \<and> category d < length CATEGORY_NAMES \<and> 16 \<le> doc_len d \<and> doc_len d \<le> 65535 \<and>
     tier d < 10 \<and> rand_key d < 2 ^ 40"
  using from_docid_ok [of digest docid]
  by (auto simp: derived_ok_def CATEGORY_COUNT_def TIER_COUNT_def RAND_KEY_SPAN_def CATEGORY_NAMES_def)

text \<open>
  C35: what preparation writes into a payload, verification accepts.  A payload that \<open>insert_into\<close> accepts
  keeps every other field, passes \<open>check_payload\<close> with the derived values of its document id, and is accepted
  again unchanged.
\<close>

theorem derived_payload_roundtrip:
  assumes "map_of es ''docid'' = Some (String docid)" and "insert_into (derive digest docid) es = Inr es'"
  shows "check_payload digest (Object es') = Inr (derive digest docid) \<and>
    (\<forall>k. k \<notin> fst ` set (to_json_fields (derive digest docid)) \<longrightarrow> map_of es' k = map_of es k) \<and>
    (\<exists>es''. insert_into (derive digest docid) es' = Inr es'' \<and> map_of es'' = map_of es')"
proof -
  let ?d = "derive digest docid"
  note m = insert_into_fields [OF assms(2)]
  have docid: "map_of (to_json_fields ?d) ''docid'' = None" by (simp add: to_json_fields_def)
  have same: "map_of es' ++ map_of (to_json_fields ?d) = map_of es'"
    by (auto simp: m fun_eq_iff map_add_def split: option.splits)
  have fields: "map_of es' name = Some v" if "(name, v) \<in> set (to_json_fields ?d)" for name v
    using that unfolding m by (auto simp: to_json_fields_def)
  then have "\<exists>es''. insert_into ?d es' = Inr es''"
    by (simp add: insert_into_def to_json_fields_def)
  then obtain es'' where es'': "insert_into ?d es' = Inr es''" by blast
  with insert_into_fields [OF es''] same have "map_of es'' = map_of es'" by simp
  moreover have "check_payload digest (Object es') = Inr ?d"
    unfolding check_payload_Inr_iff using assms(1) docid by (auto simp: m map_add_def map_le_def)
  moreover have "map_of es' k = map_of es k" if "k \<notin> fst ` set (to_json_fields ?d)" for k
    using that by (simp add: m map_add_def map_of_eq_None_iff [symmetric])
  ultimately show ?thesis using es'' by blast
qed

theorem derived_payload_roundtrip_witness:
  "\<exists>es'. insert_into (derive (\<lambda>_. []) ''a'') [(''docid'', String ''a''), (''title'', String ''t'')] = Inr es' \<and>
     check_payload (\<lambda>_. []) (Object es') = Inr (derive (\<lambda>_. []) ''a'') \<and> map_of es' ''title'' = Some (String ''t'')"
proof -
  let ?es = "[(''docid'', String ''a''), (''title'', String ''t'')]"
  obtain es' where es': "insert_into (derive (\<lambda>_. []) ''a'') ?es = Inr es'"
    by (simp add: insert_into_def to_json_fields_def)
  have "''title'' \<notin> fst ` set (to_json_fields (derive (\<lambda>_. []) ''a''))" by (simp add: to_json_fields_def)
  with derived_payload_roundtrip [of ?es "''a''" "\<lambda>_. []" es'] es' show ?thesis by auto
qed

end
