(* ===== verification/Filter_Domain.thy ===== *)
theory Filter_Domain
  imports Json Payloads Redis_Filter
begin

text \<open>
  The shared domain of the scalar comparison, \<open>src/src/filter_only/domain.rs\<close>: which stored metadata and which
  predicates mean the same to Redis and OpenSearch.

  The doubles of a JSON document and of the metadata are finite, and a zero has no sign here: \<open>finite\<close>, which
  refuses the non-finite values and \<open>-0.0\<close>, never refuses in this model.
\<close>

definition MAX_EXACT :: int where
  "MAX_EXACT = 2 ^ 53"

datatype domain_reason =
    Keyword_Token
  | Inexact_Integer
  | Float_Keyword
  | Keyword_Not_Scalar
  | Not_Json_Integer
  | Not_Json_Number
  | Integer_Operand
  | Numeric_Operand
  | Keyword_Operand
  | Predicates_Not_Object
  | Match_Not_Object
  | Match_One_Of
  | Any_Not_Array
  | Numeric_Any_Empty
  | Match_Missing
  | Keyword_Range
  | Range_Not_Object
  | Range_No_Bound
  | Range_Two_Bounds
  | Range_Bad_Key
  | Bound_Too_Large
  | Unsupported_Operation
  | No_Scalar_Predicate
  | Undeclared_Field

datatype domain_error =
    Domain_Error string domain_reason
  | Not_A_Predicate
  | Group_And_Leaves
  | Group_Not_Array string

definition keyword :: "string \<Rightarrow> string \<Rightarrow> domain_error + unit" where
  "keyword field token =
     (if token = [] \<or> trim token \<noteq> token \<or> CHR '';'' \<in> set token then Inl (Domain_Error field Keyword_Token) else Inr ())"

definition integer :: "string \<Rightarrow> int \<Rightarrow> domain_error + unit" where
  "integer field n =
     (if \<not> (- MAX_EXACT \<le> n \<and> n \<le> MAX_EXACT) then Inl (Domain_Error field Inexact_Integer) else Inr ())"

definition field_kind :: "json option \<Rightarrow> string \<Rightarrow> string option" where
  "field_kind schema field = Option.bind (Option.bind schema (jget field)) as_string"

definition validate_value :: "json option \<Rightarrow> string \<times> metadata_value \<Rightarrow> domain_error + unit" where
  "validate_value schema fv = (case fv of (field, v) \<Rightarrow>
     (let k = field_kind schema field in
      if k = Some ''keyword'' then
        (case v of
           MString s \<Rightarrow> keyword field s
         | MLabels labels \<Rightarrow> check_each (keyword field) labels
         | MInt _ \<Rightarrow> Inr ()
         | MFloat _ \<Rightarrow> Inl (Domain_Error field Float_Keyword)
         | MGeo _ _ \<Rightarrow> Inl (Domain_Error field Keyword_Not_Scalar))
      else if k = Some ''int'' then
        (case v of MInt n \<Rightarrow> integer field n | _ \<Rightarrow> Inl (Domain_Error field Not_Json_Integer))
      else if k = Some ''float'' then
        (case v of
           MInt n \<Rightarrow> integer field n
         | MFloat _ \<Rightarrow> Inr ()
         | _ \<Rightarrow> Inl (Domain_Error field Not_Json_Number))
      else Inr ()))"

definition validate_metadata :: "metadata_item option list \<Rightarrow> json option \<Rightarrow> domain_error + unit" where
  "validate_metadata metadata schema =
     check_each (\<lambda>item. check_each (validate_value schema) (payload_fields item)) (List.map_filter id metadata)"

definition number_operand :: "string \<Rightarrow> json \<Rightarrow> bool \<Rightarrow> domain_error + unit" where
  "number_operand field v integer_only = (case as_i64 v of
       Some n \<Rightarrow> integer field n
     | None \<Rightarrow>
         if as_u64 v \<noteq> None then Inl (Domain_Error field Inexact_Integer)
         else if \<not> integer_only \<and> as_f64 v \<noteq> None then Inr ()
         else Inl (Domain_Error field (if integer_only then Integer_Operand else Numeric_Operand)))"

definition domain_operand :: "string \<Rightarrow> json \<Rightarrow> string \<Rightarrow> bool \<Rightarrow> domain_error + unit" where
  "domain_operand field v kind integer_only =
     (if kind = ''keyword'' then
        rbind (ok_or (Domain_Error field Keyword_Operand) (as_string v)) (keyword field)
      else number_operand field v integer_only)"

definition domain_match :: "string \<Rightarrow> string \<Rightarrow> json \<Rightarrow> domain_error + unit" where
  "domain_match field kind criteria =
     rbind (ok_or (Domain_Error field Match_Not_Object) (as_object criteria)) (\<lambda>es.
       if length es \<noteq> 1 \<or> \<not> list_all (\<lambda>(k, _). k = ''any'' \<or> k = ''value'') es then Inl (Domain_Error field Match_One_Of)
       else case map_of es ''any'' of
         Some any \<Rightarrow>
           rbind (ok_or (Domain_Error field Any_Not_Array) (as_array any)) (\<lambda>vs.
             if kind \<noteq> ''keyword'' \<and> vs = [] then Inl (Domain_Error field Numeric_Any_Empty)
             else check_each (\<lambda>v. domain_operand field v kind True) vs)
       | None \<Rightarrow>
           rbind (ok_or (Domain_Error field Match_Missing) (map_of es ''value'')) (\<lambda>v.
             domain_operand field v kind (kind = ''int'')))"

definition domain_bound :: "string \<Rightarrow> string \<Rightarrow> string \<times> json \<Rightarrow> domain_error + unit" where
  "domain_bound field kind kv = (case kv of (bound, v) \<Rightarrow>
     if \<not> (bound = ''gt'' \<or> bound = ''gte'' \<or> bound = ''lt'' \<or> bound = ''lte'') then Inl (Domain_Error field Range_Bad_Key)
     else rbind (number_operand field v False) (\<lambda>_.
       if kind = ''int'' \<and> (case as_f64 v of Some n \<Rightarrow> \<bar>n\<bar> > of_int MAX_EXACT | None \<Rightarrow> False)
       then Inl (Domain_Error field Bound_Too_Large) else Inr ()))"

definition domain_range :: "string \<Rightarrow> string \<Rightarrow> json \<Rightarrow> domain_error + unit" where
  "domain_range field kind criteria =
     (if kind = ''keyword'' then Inl (Domain_Error field Keyword_Range)
      else rbind (ok_or (Domain_Error field Range_Not_Object) (as_object criteria)) (\<lambda>bounds.
        let has = (\<lambda>k. map_of bounds k \<noteq> None) in
        if bounds = [] then Inl (Domain_Error field Range_No_Bound)
        else if has ''gt'' \<and> has ''gte'' \<or> has ''lt'' \<and> has ''lte'' then Inl (Domain_Error field Range_Two_Bounds)
        else check_each (domain_bound field kind) bounds))"

definition domain_leaf :: "string \<Rightarrow> json \<Rightarrow> string \<Rightarrow> domain_error + unit" where
  "domain_leaf field filters kind =
     rbind (ok_or (Domain_Error field Predicates_Not_Object) (as_object filters)) (\<lambda>ops.
     rbind (check_each (\<lambda>(op, criteria).
         if op = ''match'' then domain_match field kind criteria
         else if op = ''range'' then domain_range field kind criteria
         else Inl (Domain_Error field Unsupported_Operation)) ops) (\<lambda>_.
       if ops = [] then Inl (Domain_Error field No_Scalar_Predicate) else Inr ()))"

definition domain_field :: "json option \<Rightarrow> string \<times> json \<Rightarrow> domain_error + unit" where
  "domain_field schema e = (case e of (field, filters) \<Rightarrow>
     (case field_kind schema field of
        Some k \<Rightarrow> if k \<in> {''keyword'', ''int'', ''float''} then domain_leaf field filters k
                  else Inl (Domain_Error field Undeclared_Field)
      | None \<Rightarrow> Inl (Domain_Error field Undeclared_Field)))"

function validate_predicate :: "json option \<Rightarrow> json \<Rightarrow> domain_error + unit" where
  "validate_predicate schema condition = (case condition of
       Object (e # es) \<Rightarrow>
         if map_of (e # es) ''and'' \<noteq> None \<or> map_of (e # es) ''or'' \<noteq> None then
           if list_ex (\<lambda>(k, _). \<not> (k = ''and'' \<or> k = ''or'')) (e # es) then Inl Group_And_Leaves
           else check_each (\<lambda>(name, v). case v of
               Array (x # xs) \<Rightarrow> check_each (validate_predicate schema) (x # xs)
             | _ \<Rightarrow> Inl (Group_Not_Array name)) (e # es)
         else check_each (domain_field schema) (e # es)
     | _ \<Rightarrow> Inl Not_A_Predicate)"
  by pat_completeness auto
termination
proof (relation "measure (\<lambda>(_, c). size c)", goal_cases)
  case (2 schema condition es' e es kv name v xs' x xs y)
  then have "size y \<le> size_list size (x # xs)" using size_list_estimation' [of y "x # xs" "size y" size] by simp
  moreover from 2 have "(name, v) \<in> set (e # es)" by auto
  then have "size v \<le> size_list (size_prod (\<lambda>_. 0) size) (e # es)" by (rule size_list_estimation') simp
  ultimately show ?case using 2 by auto
qed simp

declare validate_predicate.simps [simp del]

end
