(* ===== verification/Filter_Queries.thy ===== *)
theory Filter_Queries
  imports Derived_Predicate Filter_Domain
begin

text \<open>
  The filter-only query set: how \<open>src/src/msmarco/derived.rs\<close> generates it from a corpus, with an exact expected
  count per query, how \<open>src/src/filter_only/query_set.rs\<close> reads it back, and the per-query count gate.

  The JSON parser is a parameter.  A file is its bytes and holds no read errors other than invalid UTF-8.
\<close>

section \<open>Query shapes and templates\<close>

datatype shape = TagEq | NumericPoint | NumericRange | RepeatedValueRange | TagAndRange | RangeOrRange

fun shape_as_str :: "shape \<Rightarrow> string" where
  "shape_as_str TagEq = ''tag_eq''"
| "shape_as_str NumericPoint = ''numeric_point''"
| "shape_as_str NumericRange = ''numeric_range''"
| "shape_as_str RepeatedValueRange = ''repeated_value_range''"
| "shape_as_str TagAndRange = ''tag_and_range''"
| "shape_as_str RangeOrRange = ''range_or_range''"

definition POINT_LOOKUP_KEYS :: nat where
  "POINT_LOOKUP_KEYS = 5"

definition CRC32_BUCKETS :: nat where
  "CRC32_BUCKETS = 1000000"

definition crc32_bucket :: "(string \<Rightarrow> nat) \<Rightarrow> string \<Rightarrow> nat" where
  "crc32_bucket crc32 docid = crc32 docid mod CRC32_BUCKETS"

definition smallest_threshold :: nat where
  "smallest_threshold = 886"

definition is_point_lookup_source :: "(string \<Rightarrow> nat) \<Rightarrow> string \<Rightarrow> bool" where
  "is_point_lookup_source crc32 docid \<longleftrightarrow> crc32_bucket crc32 docid < smallest_threshold"

definition leaf_json :: "string \<Rightarrow> json \<Rightarrow> json" where
  "leaf_json field op = Object [(field, op)]"

definition eq_json :: "string \<Rightarrow> json \<Rightarrow> json" where
  "eq_json field v = leaf_json field (Object [(''match'', Object [(''value'', v)])])"

definition range_json :: "string \<Rightarrow> (string \<times> json) list \<Rightarrow> json" where
  "range_json field bounds = leaf_json field (Object [(''range'', Object bounds)])"

definition and_json :: "json list \<Rightarrow> json" where
  "and_json entries = Object [(''and'', Array entries)]"

definition or_json :: "json list \<Rightarrow> json" where
  "or_json entries = Object [(''or'', Array entries)]"

definition rand_key_at :: "nat \<Rightarrow> nat" where
  "rand_key_at per_million = RAND_KEY_SPAN * per_million div 1000000"

definition rand_key_below :: "nat \<Rightarrow> json" where
  "rand_key_below per_million = range_json ''rand_key'' [(''lt'', jnat (rand_key_at per_million))]"

datatype query_set_error =
    Too_Few_Keys nat
  | Empty_Corpus
  | Outside_Domain string domain_error
  | Bad_Predicate string predicate_error
  | Count_Failed predicate_error
  | Zero_Count string shape
  | Narrow_Spread nat nat nat

definition constant_templates :: "(shape \<times> json) list" where
  "constant_templates =
     map (\<lambda>c. (TagEq, and_json [eq_json ''category'' (String (CATEGORY_NAMES ! c))])) [0, 1, 3, 7, 15, 31] @
     map (\<lambda>v. (NumericPoint, and_json [eq_json ''doc_len'' (jnat v)])) [16, 200, 3000]"

definition range_templates :: "(shape \<times> json) list" where
  "range_templates =
     map (\<lambda>per_million. (NumericRange, and_json [rand_key_below per_million])) [500000, 100000, 10000, 1000, 100] @
     [(NumericRange, and_json [range_json ''doc_len'' [(''gte'', jnat 1024), (''lt'', jnat 4096)]])] @
     map (\<lambda>(lo, hi). (RepeatedValueRange, and_json [range_json ''tier'' [(''gte'', jnat lo), (''lte'', jnat hi)]]))
       [(0, 8), (0, 4), (2, 3), (5, 5)]"

definition combined_templates :: "(shape \<times> json) list" where
  "combined_templates =
     [(TagAndRange, and_json [eq_json ''category'' (String ''cat00''), rand_key_below 100000]),
      (TagAndRange, and_json [eq_json ''category'' (String ''cat07''), range_json ''tier'' [(''gte'', jnat 0), (''lte'', jnat 4)]]),
      (TagAndRange, and_json [eq_json ''category'' (String ''cat03''), range_json ''doc_len'' [(''gte'', jnat 16), (''lt'', jnat 64)]]),
      (TagAndRange, and_json [eq_json ''category'' (String ''cat31''), rand_key_below 10000]),
      (RangeOrRange, or_json [rand_key_below 10000, range_json ''rand_key'' [(''gte'', jnat (rand_key_at 990000))]]),
      (RangeOrRange, or_json [range_json ''tier'' [(''lte'', jnat 1)], range_json ''doc_len'' [(''gte'', jnat 32768)]]),
      (RangeOrRange, or_json [range_json ''doc_len'' [(''lt'', jnat 32)], rand_key_below 1000])]"

definition filter_query_templates :: "nat list \<Rightarrow> query_set_error + (shape \<times> json) list" where
  "filter_query_templates lookup_keys =
     (if length lookup_keys \<noteq> POINT_LOOKUP_KEYS then Inl (Too_Few_Keys (length lookup_keys))
      else Inr (constant_templates @
        map (\<lambda>k. (NumericPoint, and_json [eq_json ''rand_key'' (jnat k)])) lookup_keys @
        range_templates @ combined_templates))"

definition derived_schema :: json where
  "derived_schema = Object [(''category'', String ''keyword''), (''doc_len'', String ''int''),
     (''rand_key'', String ''int''), (''tier'', String ''int'')]"

section \<open>The corpus and its query rows\<close>

record derived_corpus =
  rows_of :: "derived_fields list"
  lookup_keys :: "nat list"

definition corpus_new :: derived_corpus where
  "corpus_new = \<lparr>rows_of = [], lookup_keys = []\<rparr>"

definition push_checked :: "(string \<Rightarrow> nat) \<Rightarrow> string \<Rightarrow> derived_fields \<Rightarrow> derived_corpus \<Rightarrow> derived_corpus" where
  "push_checked crc32 docid d c =
     (let c' = (if length (lookup_keys c) < POINT_LOOKUP_KEYS \<and> is_point_lookup_source crc32 docid
                then c\<lparr>lookup_keys := lookup_keys c @ [rand_key d]\<rparr> else c)
      in c'\<lparr>rows_of := rows_of c' @ [d]\<rparr>)"

definition push_docid :: "(string \<Rightarrow> string) \<Rightarrow> (string \<Rightarrow> nat) \<Rightarrow> string \<Rightarrow> derived_corpus \<Rightarrow> derived_corpus" where
  "push_docid digest crc32 docid c = push_checked crc32 docid (derive digest docid) c"

definition push_payload ::
    "(string \<Rightarrow> string) \<Rightarrow> (string \<Rightarrow> nat) \<Rightarrow> json \<Rightarrow> derived_corpus \<Rightarrow> payload_refusal + derived_corpus" where
  "push_payload digest crc32 payload c =
     rbind (check_payload digest payload) (\<lambda>fields.
     rbind (ok_or No_Docid (as_string (jindex payload ''docid''))) (\<lambda>docid.
       Inr (push_checked crc32 docid fields c)))"

datatype batch_error = Batch_Row_Parse nat | Batch_Row nat payload_refusal | Batch_No_Docid

definition push_json_batch ::
    "(string \<Rightarrow> json option) \<Rightarrow> (string \<Rightarrow> string) \<Rightarrow> (string \<Rightarrow> nat) \<Rightarrow> string list \<Rightarrow> derived_corpus \<Rightarrow>
     batch_error + derived_corpus" where
  "push_json_batch parse_json digest crc32 ls c =
     rbind (traverse (\<lambda>(i, line).
         rbind (ok_or (Batch_Row_Parse i) (parse_json line)) (\<lambda>payload.
         rbind (map_err (Batch_Row i) (check_payload digest payload)) (\<lambda>fields.
         rbind (ok_or Batch_No_Docid (as_string (jindex payload ''docid''))) (\<lambda>docid.
           Inr (docid, fields))))) (enumerate 1 ls)) (\<lambda>checked.
     Inr (foldl (\<lambda>c (docid, fields). push_checked crc32 docid fields c) c checked))"

definition pad3 :: "nat \<Rightarrow> string" where
  "pad3 i = replicate (3 - length (nat_str i)) CHR ''0'' @ nat_str i"

definition query_id_of :: "nat \<Rightarrow> string" where
  "query_id_of i = ''msmarco-filter-'' @ pad3 i"

definition query_row :: "string \<Rightarrow> shape \<Rightarrow> json \<Rightarrow> nat \<Rightarrow> nat \<Rightarrow> json" where
  "query_row query_id shp conditions cnt n = Object
     [(''conditions'', conditions), (''corpus_size'', jnat n), (''expected_count'', jnat cnt),
      (''query_id'', String query_id), (''shape'', String (shape_as_str shp))]"

definition check_spread :: "nat \<Rightarrow> nat \<Rightarrow> nat \<Rightarrow> query_set_error + unit" where
  "check_spread narrowest widest n =
     (if saturating_mul widest 4 < n \<or> saturating_mul narrowest 1000 > n then Inl (Narrow_Spread narrowest widest n)
      else Inr ())"

definition template_row ::
    "row_fields list \<Rightarrow> json list \<times> nat \<times> nat \<Rightarrow> nat \<times> shape \<times> json \<Rightarrow> query_set_error + json list \<times> nat \<times> nat" where
  "template_row rows acc t = (case acc of (out, widest, narrowest) \<Rightarrow> case t of (i, shp, conditions) \<Rightarrow>
     rbind (map_err (Outside_Domain (query_id_of i)) (validate_predicate (Some derived_schema) conditions)) (\<lambda>_.
     rbind (map_err (Bad_Predicate (query_id_of i)) (compile_predicate conditions)) (\<lambda>p.
     rbind (map_err Count_Failed (count_matches rows p)) (\<lambda>cnt.
       if cnt = 0 then Inl (Zero_Count (query_id_of i) shp)
       else Inr (out @ [query_row (query_id_of i) shp conditions cnt (length rows)],
                 max widest cnt, min narrowest cnt)))))"

definition filter_query_rows :: "derived_corpus \<Rightarrow> query_set_error + json list" where
  "filter_query_rows c =
     (let rows = map derived_field (rows_of c); n = length rows in
      if n = 0 then Inl Empty_Corpus
      else rbind (filter_query_templates (lookup_keys c)) (\<lambda>templates.
        rbind (ffold (template_row rows) ([], 0, 2 ^ 64 - 1) (enumerate 0 templates)) (\<lambda>(out, widest, narrowest).
        rbind (check_spread narrowest widest n) (\<lambda>_. Inr out))))"

datatype check_error =
    Row_Count nat nat
  | Row_Drift nat string
  | Count_Drift nat
  | Extra_Keys nat

record filter_query_summary =
  summary_queries :: nat
  min_count :: nat
  max_count :: nat

definition check_row :: "nat \<times> json \<times> json \<Rightarrow> check_error + unit" where
  "check_row t = (case t of (i, e, f) \<Rightarrow>
     rbind (check_each (\<lambda>key. if jget key e \<noteq> jget key f then Inl (Row_Drift i key) else Inr ())
       [''query_id'', ''shape'', ''conditions'', ''corpus_size'']) (\<lambda>_.
       if jget ''expected_count'' e \<noteq> jget ''expected_count'' f then Inl (Count_Drift i)
       else if e \<noteq> f then Inl (Extra_Keys i) else Inr ()))"

definition check_filter_queries :: "json list \<Rightarrow> json list \<Rightarrow> check_error + filter_query_summary" where
  "check_filter_queries expected found =
     (if length expected \<noteq> length found then Inl (Row_Count (length found) (length expected))
      else rbind (check_each check_row (enumerate 0 (zip expected found))) (\<lambda>_.
        let cs = List.map_filter (\<lambda>r. as_u64 (jindex r ''expected_count'')) expected in
        Inr \<lparr>summary_queries = length expected,
             min_count = (if cs = [] then 0 else Min (set cs)), max_count = (if cs = [] then 0 else Max (set cs))\<rparr>))"

section \<open>The query set a run executes\<close>

fun leaves :: "predicate \<Rightarrow> (string \<times> leaf) list" where
  "leaves (And c) = concat (map leaves c)"
| "leaves (Or c) = concat (map leaves c)"
| "leaves (Leaf field l) = [(field, l)]"

definition is_text_leaf :: "leaf \<Rightarrow> bool" where
  "is_text_leaf l = (case l of Text_Leaf _ \<Rightarrow> True | _ \<Rightarrow> False)"

definition has_text :: "predicate \<Rightarrow> bool" where
  "has_text p \<longleftrightarrow> list_ex (\<lambda>(_, l). is_text_leaf l) (leaves p)"

definition collect_fields :: "predicate \<Rightarrow> string set" where
  "collect_fields p = fst ` set (leaves p)"

definition INDEXED_KINDS :: "string list" where
  "INDEXED_KINDS = [''keyword'', ''int'', ''float'']"

record prepared_query =
  pq_name :: string
  pq_shape :: string
  expected_count :: nat

record filter_query_set =
  set_conditions :: query_conditions
  prepared :: "prepared_query list option"
  referenced :: "string set"

definition from_conditions :: "query_conditions \<Rightarrow> filter_query_set" where
  "from_conditions conditions = \<lparr>set_conditions = conditions, prepared = None, referenced = {}\<rparr>"

datatype row_error =
    Row_Not_Object
  | Unexpected_Key string
  | Not_Text string
  | Not_Count string
  | Other_Corpus string nat nat
  | Count_Exceeds nat nat
  | Duplicate_Id string
  | No_Conditions
  | Bad_Conditions predicate_error
  | Text_Term

datatype set_error =
    Line_Not_Utf8
  | No_Queries
  | Set_Row nat row_error
  | Corpus_Unmeasured

definition ROW_KEYS :: "string list" where
  "ROW_KEYS = [''query_id'', ''shape'', ''conditions'', ''expected_count'', ''corpus_size'']"

definition row_text :: "(string \<times> json) list \<Rightarrow> string \<Rightarrow> row_error + string" where
  "row_text row k = (case Option.bind (map_of row k) as_string of
       Some s \<Rightarrow> if s = [] then Inl (Not_Text k) else Inr s
     | None \<Rightarrow> Inl (Not_Text k))"

definition row_count :: "(string \<times> json) list \<Rightarrow> string \<Rightarrow> row_error + nat" where
  "row_count row k = ok_or (Not_Count k) (Option.bind (map_of row k) as_u64)"

definition parse_row ::
    "(string \<Rightarrow> json option) \<Rightarrow> nat \<Rightarrow> string set \<Rightarrow> string \<Rightarrow> row_error + prepared_query \<times> json \<times> predicate" where
  "parse_row parse_json corpus_size names line =
     rbind (ok_or Row_Not_Object (Option.bind (parse_json line) as_object)) (\<lambda>row.
     rbind (case List.find (\<lambda>(k, _). k \<notin> set ROW_KEYS) row of Some (k, _) \<Rightarrow> Inl (Unexpected_Key k) | None \<Rightarrow> Inr ()) (\<lambda>_.
     rbind (row_text row ''query_id'') (\<lambda>name.
     rbind (row_text row ''shape'') (\<lambda>shp.
     rbind (row_count row ''expected_count'') (\<lambda>expected.
     rbind (row_count row ''corpus_size'') (\<lambda>sz.
       if sz \<noteq> corpus_size then Inl (Other_Corpus name sz corpus_size)
       else if expected > sz then Inl (Count_Exceeds expected sz)
       else if name \<in> names then Inl (Duplicate_Id name)
       else rbind (ok_or No_Conditions (map_of row ''conditions'')) (\<lambda>condition.
         rbind (map_err Bad_Conditions (compile_predicate condition)) (\<lambda>p.
           if has_text p then Inl Text_Term
           else Inr (\<lparr>pq_name = name, pq_shape = shp, expected_count = expected\<rparr>, condition, p)))))))))"

definition parse_lines ::
    "(string \<Rightarrow> json option) \<Rightarrow> nat \<Rightarrow> string list \<Rightarrow> set_error + (prepared_query \<times> json \<times> predicate) list" where
  "parse_lines parse_json corpus_size ls =
     ffold (\<lambda>acc (n, line).
       rbind (map_err (Set_Row n) (parse_row parse_json corpus_size ((\<lambda>(q, _). pq_name q) ` set acc) line)) (\<lambda>r.
         Inr (acc @ [r]))) [] (enumerate 1 ls)"

definition query_set_of :: "string \<Rightarrow> (prepared_query \<times> json \<times> predicate) list \<Rightarrow> filter_query_set" where
  "query_set_of dataset rs =
     \<lparr>set_conditions = from_dataset dataset (conditions_new (map (\<lambda>(_, c, _). Some c) rs)),
      prepared = Some (map fst rs),
      referenced = (\<Union>(_, _, p) \<in> set rs. collect_fields p)\<rparr>"

definition parse_set :: "(string \<Rightarrow> json option) \<Rightarrow> string \<Rightarrow> string \<Rightarrow> nat \<Rightarrow> set_error + filter_query_set" where
  "parse_set parse_json bytes dataset corpus_size =
     rbind (check_each (\<lambda>l. if valid_utf8 l then Inr () else Inl Line_Not_Utf8) (buf_lines bytes)) (\<lambda>_.
       let all = buf_lines bytes;
           ls = (if all \<noteq> [] \<and> blank (last all) then butlast all else all)
       in if ls = [] then Inl No_Queries
          else rbind (parse_lines parse_json corpus_size ls) (\<lambda>rs. Inr (query_set_of dataset rs)))"

text \<open>\<open>read_prepared\<close>: the file of the directory, if it has one.\<close>

definition read_prepared ::
    "(string \<Rightarrow> json option) \<Rightarrow> string option \<Rightarrow> string \<Rightarrow> nat option \<Rightarrow> set_error + filter_query_set option" where
  "read_prepared parse_json file dataset corpus_size = (case file of
       None \<Rightarrow> Inr None
     | Some bytes \<Rightarrow>
         rbind (ok_or Corpus_Unmeasured corpus_size) (\<lambda>n.
         rbind (parse_set parse_json bytes dataset n) (\<lambda>s. Inr (Some s))))"

definition set_resolve_all ::
    "filter_query_set \<Rightarrow> string \<Rightarrow> (json \<Rightarrow> 'e + 'f option) \<Rightarrow> 'e filter_error + 'f query_filter list" where
  "set_resolve_all s engine parse = try_resolve_all (set_conditions s) engine parse"

definition is_prepared :: "filter_query_set \<Rightarrow> bool" where
  "is_prepared s \<longleftrightarrow> prepared s \<noteq> None"

definition query_shape :: "filter_query_set \<Rightarrow> nat \<Rightarrow> string option" where
  "query_shape s q = (case prepared s of
       Some ps \<Rightarrow> if q < length ps then Some (pq_shape (ps ! q)) else None
     | None \<Rightarrow> None)"

datatype gate_refusal =
    Unchecked_Answers nat nat
  | No_Such_Query nat nat
  | Wrong_Answers nat nat "(string \<times> nat \<times> nat) list"

definition count_answer ::
    "prepared_query list \<Rightarrow> (string \<times> nat \<times> nat) list \<times> nat \<times> nat set \<Rightarrow> nat \<times> nat \<Rightarrow>
     gate_refusal + (string \<times> nat \<times> nat) list \<times> nat \<times> nat set" where
  "count_answer ps acc ob = (case acc of (wrong, wrong_answers, seen) \<Rightarrow> case ob of (q, answer) \<Rightarrow>
     if q \<ge> length ps then Inl (No_Such_Query q (length ps))
     else if answer = expected_count (ps ! q) then Inr acc
     else Inr (if q \<notin> seen \<and> length wrong < 5
               then wrong @ [(pq_name (ps ! q), answer, expected_count (ps ! q))] else wrong,
               wrong_answers + 1, insert q seen))"

definition check_counts :: "filter_query_set \<Rightarrow> (nat \<times> nat) list \<Rightarrow> nat \<Rightarrow> gate_refusal + nat option" where
  "check_counts s observed answered = (case prepared s of
       None \<Rightarrow> Inr None
     | Some ps \<Rightarrow>
         if length observed \<noteq> answered then Inl (Unchecked_Answers (length observed) answered)
         else rbind (ffold (count_answer ps) ([], 0, {}) observed) (\<lambda>(wrong, wrong_answers, _).
           if wrong_answers > 0 then Inl (Wrong_Answers wrong_answers (length observed) wrong)
           else Inr (Some (length observed))))"

definition index_schema :: "json option \<Rightarrow> filter_query_set option \<Rightarrow> json option" where
  "index_schema schema prep = (case prep of
       Some s \<Rightarrow>
         if is_prepared s then
           Option.bind schema (\<lambda>v. map_option (\<lambda>es. Object (filter (\<lambda>(name, kind).
             (case as_string kind of Some k \<Rightarrow> k \<in> set INDEXED_KINDS | None \<Rightarrow> False) \<and> name \<in> referenced s) es)) (as_object v))
         else schema
     | None \<Rightarrow> schema)"

end
