(* ===== verification/Filter_Oracle.thy ===== *)
theory Filter_Oracle
  imports Filter_Queries
begin

text \<open>
  The oracle and the engine: evaluating a compiled predicate on a row (\<open>Predicate::matches\<close>, the source of every
  expected count) against the query text the Redis builder makes of the same condition.
\<close>

section \<open>Rows as documents\<close>

function wf_json :: "json \<Rightarrow> bool" where
  "wf_json v = (case v of
       Array xs \<Rightarrow> list_all wf_json xs
     | Object es \<Rightarrow> distinct (map fst es) \<and> list_all (\<lambda>(_, x). wf_json x) es
     | _ \<Rightarrow> True)"
  by pat_completeness auto
termination
proof (relation "measure size", goal_cases)
  case (2 v xs x)
  then show ?case using size_list_estimation' [of x xs "size x" size] by auto
next
  case (3 v es e k x)
  then have "(k, x) \<in> set es" by auto
  then have "size x \<le> size_list (size_prod (\<lambda>_. 0) size) es" by (rule size_list_estimation') simp
  with 3 show ?case by simp
qed simp

declare wf_json.simps [simp del]

lemma wf_json_simps [simp]:
  "wf_json (Array xs) \<longleftrightarrow> (\<forall>x \<in> set xs. wf_json x)"
  "wf_json (Object es) \<longleftrightarrow> distinct (map fst es) \<and> (\<forall>(_, x) \<in> set es. wf_json x)"
  "wf_json (String s)" "wf_json (Number n)" "wf_json (Bool b)" "wf_json Null"
  by (simp_all add: wf_json.simps [of "Array xs"] wf_json.simps [of "Object es"] wf_json.simps [of "String s"]
      wf_json.simps [of "Number n"] wf_json.simps [of "Bool b"] wf_json.simps [of Null] list_all_iff)

text \<open>
  What Redis holds of a row in the \<open>filter_only\<close> layout: a string under a case-sensitive TAG (or TEXT) field, an integer under a NUMERIC
  field, whose values are binary64.  A text term matches where the classification says that both engines do.
\<close>

definition row_search :: "row_fields search_semantics" where
  "row_search = \<lparr>tag_is = (\<lambda>r f s. r f = Some (Keyword_Value s)),
     numbers = (\<lambda>r f. case r f of Some (Int_Value n) \<Rightarrow> {rnd64 (of_int n)} | _ \<Rightarrow> {}),
     text_matches = (\<lambda>r f t. \<exists>s. r f = Some (Keyword_Value s) \<and> classify s t = Yes),
     geo_near = (\<lambda>_ _ _ _ _. False)\<rparr>"

definition exact_row :: "row_fields \<Rightarrow> bool" where
  "exact_row r \<longleftrightarrow> (\<forall>f n. r f = Some (Int_Value n) \<longrightarrow> \<bar>n\<bar> \<le> 2 ^ 53)"

lemma exact_numbers:
  "exact_row r \<Longrightarrow> numbers row_search r f = (case r f of Some (Int_Value n) \<Rightarrow> {of_int n} | _ \<Rightarrow> {})"
  by (auto simp: row_search_def exact_row_def rnd64_of_int split: option.splits field_value.splits)

section \<open>Leaves\<close>

lemma match_keyword_eq:
  "match_keyword field s hit ops =
     (if list_all (\<lambda>x. \<exists>k. x = Keyword_Op k) ops then Inr (hit \<or> Keyword_Op s \<in> set ops)
      else Inl (Int_Against_Keyword field))"
  by (induction field s hit ops rule: match_keyword.induct) auto

lemma match_int_eq:
  "match_int field n hit ops =
     (if list_all (\<lambda>x. \<exists>k. x = Int_Op k) ops then Inr (hit \<or> Int_Op n \<in> set ops)
      else Inl (Keyword_Against_Int field))"
  by (induction field n hit ops rule: match_int.induct) auto

definition keyword_ops :: "operand list \<Rightarrow> json list \<Rightarrow> bool" where
  "keyword_ops ops vs \<longleftrightarrow> (\<exists>ks. ops = map Keyword_Op ks \<and> vs = map String ks \<and> [] \<notin> set ks)"

definition int_ops :: "operand list \<Rightarrow> json list \<Rightarrow> bool" where
  "int_ops ops vs \<longleftrightarrow> (\<exists>is. ops = map Int_Op is \<and> map as_i64 vs = map Some is \<and> (\<forall>i \<in> set is. \<bar>i\<bar> \<le> 2 ^ 53))"

lemma operands_by_kind:
  assumes "traverse (match_operand field) vs = Inr ops" and "\<forall>v \<in> set vs. domain_operand field v kind b = Inr ()"
  shows "if kind = ''keyword'' then keyword_ops ops vs else int_ops ops vs"
  using assms
proof (induction vs arbitrary: ops)
  case Nil
  then show ?case by (simp add: keyword_ops_def int_ops_def)
next
  case (Cons v vs)
  then obtain x xs where ops: "ops = x # xs" "match_operand field v = Inr x" "traverse (match_operand field) vs = Inr xs"
    by auto
  with Cons have IH: "if kind = ''keyword'' then keyword_ops xs vs else int_ops xs vs"
    and v: "domain_operand field v kind b = Inr ()" by auto
  show ?case
  proof (cases "kind = ''keyword''")
    case True
    with v obtain s where "v = String s" "s \<noteq> []"
      by (auto simp: domain_operand_def as_string_iff keyword_def split: if_splits)
    moreover from IH True obtain ks where "xs = map Keyword_Op ks" "vs = map String ks" "[] \<notin> set ks"
      by (auto simp: keyword_ops_def)
    ultimately show ?thesis using True ops by (auto simp: keyword_ops_def match_operand_def intro!: exI [of _ "s # ks"])
  next
    case False
    with v have "as_string v = None"
      by (cases v) (auto simp: domain_operand_def number_operand_def)
    with ops(2) obtain i where "as_i64 v = Some i" "x = Int_Op i" "\<bar>i\<bar> \<le> 2 ^ 53"
      by (auto simp: match_operand_def MAX_EXACT_INTEGER_def split: option.splits if_splits)
    moreover from IH False obtain js where "xs = map Int_Op js" "map as_i64 vs = map Some js" "\<forall>i \<in> set js. \<bar>i\<bar> \<le> 2 ^ 53"
      by (auto simp: int_ops_def)
    ultimately show ?thesis using False ops(1) by (auto simp: int_ops_def intro!: exI [of _ "i # js"])
  qed
qed

lemma as_i64_not_String: "as_i64 v = Some i \<Longrightarrow> \<exists>n. v = Number n"
  by (cases v) auto

lemma as_i64_number_param: "as_i64 v = Some i \<Longrightarrow> number_param dt v = Some (Int_Param i)"
  by (simp add: number_param_def)

text \<open>A match, by value or by list, over the documents of exact rows.\<close>

definition any_holds :: "row_fields \<Rightarrow> string \<Rightarrow> json list \<Rightarrow> bool" where
  "any_holds r field vs \<longleftrightarrow> (\<exists>v \<in> set vs. case v of
       String s \<Rightarrow> s \<noteq> [] \<and> tag_is row_search r field s
     | _ \<Rightarrow> (\<exists>i. as_i64 v = Some i \<and> of_int i \<in> numbers row_search r field))"

lemma any_holds_keyword:
  "keyword_ops ops vs \<Longrightarrow> any_holds r field vs \<longleftrightarrow> (\<exists>s. r field = Some (Keyword_Value s) \<and> Keyword_Op s \<in> set ops)"
  by (auto simp: keyword_ops_def any_holds_def row_search_def)

lemma any_holds_int:
  assumes "int_ops ops vs" and "exact_row r"
  shows "any_holds r field vs \<longleftrightarrow> (\<exists>n. r field = Some (Int_Value n) \<and> Int_Op n \<in> set ops)"
proof -
  from assms(1) obtain js where js: "ops = map Int_Op js" "map as_i64 vs = map Some js" by (auto simp: int_ops_def)
  have "any_holds r field vs \<longleftrightarrow> (\<exists>v \<in> set vs. \<exists>i. as_i64 v = Some i \<and> of_int i \<in> numbers row_search r field)"
    unfolding any_holds_def
  proof (rule bex_cong [OF refl])
    fix v assume "v \<in> set vs"
    then have "as_i64 v \<in> set (map as_i64 vs)" by simp
    then obtain i where "as_i64 v = Some i" by (auto simp: js(2))
    with as_i64_not_String [OF this] show "(case v of
         String s \<Rightarrow> s \<noteq> [] \<and> tag_is row_search r field s
       | _ \<Rightarrow> (\<exists>i. as_i64 v = Some i \<and> of_int i \<in> numbers row_search r field)) \<longleftrightarrow>
       (\<exists>i. as_i64 v = Some i \<and> of_int i \<in> numbers row_search r field)" by auto
  qed
  also have "\<dots> \<longleftrightarrow> (\<exists>i. Some i \<in> set (map as_i64 vs) \<and> of_int i \<in> numbers row_search r field)" unfolding set_map image_iff by metis
  also have "\<dots> \<longleftrightarrow> (\<exists>i \<in> set js. of_int i \<in> numbers row_search r field)" unfolding js(2) by auto
  also have "\<dots> \<longleftrightarrow> (\<exists>n. r field = Some (Int_Value n) \<and> Int_Op n \<in> set ops)"
    using assms(2) by (auto simp: exact_numbers js(1) split: option.splits field_value.splits)
  finally show ?thesis .
qed

lemma match_ops_means:
  assumes ops: "if kind = ''keyword'' then keyword_ops ops vs else int_ops ops vs" and "ops \<noteq> []" and r: "exact_row r"
    and ok: "is_ok (pmatches r (Leaf field (Match_Leaf ops)))"
  shows "pmatches r (Leaf field (Match_Leaf ops)) = Inr (any_holds r field vs)"
proof (cases "r field")
  case None
  with ops r show ?thesis by (auto simp: any_holds_keyword any_holds_int split: if_splits)
next
  case (Some v)
  have all: "list_all (\<lambda>x. \<exists>k. x = Keyword_Op k) ops" if "kind = ''keyword''" using ops that by (auto simp: keyword_ops_def list_all_iff)
  have alli: "list_all (\<lambda>x. \<exists>k. x = Int_Op k) ops" if "kind \<noteq> ''keyword''" using ops that by (auto simp: int_ops_def list_all_iff)
  have none: "\<not> list_all (\<lambda>x. \<exists>k. x = Int_Op k) ops" if "kind = ''keyword''"
    using all [OF that] \<open>ops \<noteq> []\<close> by (cases ops) auto
  have nonei: "\<not> list_all (\<lambda>x. \<exists>k. x = Keyword_Op k) ops" if "kind \<noteq> ''keyword''"
    using alli [OF that] \<open>ops \<noteq> []\<close> by (cases ops) auto
  show ?thesis
  proof (cases "kind = ''keyword''")
    case True
    with ops have "keyword_ops ops vs" by simp
    with Some ok True all none show ?thesis
      by (cases v) (auto simp: match_keyword_eq match_int_eq any_holds_keyword)
  next
    case False
    with ops have "int_ops ops vs" by simp
    with Some ok False alli nonei r show ?thesis
      by (cases v) (auto simp: match_keyword_eq match_int_eq any_holds_int)
  qed
qed


definition bound_of :: "(string \<times> json) list \<Rightarrow> string \<Rightarrow> real option \<Rightarrow> real option" where
  "bound_of es k prev = (case map_of es k of Some v \<Rightarrow> as_f64 v | None \<Rightarrow> prev)"

lemma put_bounds:
  assumes "ffold (put_bound field) (a, b, c, d) es = Inr (gt, gte, lt, lte)" and "distinct (map fst es)"
  shows "gt = bound_of es ''gt'' a \<and> gte = bound_of es ''gte'' b \<and> lt = bound_of es ''lt'' c \<and> lte = bound_of es ''lte'' d \<and>
    (\<forall>(k, v) \<in> set es. k \<in> {''gt'', ''gte'', ''lt'', ''lte''} \<and> as_f64 v \<noteq> None)"
  using assms
proof (induction es arbitrary: a b c d)
  case Nil
  then show ?case by (simp add: bound_of_def)
next
  case (Cons e es)
  obtain k v where e: "e = (k, v)" by force
  with Cons(3) have none: "map_of es k = None" by (auto simp: map_of_eq_None_iff)
  from Cons(2) e obtain a' b' c' d' where step: "put_bound field (a, b, c, d) (k, v) = Inr (a', b', c', d')"
    and rest: "ffold (put_bound field) (a', b', c', d') es = Inr (gt, gte, lt, lte)" by auto
  from Cons(1) [OF rest] Cons(3) have IH: "gt = bound_of es ''gt'' a'" "gte = bound_of es ''gte'' b'"
    "lt = bound_of es ''lt'' c'" "lte = bound_of es ''lte'' d'"
    "\<forall>(k, v) \<in> set es. k \<in> {''gt'', ''gte'', ''lt'', ''lte''} \<and> as_f64 v \<noteq> None" by auto
  from step have "k \<in> {''gt'', ''gte'', ''lt'', ''lte''} \<and> as_f64 v \<noteq> None"
    by (auto simp: put_bound_def split: option.splits if_splits)
  moreover have "gt = bound_of (e # es) ''gt'' a \<and> gte = bound_of (e # es) ''gte'' b \<and> lt = bound_of (e # es) ''lt'' c \<and>
      lte = bound_of (e # es) ''lte'' d"
    using step none e by (auto simp: IH(1-4) bound_of_def put_bound_def split: option.splits if_splits)
  ultimately show ?case using IH(5) e by auto
qed

lemma domain_bound_param:
  assumes "domain_bound field kind (k, v) = Inr ()"
  shows "\<exists>x b. number_param dt v = Some x \<and> as_f64 v = Some b \<and> num_of x = Finite b"
proof -
  from assms have n: "number_operand field v False = Inr ()" by (auto simp: domain_bound_def split: if_splits)
  show ?thesis
  proof (cases "as_i64 v")
    case (Some i)
    with n have "\<bar>i\<bar> \<le> 2 ^ 53" by (auto simp: number_operand_def integer_def MAX_EXACT_def split: if_splits)
    then have r: "rnd64 (of_int i) = of_int i" by (rule rnd64_of_int)
    from Some obtain m where "v = Number (PosInt m) \<and> i = int m \<or> v = Number (NegInt i)"
      by (cases v rule: as_i64.cases) (auto split: if_splits)
    with r Some show ?thesis by (auto simp: number_param_def f64_of_nat_def)
  next
    case None
    with n show ?thesis by (auto simp: number_operand_def number_param_def split: if_splits)
  qed
qed

lemma range_leaf_means:
  assumes c: "compile_range field (Object es) = Inr l" and d: "domain_range field kind (Object es) = Inr ()"
    and wf: "distinct (map fst es)" and r: "exact_row r" and ok: "is_ok (pmatches r (Leaf field l))"
  shows "pmatches r (Leaf field l) = Inr (leaf_holds row_search dt field ''range'' (Object es) r)"
proof -
  from c obtain gt gte lt lte where l: "l = Range_Leaf gt gte lt lte"
    and f: "ffold (put_bound field) (None, None, None, None) es = Inr (gt, gte, lt, lte)"
    by (cases es) (auto simp: compile_range_def split: if_splits)
  note b = put_bounds [OF f wf]
  have dom: "\<forall>(k, v) \<in> set es. domain_bound field kind (k, v) = Inr ()"
    using d by (auto simp: domain_range_def Let_def split: if_splits)
  define Q where "Q key (P :: real \<Rightarrow> bool) \<longleftrightarrow>
    (\<forall>v. map_of es key = Some v \<longrightarrow> (\<exists>x b. number_param dt v = Some x \<and> num_of x = Finite b \<and> P b))" for key P
  have Q: "Q key P \<longleftrightarrow> none_or P (bound_of es key None)" for key P
  proof (cases "map_of es key")
    case (Some v)
    with dom domain_bound_param [of field kind key v dt] show ?thesis
      by (fastforce simp: Q_def none_or_def bound_of_def dest: map_of_SomeD)
  qed (simp add: Q_def none_or_def bound_of_def)
  have cmp: "(\<exists>x. number_param dt v = Some x \<and> above (num_of x) s y) \<longleftrightarrow>
        (\<exists>x b. number_param dt v = Some x \<and> num_of x = Finite b \<and> (if s then b < y else b \<le> y))"
      "(\<exists>x. number_param dt v = Some x \<and> below (num_of x) s y) \<longleftrightarrow>
        (\<exists>x b. number_param dt v = Some x \<and> num_of x = Finite b \<and> (if s then y < b else y \<le> b))"
    if "map_of es key = Some v" for key v s y
    using dom domain_bound_param [of field kind key v dt] that by (fastforce dest: map_of_SomeD)+
  have sat: "(\<forall>(key, op) \<in> set range_keys. \<forall>v. map_of es key = Some v \<longrightarrow>
           (\<exists>x. number_param dt v = Some x \<and> (case op of
                Op_Lt \<Rightarrow> below (num_of x) True y
              | Op_Lte \<Rightarrow> below (num_of x) False y
              | Op_Gt \<Rightarrow> above (num_of x) True y
              | Op_Gte \<Rightarrow> above (num_of x) False y))) \<longleftrightarrow>
      none_or (\<lambda>b. y > b) gt \<and> none_or (\<lambda>b. y \<ge> b) gte \<and> none_or (\<lambda>b. y < b) lt \<and> none_or (\<lambda>b. y \<le> b) lte" for y
    unfolding b [THEN conjunct1] b [THEN conjunct2, THEN conjunct1] b [THEN conjunct2, THEN conjunct2, THEN conjunct1]
      b [THEN conjunct2, THEN conjunct2, THEN conjunct2, THEN conjunct1] Q [symmetric] Q_def
    by (simp add: range_keys_def cmp cong: conj_cong imp_cong) blast
  show ?thesis
    using ok r
    by (auto simp: l leaf_holds.simps sat exact_numbers exact_row_def rnd64_of_int MAX_EXACT_INTEGER_def Let_def
        split: option.splits field_value.splits)
qed


section \<open>Groups\<close>

lemma list_all2_partner: "list_all2 P xs ys \<Longrightarrow> x \<in> set xs \<Longrightarrow> \<exists>y \<in> set ys. P x y"
  by (induction xs ys rule: list_all2_induct) auto

lemma list_all2_partner': "list_all2 P xs ys \<Longrightarrow> y \<in> set ys \<Longrightarrow> \<exists>x \<in> set xs. P x y"
  by (induction xs ys rule: list_all2_induct) auto

lemma all_match_means:
  "list_all2 (\<lambda>c p. pmatches r p = Inr (h c)) cs ps \<Longrightarrow> all_match r ps = Inr (\<forall>c \<in> set cs. h c)"
  by (induction cs ps rule: list_all2_induct) auto

lemma any_match_means:
  "list_all2 (\<lambda>c p. pmatches r p = Inr (h c)) cs ps \<Longrightarrow> any_match r ps = Inr (\<exists>c \<in> set cs. h c)"
  by (induction cs ps rule: list_all2_induct) auto

definition clean_row :: "predicate \<Rightarrow> row_fields \<Rightarrow> bool" where
  "clean_row p r \<longleftrightarrow> (\<forall>(f, l) \<in> set (leaves p). is_ok (pmatches r (Leaf f l)))"

lemma match_leaf_ops:
  assumes c: "compile_match field criteria = Inr l" and d: "domain_match field kind criteria = Inr ()"
  shows "\<exists>ops vs. l = Match_Leaf ops \<and> ops \<noteq> [] \<and> (if kind = ''keyword'' then keyword_ops ops vs else int_ops ops vs) \<and>
    (criteria = Object [(''any'', Array vs)] \<or> (\<exists>v. vs = [v] \<and> criteria = Object [(''value'', v)]))"
proof -
  from d obtain k v where es: "criteria = Object [(k, v)]" and k: "k = ''any'' \<or> k = ''value''"
    by (auto simp: domain_match_def as_object_iff length_Suc_conv split: if_splits)
  show ?thesis
  proof (cases "k = ''any''")
    case True
    with c es obtain x xs ops where v: "v = Array (x # xs)" and ops: "traverse (match_operand field) (x # xs) = Inr ops"
      and l: "l = Match_Leaf ops"
      by (auto simp: compile_match_def as_array_iff split: option.splits list.splits)
    have "\<forall>y \<in> set (x # xs). domain_operand field y kind True = Inr ()"
      using d es True v by (auto simp: domain_match_def split: if_splits)
    from operands_by_kind [OF ops this] ops l es True v show ?thesis by auto
  next
    case False
    with k have kv: "k = ''value''" by simp
    with c es obtain x where x: "match_operand field v = Inr x" and l: "l = Match_Leaf [x]"
      by (auto simp: compile_match_def split: option.splits)
    have dv: "\<forall>y \<in> set [v]. domain_operand field y kind (kind = ''int'') = Inr ()"
      using d es kv by (auto simp: domain_match_def split: if_splits)
    have "traverse (match_operand field) [v] = Inr [x]" using x by simp
    from operands_by_kind [OF this dv] l es kv show ?thesis by auto
  qed
qed

lemma match_leaf_means:
  assumes c: "compile_match field criteria = Inr l" and d: "domain_match field kind criteria = Inr ()"
    and r: "exact_row r" and ok: "is_ok (pmatches r (Leaf field l))"
  shows "pmatches r (Leaf field l) = Inr (leaf_holds row_search dt field ''match'' criteria r) \<and>
    leaf_supported dt ''match'' criteria"
proof -
  from match_leaf_ops [OF c d] obtain ops vs where l: "l = Match_Leaf ops" "ops \<noteq> []" and
    kind: "if kind = ''keyword'' then keyword_ops ops vs else int_ops ops vs" and
    cr: "criteria = Object [(''any'', Array vs)] \<or> (\<exists>v. vs = [v] \<and> criteria = Object [(''value'', v)])" by blast
  from match_ops_means [OF kind l(2) r] ok l(1) have p: "pmatches r (Leaf field l) = Inr (any_holds r field vs)" by simp
  have uniform: "if kind = ''keyword'' then \<forall>v \<in> set vs. \<exists>s. v = String s \<and> s \<noteq> [] else \<forall>v \<in> set vs. \<exists>i. as_i64 v = Some i"
  proof (cases "kind = ''keyword''")
    case True
    with kind show ?thesis by (auto simp: keyword_ops_def)
  next
    case False
    with kind have "int_ops ops vs" by simp
    then obtain js where "map as_i64 vs = map Some js" unfolding int_ops_def by (elim exE conjE)
    then have "as_i64 y \<in> Some ` set js" if "y \<in> set vs" for y using that by (metis image_eqI list.set_map)
    with False show ?thesis by auto
  qed
  from cr show ?thesis
  proof
    assume "criteria = Object [(''any'', Array vs)]"
    with p uniform show ?thesis
      by (auto simp: leaf_holds.simps any_holds_def leaf_supported_def list_all_iff split: if_splits)
  next
    assume "\<exists>v. vs = [v] \<and> criteria = Object [(''value'', v)]"
    then obtain v where v: "vs = [v]" "criteria = Object [(''value'', v)]" by blast
    show ?thesis
    proof (cases "kind = ''keyword''")
      case True
      with uniform v p show ?thesis by (auto simp: leaf_holds.simps any_holds_def leaf_supported_def is_scalar_def)
    next
      case False
      with uniform v obtain i where i: "as_i64 v = Some i" by auto
      with as_i64_not_String obtain n where "v = Number n" by blast
      with p v i show ?thesis
        by (auto simp: any_holds_def leaf_holds.simps leaf_supported_def is_scalar_def as_i64_number_param)
    qed
  qed
qed

lemma leaf_means_oracle:
  assumes c: "compile_leaf field body = Inr l" and d: "domain_leaf field body kind = Inr ()" and wf: "wf_json body"
    and r: "exact_row r" and ok: "is_ok (pmatches r (Leaf field l))"
  shows "\<exists>op criteria. body = Object [(op, criteria)] \<and> leaf_supported dt op criteria \<and>
    pmatches r (Leaf field l) = Inr (leaf_holds row_search dt field op criteria r)"
proof -
  from c obtain op criteria where body: "body = Object [(op, criteria)]"
    by (auto simp: compile_leaf_def as_object_iff split: option.splits list.splits)
  show ?thesis
  proof (cases "op = ''match''")
    case True
    with c d body have m: "compile_match field criteria = Inr l" "domain_match field kind criteria = Inr ()"
      by (simp_all add: compile_leaf_def domain_leaf_def)
    with match_leaf_means [OF m r ok] True body show ?thesis by auto
  next
    case False
    with c d body have op: "op = ''range''" and m: "compile_range field criteria = Inr l" "domain_range field kind criteria = Inr ()"
      by (simp_all add: compile_leaf_def domain_leaf_def split: if_splits)
    then obtain es where es: "criteria = Object es" by (cases criteria) (auto simp: compile_range_def)
    have dom: "\<forall>(k, v) \<in> set es. domain_bound field kind (k, v) = Inr ()" and "es \<noteq> []"
      using m(2) es by (auto simp: domain_range_def Let_def split: if_splits)
    have ks: "(\<exists>(k, v) \<in> set es. k \<in> {''lt'', ''gt'', ''lte'', ''gte''})"
      using dom \<open>es \<noteq> []\<close> by (cases es) (auto simp: domain_bound_def split: if_splits)
    have "leaf_supported dt ''range'' (Object es)"
    proof -
      have "number_param dt v \<noteq> None" if "map_of es key = Some v" for key v
        using dom domain_bound_param [of field kind key v dt] map_of_SomeD [OF that] by fastforce
      moreover have "\<exists>key \<in> {''lt'', ''gt'', ''lte'', ''gte''}. map_of es key \<noteq> None"
        using ks by (auto simp: map_of_eq_None_iff image_iff) force+
      ultimately show ?thesis
        by (auto simp: leaf_supported_def range_keys_def split: option.splits)
    qed
    with range_leaf_means [of field es l kind r dt] m es r ok op body wf show ?thesis by auto
  qed
qed


lemma group_condition:
  "condition_holds S dt (Object [(''and'', Array xs)]) r \<longleftrightarrow> (\<forall>x \<in> set xs. condition_holds S dt x r)"
  "condition_holds S dt (Object [(''or'', Array xs)]) r \<longleftrightarrow> (\<exists>x \<in> set xs. condition_holds S dt x r)"
  "condition_supported dt (Object [(''and'', Array xs)]) \<longleftrightarrow> xs \<noteq> [] \<and> (\<forall>x \<in> set xs. condition_supported dt x)"
  "condition_supported dt (Object [(''or'', Array xs)]) \<longleftrightarrow> xs \<noteq> [] \<and> (\<forall>x \<in> set xs. condition_supported dt x)"
  by (simp_all add: condition_holds.simps [of S dt "Object [(''and'', Array xs)]"]
      condition_holds.simps [of S dt "Object [(''or'', Array xs)]"] condition_supported.simps [of dt "Object [(''and'', Array xs)]"]
      condition_supported.simps [of dt "Object [(''or'', Array xs)]"] is_group_def group_entries_def list_all_iff)

lemma leaf_condition:
  assumes "field \<noteq> ''and''" "field \<noteq> ''or''"
  shows "condition_holds S dt (Object [(field, Object [(ct, criteria)])]) r \<longleftrightarrow> leaf_holds S dt field ct criteria r"
    and "condition_supported dt (Object [(field, Object [(ct, criteria)])]) \<longleftrightarrow> leaf_supported dt ct criteria"
  using assms
  by (simp_all add: condition_holds.simps [of S dt "Object [(field, Object [(ct, criteria)])]"]
      condition_supported.simps [of dt "Object [(field, Object [(ct, criteria)])]"] is_group_def)

lemma validate_leaf_node:
  assumes "validate_predicate schema (Object [(field, body)]) = Inr ()" and "field \<noteq> ''and''" "field \<noteq> ''or''"
  obtains kind where "domain_leaf field body kind = Inr ()"
  using assms by (auto simp: validate_predicate.simps domain_field_def split: option.splits if_splits)

lemma compile_node_InrE:
  assumes "compile_node v = Inr p"
  obtains (group) key x xs children where "v = Object [(key, Array (x # xs))]" "key = ''and'' \<or> key = ''or''"
      "list_all2 (\<lambda>c q. compile_node c = Inr q) (x # xs) children" "p = (if key = ''and'' then And children else Or children)"
    | (leaf) key body l where "v = Object [(key, body)]" "key \<noteq> ''and''" "key \<noteq> ''or''" "compile_leaf key body = Inr l"
      "p = Leaf key l"
proof -
  from assms obtain key body where v: "v = Object [(key, body)]"
    unfolding compile_node.simps [of v] by (auto split: json.splits list.splits)
  show ?thesis
  proof (cases "key = ''and'' \<or> key = ''or''")
    case True
    with assms v obtain ys where body: "body = Array ys" unfolding compile_node.simps [of v] by (cases body) auto
    with True assms v have "ys \<noteq> []" unfolding compile_node.simps [of v] by auto
    then obtain x xs where "ys = x # xs" by (cases ys) auto
    moreover from this True assms v body obtain children where "traverse compile_node (x # xs) = Inr children"
        "p = (if key = ''and'' then And children else Or children)"
      unfolding compile_node.simps [of v] by (auto simp del: traverse.simps split: if_splits)
    ultimately obtain x xs children where "ys = x # xs" "traverse compile_node (x # xs) = Inr children"
        "p = (if key = ''and'' then And children else Or children)" by blast
    then show ?thesis using v body True by (intro group [of key x xs children]) (simp_all only: traverse_Inr_iff)
  next
    case False
    with assms v leaf show ?thesis unfolding compile_node.simps [of v] by auto
  qed
qed

lemma node_means:
  assumes "compile_node c = Inr p" and "validate_predicate schema c = Inr ()" and "wf_json c" and "exact_row r" and "clean_row p r"
  shows "pmatches r p = Inr (condition_holds row_search dt c r) \<and> condition_supported dt c"
  using assms(1,2,3,5)
proof (induction c arbitrary: p rule: compile_node.induct)
  case (1 v)
  from 1(2) show ?case
  proof (cases rule: compile_node_InrE)
    case (group key x xs children)
    note v = group(1) and True = group(2) and ch = group(3) and p = group(4)
    define body where "body = Array (x # xs)"
    note v = v [folded body_def]
    have val: "\<forall>y \<in> set (x # xs). validate_predicate schema y = Inr ()"
      using 1(3) True unfolding v body_def validate_predicate.simps [of schema "Object [(key, Array (x # xs))]"] by auto
    have clean: "\<forall>q \<in> set children. clean_row q r" using 1(5) p by (auto simp: clean_row_def split: if_splits)
    have IH: "pmatches r q = Inr (condition_holds row_search dt y r) \<and> condition_supported dt y"
      if "y \<in> set (x # xs)" "q \<in> set children" "compile_node y = Inr q" for y q
      using 1(1) [OF v refl refl refl True body_def refl that(1,3)] val that clean 1(4) v body_def by auto
    have all: "list_all2 (\<lambda>y q. pmatches r q = Inr (condition_holds row_search dt y r)) (x # xs) children"
      by (rule list.rel_mono_strong [OF ch]) (use IH in blast)
    have sup: "\<forall>y \<in> set (x # xs). condition_supported dt y"
    proof
      fix y assume "y \<in> set (x # xs)"
      with ch obtain q where "q \<in> set children" "compile_node y = Inr q"
        by (blast dest: list_all2_partner)
      with IH \<open>y \<in> set (x # xs)\<close> show "condition_supported dt y" by blast
    qed
    show ?thesis
      using True all_match_means [OF all] any_match_means [OF all] p sup unfolding v body_def
      by (elim disjE) (simp_all add: group_condition)
  next
    case (leaf key body l)
    note v = leaf(1) and l = leaf(4) and p = leaf(5)
    from leaf 1(3) obtain kind where "domain_leaf key body kind = Inr ()" by (metis validate_leaf_node)
    with leaf_means_oracle [OF l this _ assms(4), of dt] 1(4,5) p v obtain op criteria where
      *: "body = Object [(op, criteria)]" "leaf_supported dt op criteria"
        "pmatches r p = Inr (leaf_holds row_search dt key op criteria r)"
      by (auto simp: clean_row_def)
    with v leaf show ?thesis by (simp add: leaf_condition)
  qed
qed


section \<open>Derived rows\<close>

lemma derived_exact: "derived_ok d \<Longrightarrow> exact_row (derived_field d)"
  by (auto simp: exact_row_def derived_field_def derived_ok_def TIER_COUNT_def RAND_KEY_SPAN_def Let_def split: if_splits)

lemma derived_kind:
  assumes "field_kind (Some derived_schema) field = Some kind" and "derived_ok d"
  shows "if kind = ''keyword'' then \<exists>s. derived_field d field = Some (Keyword_Value s)
    else \<exists>n. derived_field d field = Some (Int_Value n) \<and> \<bar>n\<bar> \<le> 2 ^ 53"
  using assms derived_exact [OF assms(2)]
  by (auto simp: field_kind_def derived_schema_def derived_field_def exact_row_def Let_def split: if_splits Option.bind_splits)

lemma derived_leaf_clean:
  assumes c: "compile_leaf field body = Inr l" and d: "domain_leaf field body kind = Inr ()"
    and k: "field_kind (Some derived_schema) field = Some kind" and r: "derived_ok d"
  shows "is_ok (pmatches (derived_field d) (Leaf field l))"
proof -
  from c obtain op criteria where body: "body = Object [(op, criteria)]"
    by (auto simp: compile_leaf_def as_object_iff split: option.splits list.splits)
  note dk = derived_kind [OF k r]
  show ?thesis
  proof (cases "op = ''match''")
    case True
    with c d body have m: "compile_match field criteria = Inr l" "domain_match field kind criteria = Inr ()"
      by (simp_all add: compile_leaf_def domain_leaf_def)
    from match_leaf_ops [OF m] obtain ops vs where l: "l = Match_Leaf ops" and
      ops: "if kind = ''keyword'' then keyword_ops ops vs else int_ops ops vs" by blast
    show ?thesis
    proof (cases "kind = ''keyword''")
      case True
      with dk ops l show ?thesis by (auto simp: match_keyword_eq keyword_ops_def list_all_iff)
    next
      case False
      with dk ops l show ?thesis by (auto simp: match_int_eq int_ops_def list_all_iff)
    qed
  next
    case False
    with c d body have m: "compile_range field criteria = Inr l" "domain_range field kind criteria = Inr ()"
      by (simp_all add: compile_leaf_def domain_leaf_def split: if_splits)
    from m(1) obtain gt gte lt lte where "l = Range_Leaf gt gte lt lte"
      by (auto simp: compile_range_def split: option.splits list.splits if_splits)
    moreover from m(2) have "kind \<noteq> ''keyword''" by (auto simp: domain_range_def)
    ultimately show ?thesis using dk by (auto simp: MAX_EXACT_INTEGER_def Let_def)
  qed
qed

lemma derived_clean:
  assumes "compile_node c = Inr p" and "validate_predicate (Some derived_schema) c = Inr ()" and "derived_ok d"
  shows "clean_row p (derived_field d)"
  using assms(1,2)
proof (induction c arbitrary: p rule: compile_node.induct)
  case (1 v)
  from 1(2) show ?case
  proof (cases rule: compile_node_InrE)
    case (group key x xs children)
    define body where "body = Array (x # xs)"
    note v = group(1) [folded body_def]
    have val: "\<forall>y \<in> set (x # xs). validate_predicate (Some derived_schema) y = Inr ()"
      using 1(3) group(2) unfolding v body_def validate_predicate.simps [of _ "Object [(key, Array (x # xs))]"] by auto
    have "clean_row q (derived_field d)" if q: "q \<in> set children" for q
    proof -
      from list_all2_partner' [OF group(3) q] obtain y where "y \<in> set (x # xs)" "compile_node y = Inr q" by blast
      with 1(1) [OF v refl refl refl group(2) body_def refl this] val show ?thesis by blast
    qed
    with group(4) show ?thesis by (auto simp: clean_row_def split: if_splits)
  next
    case (leaf key body l)
    from 1(3) leaf obtain kind where "field_kind (Some derived_schema) key = Some kind" "domain_leaf key body kind = Inr ()"
      unfolding leaf(1) validate_predicate.simps [of _ "Object [(key, body)]"]
      by (auto simp: domain_field_def split: option.splits if_splits)
    with derived_leaf_clean leaf assms(3) show ?thesis by (auto simp: clean_row_def)
  qed
qed


section \<open>Every query template is expressible\<close>

definition expressible :: "json \<Rightarrow> bool" where
  "expressible c \<longleftrightarrow> wf_json c \<and> validate_predicate (Some derived_schema) c = Inr () \<and> is_ok (compile_node c)"

lemma expressible_group:
  assumes "xs \<noteq> []" and "\<forall>x \<in> set xs. expressible x"
  shows "expressible (and_json xs)" and "expressible (or_json xs)"
proof -
  obtain y ys where xs: "xs = y # ys" using assms(1) by (cases xs) auto
  have "is_ok (traverse compile_node (y # ys))" using assms(2) xs by (auto simp: is_ok_traverse_iff expressible_def simp del: traverse.simps)
  then obtain ps where ps: "traverse compile_node (y # ys) = Inr ps" by (auto simp: is_ok_iff)
  show "expressible (and_json xs)" "expressible (or_json xs)"
    unfolding expressible_def and_json_def or_json_def xs
      validate_predicate.simps [of _ "Object [(''and'', Array (y # ys))]"] compile_node.simps [of "Object [(''and'', Array (y # ys))]"]
      validate_predicate.simps [of _ "Object [(''or'', Array (y # ys))]"] compile_node.simps [of "Object [(''or'', Array (y # ys))]"]
    using assms(2) by (auto simp: ps expressible_def xs simp del: traverse.simps)
qed

lemma expressible_leaf:
  assumes "field \<noteq> ''and''" "field \<noteq> ''or''" and "wf_json body" and "field_kind (Some derived_schema) field = Some kind"
    and "domain_leaf field body kind = Inr ()" and "is_ok (compile_leaf field body)"
  shows "expressible (Object [(field, body)])"
proof -
  have "kind \<in> {''keyword'', ''int'', ''float''}"
    using assms(4) by (auto simp: field_kind_def derived_schema_def split: if_splits Option.bind_splits)
  with assms show ?thesis
    unfolding expressible_def validate_predicate.simps [of _ "Object [(field, body)]"] compile_node.simps [of "Object [(field, body)]"]
    by (auto simp: domain_field_def is_ok_iff)
qed

lemma wf_jnat [simp]: "wf_json (jnat n)"
  by (simp add: jnat_def)

lemma exact_operand:
  assumes "n \<le> 2 ^ 53"
  shows "number_operand field (jnat n) b = Inr ()" and "match_operand field (jnat n) = Inr (Int_Op (int n))"
    and "as_f64 (jnat n) = Some (of_nat n)" and "real n \<le> 2 ^ 53"
proof -
  have "n < 2 ^ 63" using assms by simp
  moreover have "int n \<le> 2 ^ 53" using assms by simp
  ultimately show "number_operand field (jnat n) b = Inr ()" "match_operand field (jnat n) = Inr (Int_Op (int n))"
    by (simp_all add: number_operand_def match_operand_def jnat_def integer_def MAX_EXACT_def MAX_EXACT_INTEGER_def)
  show "as_f64 (jnat n) = Some (of_nat n)" using assms by (simp add: jnat_def f64_of_nat_exact)
  show "real n \<le> 2 ^ 53" using assms by simp
qed

lemma int_fields: "field \<in> {''doc_len'', ''tier'', ''rand_key''} \<Longrightarrow> field_kind (Some derived_schema) field = Some ''int''"
  by (auto simp: field_kind_def derived_schema_def)

lemma expressible_eq_int:
  assumes "field \<in> {''doc_len'', ''tier'', ''rand_key''}" and "n \<le> 2 ^ 53"
  shows "expressible (eq_json field (jnat n))"
  unfolding eq_json_def leaf_json_def
proof (rule expressible_leaf [OF _ _ _ int_fields [OF assms(1)]])
  show "domain_leaf field (Object [(''match'', Object [(''value'', jnat n)])]) ''int'' = Inr ()"
    using exact_operand(1) [OF assms(2)] by (simp add: domain_leaf_def domain_match_def domain_operand_def)
  show "is_ok (compile_leaf field (Object [(''match'', Object [(''value'', jnat n)])]))"
    using exact_operand(2) [OF assms(2)] by (simp add: compile_leaf_def compile_match_def)
qed (use assms(1) in \<open>auto simp: jnat_def\<close>)

lemma expressible_eq_keyword:
  assumes "keyword ''category'' s = Inr ()"
  shows "expressible (eq_json ''category'' (String s))"
  unfolding eq_json_def leaf_json_def
proof (rule expressible_leaf [where kind = "''keyword''"])
  show "domain_leaf ''category'' (Object [(''match'', Object [(''value'', String s)])]) ''keyword'' = Inr ()"
    using assms by (simp add: domain_leaf_def domain_match_def domain_operand_def)
qed (simp_all add: field_kind_def derived_schema_def compile_leaf_def compile_match_def match_operand_def)

lemma put_bound_exact:
  assumes "n \<le> 2 ^ 53"
  shows "put_bound field (a, b, c, d) (''gt'', jnat n) = Inr (Some (of_nat n), b, c, d)"
    "put_bound field (a, b, c, d) (''gte'', jnat n) = Inr (a, Some (of_nat n), c, d)"
    "put_bound field (a, b, c, d) (''lt'', jnat n) = Inr (a, b, Some (of_nat n), d)"
    "put_bound field (a, b, c, d) (''lte'', jnat n) = Inr (a, b, c, Some (of_nat n))"
  using exact_operand(3,4) [OF assms] by (simp_all add: put_bound_def MAX_EXACT_INTEGER_def)

lemma domain_bound_exact:
  "n \<le> 2 ^ 53 \<Longrightarrow> k \<in> {''gt'', ''gte'', ''lt'', ''lte''} \<Longrightarrow> domain_bound field ''int'' (k, jnat n) = Inr ()"
  using exact_operand [of n] by (auto simp: domain_bound_def MAX_EXACT_def)

lemma expressible_range_of:
  assumes "field \<in> {''doc_len'', ''tier'', ''rand_key''}" and "wf_json (Object bounds)"
    and "domain_range field ''int'' (Object bounds) = Inr ()" and "is_ok (compile_range field (Object bounds))"
  shows "expressible (range_json field bounds)"
  unfolding range_json_def leaf_json_def
  by (rule expressible_leaf [OF _ _ _ int_fields [OF assms(1)]])
    (use assms in \<open>auto simp: domain_leaf_def compile_leaf_def\<close>)

lemma expressible_range:
  assumes "field \<in> {''doc_len'', ''tier'', ''rand_key''}" and "m \<le> 2 ^ 53" and "n \<le> 2 ^ 53"
  shows "expressible (range_json field [(''lt'', jnat n)])" and "expressible (range_json field [(''lte'', jnat n)])"
    and "expressible (range_json field [(''gte'', jnat n)])"
    and "expressible (range_json field [(''gte'', jnat m), (''lt'', jnat n)])"
    and "expressible (range_json field [(''gte'', jnat m), (''lte'', jnat n)])"
  by (intro expressible_range_of [OF assms(1)];
      simp add: domain_range_def domain_bound_exact [OF assms(2)] domain_bound_exact [OF assms(3)] compile_range_def
        put_bound_exact [OF assms(2)] put_bound_exact [OF assms(3)] Let_def)+

lemma category_keyword: "s \<in> set CATEGORY_NAMES \<Longrightarrow> keyword ''category'' s = Inr ()"
proof -
  assume "s \<in> set CATEGORY_NAMES"
  moreover have "list_all (\<lambda>s. s \<noteq> [] \<and> is_alnum (hd s) \<and> is_alnum (last s) \<and> CHR '';'' \<notin> set s) CATEGORY_NAMES" by code_simp
  ultimately show ?thesis by (simp add: keyword_def trim_alnum list_all_iff)
qed

lemma rand_key_at_exact: "k \<le> 1000000 \<Longrightarrow> rand_key_at k \<le> 2 ^ 53"
proof -
  assume "k \<le> 1000000"
  then have "RAND_KEY_SPAN * k div 1000000 \<le> RAND_KEY_SPAN * 1000000 div 1000000"
    by (intro div_le_mono mult_le_mono2)
  then show ?thesis by (simp add: rand_key_at_def RAND_KEY_SPAN_def)
qed

lemma templates_expressible:
  assumes "filter_query_templates ks = Inr ts" and "\<forall>k \<in> set ks. k \<le> 2 ^ 53" and "(shp, c) \<in> set ts"
  shows "expressible c \<and> (\<exists>es. as_object c = Some es \<and> (map_of es ''and'' \<noteq> None \<or> map_of es ''or'' \<noteq> None))"
proof -
  have cats: "expressible (eq_json ''category'' (String (CATEGORY_NAMES ! i)))" if "i < 32" for i
    using that by (intro expressible_eq_keyword category_keyword nth_mem) (simp add: CATEGORY_NAMES_def)
  have cat: "expressible (eq_json ''category'' (String s))" if "s \<in> {''cat00'', ''cat03'', ''cat07'', ''cat31''}" for s
    using that by (intro expressible_eq_keyword category_keyword) (auto simp: CATEGORY_NAMES_def)
  have below: "expressible (rand_key_below k)" if "k \<le> 1000000" for k
    unfolding rand_key_below_def using that by (intro expressible_range(1) rand_key_at_exact) auto
  from assms have "(shp, c) \<in> set constant_templates \<or> (\<exists>k \<in> set ks. c = and_json [eq_json ''rand_key'' (jnat k)]) \<or>
      (shp, c) \<in> set range_templates \<or> (shp, c) \<in> set combined_templates"
    by (auto simp: filter_query_templates_def split: if_splits)
  then obtain xs where xs: "c = and_json xs \<or> c = or_json xs" "xs \<noteq> []" "\<forall>x \<in> set xs. expressible x"
  proof (elim disjE bexE)
    assume "(shp, c) \<in> set constant_templates"
    then show thesis using cats expressible_eq_int [of "''doc_len''"]
      by (auto simp: constant_templates_def intro!: that)
  next
    fix k assume "k \<in> set ks" "c = and_json [eq_json ''rand_key'' (jnat k)]"
    then show thesis using assms(2) expressible_eq_int [of "''rand_key''" k] by (intro that) auto
  next
    assume "(shp, c) \<in> set range_templates"
    then show thesis using below expressible_range [of "''doc_len''"] expressible_range [of "''tier''"]
      by (auto simp: range_templates_def intro!: that)
  next
    assume "(shp, c) \<in> set combined_templates"
    then show thesis
      using below cat expressible_range [of "''doc_len''"] expressible_range [of "''tier''"]
        expressible_range(3) [of "''rand_key''" 0 "rand_key_at 990000"] rand_key_at_exact [of 990000]
      by (auto simp: combined_templates_def intro!: that)
  qed
  then show ?thesis using expressible_group [of xs] by (auto simp: and_json_def or_json_def)
qed


section \<open>Counts\<close>

lemma check_leaves_clean: "(\<And>r. r \<in> set rows \<Longrightarrow> clean_row p r) \<Longrightarrow> check_leaves rows p = Inr ()"
proof (induction rows p rule: check_leaves.induct)
  case (1 rows p)
  show ?case
  proof (cases rows)
    case Nil
    then show ?thesis by (simp add: check_leaves.simps)
  next
    case (Cons r rs)
    show ?thesis
    proof (cases p)
      case (And c)
      have "check_leaves rows q = Inr ()" if "q \<in> set c" for q
        using 1(1) [OF Cons And that] 1(3) And that by (force simp: clean_row_def)
      with And Cons show ?thesis unfolding check_leaves.simps [of rows p] by simp
    next
      case (Or c)
      have "check_leaves rows q = Inr ()" if "q \<in> set c" for q
        using 1(2) [OF Cons Or that] 1(3) Or that by (force simp: clean_row_def)
      with Or Cons show ?thesis unfolding check_leaves.simps [of rows p] by simp
    next
      case (Leaf f l)
      with 1(3) [of r] Cons show ?thesis unfolding check_leaves.simps [of rows p] by (auto simp: clean_row_def is_ok_iff)
    qed
  qed
qed

lemma count_matches_clean:
  assumes "\<And>r. r \<in> set rows \<Longrightarrow> clean_row p r" and "\<And>r. r \<in> set rows \<Longrightarrow> pmatches r p = Inr (h r)"
  shows "count_matches rows p = Inr (length (filter h rows))"
proof -
  have "traverse (\<lambda>r. pmatches r p) rows = Inr (map h rows)"
    using assms(2) by (simp add: traverse_Inr_iff list_all2_map2 list_all2_same)
  then show ?thesis
    using check_leaves_clean [of rows p] assms(1) by (simp add: count_matches_def filter_map comp_def id_def)
qed

lemma oracle_counts:
  assumes "expressible c" and "as_object c = Some es" and "map_of es ''and'' \<noteq> None \<or> map_of es ''or'' \<noteq> None"
  shows "\<exists>p q ps e. compile_predicate c = Inr p \<and> parse_conditions dt c = Some (q, ps) \<and> q = show_query e \<and> bracketed e \<and>
    refs e = fst ` set ps \<and> distinct (map fst ps) \<and>
    count_matches (map (\<lambda>i. derived_field (derive digest i)) docids) p =
      Inr (length (filter (\<lambda>i. eval_query row_search (map_of ps) (derived_field (derive digest i)) e) docids))"
proof -
  from assms obtain p where p: "compile_node c = Inr p" and v: "validate_predicate (Some derived_schema) c = Inr ()" and
    wf: "wf_json c" by (auto simp: expressible_def is_ok_iff)
  have row: "pmatches (derived_field d) p = Inr (condition_holds row_search dt c (derived_field d))"
    "condition_supported dt c" "clean_row p (derived_field d)" if "derived_ok d" for d
    using node_means [OF p v wf derived_exact [OF that] derived_clean [OF p v that], of dt] derived_clean [OF p v that] by auto
  have "filter_supported dt c"
    using assms(2,3) row(2) [OF derive_ok [of digest "[]"]] by (auto simp: filter_supported_def as_object_iff is_group_def)
  then obtain f where f: "parse_conditions dt c = Some f" "query_means row_search f (condition_holds row_search dt c)"
    using parse_conditions_means [of dt c row_search] filter_means_query by blast
  then obtain e where e: "fst f = show_query e" "bracketed e" "refs e = fst ` set (snd f)" "distinct (map fst (snd f))"
    "\<forall>d. eval_query row_search (map_of (snd f)) d e \<longleftrightarrow> condition_holds row_search dt c d"
    unfolding query_means_def by blast
  have "count_matches (map (\<lambda>i. derived_field (derive digest i)) docids) p =
      Inr (length (filter (condition_holds row_search dt c) (map (\<lambda>i. derived_field (derive digest i)) docids)))"
    by (rule count_matches_clean) (use row derive_ok in auto)
  moreover have "compile_predicate c = Inr p" using assms(2,3) p by (auto simp: compile_predicate_def as_object_iff)
  ultimately show ?thesis using f(1) e
    by (intro exI [of _ p] exI [of _ "fst f"] exI [of _ "snd f"] exI [of _ e]) (simp add: filter_map comp_def prod_eq_iff)
qed

section \<open>Properties\<close>

text \<open>
  C6: an expected count is what Redis selects.  Every query template, for any five point-lookup keys, is
  inside the shared domain and compiles, so that over any corpus its count never fails; and the count is the
  number of documents that the query text the Redis builder makes of the same condition selects, where a
  document holds the derived values of its id.  The text refers to exactly the parameters bound with it.
\<close>

theorem template_counts_are_redis_counts:
  assumes "filter_query_templates ks = Inr ts" and "\<forall>k \<in> set ks. k \<le> 2 ^ 53" and "(shp, c) \<in> set ts"
  shows "validate_predicate (Some derived_schema) c = Inr () \<and>
    (\<exists>p q ps e. compile_predicate c = Inr p \<and> parse_conditions dt c = Some (q, ps) \<and> q = show_query e \<and> bracketed e \<and>
      refs e = fst ` set ps \<and> distinct (map fst ps) \<and>
      count_matches (map (\<lambda>i. derived_field (derive digest i)) docids) p =
        Inr (length (filter (\<lambda>i. eval_query row_search (map_of ps) (derived_field (derive digest i)) e) docids)))"
  using templates_expressible [OF assms] oracle_counts [of c] by (auto simp: expressible_def)

theorem template_counts_are_redis_counts_witness:
  "\<exists>p q ps e. compile_predicate (and_json [eq_json ''rand_key'' (jnat 3)]) = Inr p \<and>
     parse_conditions (\<lambda>_. None) (and_json [eq_json ''rand_key'' (jnat 3)]) = Some (q, ps) \<and> q = show_query e \<and>
     count_matches (map (\<lambda>i. derived_field (derive (\<lambda>_. []) i)) [''a'', ''b'']) p =
       Inr (length (filter (\<lambda>i. eval_query row_search (map_of ps) (derived_field (derive (\<lambda>_. []) i)) e) [''a'', ''b'']))"
proof -
  define ts where "ts = constant_templates @ map (\<lambda>k. (NumericPoint, and_json [eq_json ''rand_key'' (jnat k)])) [1, 2, 3, 4, 5] @
    range_templates @ combined_templates"
  have "filter_query_templates [1, 2, 3, 4, 5] = Inr ts"
    by (simp add: filter_query_templates_def POINT_LOOKUP_KEYS_def ts_def)
  moreover have "(NumericPoint, and_json [eq_json ''rand_key'' (jnat 3)]) \<in> set ts" by (simp add: ts_def)
  ultimately show ?thesis
    using template_counts_are_redis_counts [of "[1, 2, 3, 4, 5]" ts NumericPoint "and_json [eq_json ''rand_key'' (jnat 3)]"
        "\<lambda>_. None" "\<lambda>_. []" "[''a'', ''b'']"] by auto
qed

text \<open>The first entry of each query.\<close>

fun first_of_each :: "nat set \<Rightarrow> (nat \<times> nat) list \<Rightarrow> (nat \<times> nat) list" where
  "first_of_each seen [] = []"
| "first_of_each seen ((q, n) # xs) =
     (if q \<in> seen then first_of_each seen xs else (q, n) # first_of_each (insert q seen) xs)"

lemma first_of_each_distinct:
  "distinct (map fst (first_of_each seen xs)) \<and> fst ` set (first_of_each seen xs) = fst ` set xs - seen"
  by (induction seen xs rule: first_of_each.induct) auto

definition wrong_answers_of :: "prepared_query list \<Rightarrow> (nat \<times> nat) list \<Rightarrow> (nat \<times> nat) list" where
  "wrong_answers_of qs observed = filter (\<lambda>(q, n). n \<noteq> expected_count (qs ! q)) observed"

definition report_wrong :: "prepared_query list \<Rightarrow> nat \<times> nat \<Rightarrow> string \<times> nat \<times> nat" where
  "report_wrong qs = (\<lambda>(q, n). (pq_name (qs ! q), n, expected_count (qs ! q)))"

lemma count_answers:
  assumes "length w \<le> 5" and "\<forall>(q, n) \<in> set ob. q < length qs"
  shows "\<exists>seen'. ffold (count_answer qs) (w, k, seen) ob =
    Inr (w @ map (report_wrong qs) (take (5 - length w) (first_of_each seen (wrong_answers_of qs ob))),
      k + length (wrong_answers_of qs ob), seen')"
  using assms
proof (induction ob arbitrary: w k seen)
  case (Cons a ob)
  obtain q n where a: "a = (q, n)" by force
  with Cons.prems have q: "q < length qs" "\<forall>(q, n) \<in> set ob. q < length qs" by auto
  show ?case
  proof (cases "n = expected_count (qs ! q)")
    case True
    then show ?thesis using Cons.IH [OF Cons.prems(1) q(2)] q(1) a by (auto simp: count_answer_def wrong_answers_of_def)
  next
    case False
    define w' where "w' = (if q \<notin> seen \<and> length w < 5 then w @ [report_wrong qs (q, n)] else w)"
    have "length w' \<le> 5" using Cons.prems(1) by (simp add: w'_def)
    from Cons.IH [OF this q(2), of "k + 1" "insert q seen"] obtain s' where
      s': "ffold (count_answer qs) (w', k + 1, insert q seen) ob = Inr (w' @ map (report_wrong qs)
        (take (5 - length w') (first_of_each (insert q seen) (wrong_answers_of qs ob))), k + 1 + length (wrong_answers_of qs ob), s')"
      by blast
    have step: "count_answer qs (w, k, seen) a = Inr (w', k + 1, insert q seen)"
      using False q(1) a by (simp add: count_answer_def w'_def report_wrong_def)
    have wr: "wrong_answers_of qs (a # ob) = (q, n) # wrong_answers_of qs ob" using False a by (simp add: wrong_answers_of_def)
    have "w' @ map (report_wrong qs) (take (5 - length w') (first_of_each (insert q seen) xs)) =
        w @ map (report_wrong qs) (take (5 - length w) (first_of_each seen ((q, n) # xs)))" for xs
    proof (cases "q \<in> seen")
      case True
      then show ?thesis by (simp add: w'_def insert_absorb)
    next
      case new: False
      show ?thesis
      proof (cases "length w < 5")
        case True
        then have "5 - length w = Suc (5 - length w')" using new by (simp add: w'_def)
        with True new show ?thesis by (simp add: w'_def)
      qed (use new in \<open>simp add: w'_def\<close>)
    qed
    with step s' show ?thesis by (simp add: wr del: first_of_each.simps)
  qed
qed (simp add: wrong_answers_of_def)

lemma unknown_query_refused:
  "\<not> (\<forall>(q, n) \<in> set ob. q < length qs) \<Longrightarrow> \<exists>q. ffold (count_answer qs) acc ob = Inl (No_Such_Query q (length qs))"
proof (induction ob arbitrary: acc)
  case (Cons a ob)
  obtain q n where a: "a = (q, n)" by force
  show ?case
  proof (cases "q < length qs")
    case True
    obtain w k sn where "acc = (w, k, sn)" by (cases acc)
    with True obtain acc' where "count_answer qs acc (q, n) = Inr acc'"
      by (cases "n = expected_count (qs ! q)") (simp_all add: count_answer_def)
    with True Cons a show ?thesis by auto
  qed (use a in \<open>cases acc; auto simp: count_answer_def\<close>)
qed simp

lemma check_counts_prepared:
  assumes "prepared s = Some qs"
  shows "length observed \<noteq> answered \<Longrightarrow> check_counts s observed answered = Inl (Unchecked_Answers (length observed) answered)"
    and "length observed = answered \<Longrightarrow> \<not> (\<forall>(q, n) \<in> set observed. q < length qs) \<Longrightarrow>
      \<exists>q. check_counts s observed answered = Inl (No_Such_Query q (length qs))"
    and "length observed = answered \<Longrightarrow> \<forall>(q, n) \<in> set observed. q < length qs \<Longrightarrow>
      check_counts s observed answered = (let wrong = wrong_answers_of qs observed in
        if wrong = [] then Inr (Some answered)
        else Inl (Wrong_Answers (length wrong) answered (map (report_wrong qs) (take 5 (first_of_each {} wrong)))))"
  using assms unknown_query_refused [of observed qs "([], 0, {})"] count_answers [of "[]" observed qs 0 "{}"]
  by (auto simp: check_counts_def Let_def)

text \<open>
  C13: the count gate is exact.  With a prepared query set, the gate passes exactly when as many totals were
  recorded as queries answered and every recorded total is the expected count of its query, and it then
  reports that number; a set without expected counts is never reported as checked.  When only totals are wrong it
  reports how many of the answers disagree and lists, in order, the first disagreeing answer of each query, at most five.
\<close>

theorem count_gate_exact_iff:
  "(check_counts s observed answered = Inr r \<longleftrightarrow>
     (case prepared s of
        None \<Rightarrow> r = None
      | Some qs \<Rightarrow> r = Some answered \<and> length observed = answered \<and>
          (\<forall>(q, n) \<in> set observed. q < length qs \<and> n = expected_count (qs ! q)))) \<and>
   (check_counts s observed answered = Inl (Wrong_Answers k m bad) \<longleftrightarrow>
     (\<exists>qs. prepared s = Some qs \<and> length observed = answered \<and> (\<forall>(q, n) \<in> set observed. q < length qs) \<and>
       (let wrong = filter (\<lambda>(q, n). n \<noteq> expected_count (qs ! q)) observed in
          wrong \<noteq> [] \<and> k = length wrong \<and> m = answered \<and>
          bad = map (\<lambda>(q, n). (pq_name (qs ! q), n, expected_count (qs ! q))) (take 5 (first_of_each {} wrong)))))"
proof (cases "prepared s")
  case (Some qs)
  note c = check_counts_prepared [OF Some, of observed answered]
  have w: "wrong_answers_of qs observed = [] \<longleftrightarrow> (\<forall>(q, n) \<in> set observed. n = expected_count (qs ! q))"
    by (auto simp: wrong_answers_of_def filter_empty_conv)
  consider "length observed \<noteq> answered" | "length observed = answered" "\<not> (\<forall>(q, n) \<in> set observed. q < length qs)"
    | "length observed = answered" "\<forall>(q, n) \<in> set observed. q < length qs" by blast
  then show ?thesis
  proof cases
    case 1
    then show ?thesis using c(1) Some by auto
  next
    case 2
    then obtain q where "check_counts s observed answered = Inl (No_Such_Query q (length qs))" using c(2) by blast
    with 2 Some show ?thesis by auto
  next
    case 3
    show ?thesis
    proof (cases "wrong_answers_of qs observed = []")
      case True
      with c(3) [OF 3] have "check_counts s observed answered = Inr (Some answered)" by simp
      with 3 Some w True show ?thesis unfolding wrong_answers_of_def [symmetric] by auto
    next
      case False
      with c(3) [OF 3] have "check_counts s observed answered = Inl (Wrong_Answers (length (wrong_answers_of qs observed)) answered
          (map (report_wrong qs) (take 5 (first_of_each {} (wrong_answers_of qs observed)))))" by (simp add: Let_def)
      with 3 Some w False show ?thesis unfolding wrong_answers_of_def [symmetric] report_wrong_def Let_def by auto
    qed
  qed
qed (simp add: check_counts_def, blast)

theorem count_gate_exact_iff_witness:
  "let s = \<lparr>set_conditions = conditions_new [None], prepared = Some [\<lparr>pq_name = ''q'', pq_shape = ''tag_eq'', expected_count = 7\<rparr>],
      referenced = {}\<rparr>
   in check_counts s [(0, 7)] 1 = Inr (Some 1) \<and>
      check_counts s [(0, 7), (0, 8), (0, 9)] 3 = Inl (Wrong_Answers 2 3 [(''q'', 8, 7)])"
  by (simp add: Let_def count_gate_exact_iff [THEN conjunct1] count_gate_exact_iff [THEN conjunct2])

end
