(* ===== verification/Filter_Only.thy ===== *)
theory Filter_Only
  imports Filter_Queries
begin

text \<open>
  The metadata-only workload, \<open>src/src/filter_only.rs\<close>, with the command builder of
  \<open>src/src/bin/vector_db_benchmark/engine/redis.rs\<close>: the check of every request for a vector clause, the selection of
  queries and search configs, the validation of the realized schema on each index layout, and the result
  pages.

  A command is its arguments as bytes; how a double is written is a parameter.  Positions in a command are
  64-bit and wrap around as in a release build, so the scan of a command's options may fail to end; a scan that
  does not end is \<open>None\<close>.
\<close>

section \<open>Requests\<close>

definition VECTOR_CLAUSES :: "string list" where
  "VECTOR_CLAUSES = [''knn'', ''neural'', ''script_score'']"

function find_clause :: "json \<Rightarrow> string option" where
  "find_clause v = (case v of
       Object es \<Rightarrow> find_map (\<lambda>(k, child).
         case List.find (eq_ignore_ascii_case k) VECTOR_CLAUSES of Some c \<Rightarrow> Some c | None \<Rightarrow> find_clause child) es
     | Array xs \<Rightarrow> find_map find_clause xs
     | _ \<Rightarrow> None)"
  by pat_completeness auto
termination
proof (relation "measure size", goal_cases)
  case (2 v xs x)
  then show ?case using size_list_estimation' [of x xs "size x" size] by auto
next
  case (3 v es e k child)
  then have "(k, child) \<in> set es" by auto
  then have "size child \<le> size_list (size_prod (\<lambda>_. 0) size) es" by (rule size_list_estimation') simp
  with 3 show ?case by simp
qed simp

declare find_clause.simps [simp del]

datatype request_refusal =
    Body_Clause string
  | Query_Clause string
  | Not_Ft_Search
  | Dialect_Without_Count nat
  | Params_No_Count
  | Params_Odd nat
  | Unexpected_Argument string
  | Missing_Operands string

definition check_opensearch_body :: "json \<Rightarrow> request_refusal + unit" where
  "check_opensearch_body body = (case find_clause body of Some c \<Rightarrow> Inl (Body_Clause c) | None \<Rightarrow> Inr ())"

definition to_upper :: "char \<Rightarrow> char" where
  "to_upper c = (if is_lower c then char_of (byte c - 32) else c)"

definition check_redis_query :: "string \<Rightarrow> request_refusal + unit" where
  "check_redis_query query =
     (if contains query ''=>'' \<or> contains (map to_upper query) ''VECTOR_RANGE'' then Inl (Query_Clause query) else Inr ())"

definition parse_u32 :: "string \<Rightarrow> nat option" where
  "parse_u32 s = (case parse_u64 s of Some n \<Rightarrow> if n < 2 ^ 32 then Some n else None | None \<Rightarrow> None)"

definition operands_at :: "string list \<Rightarrow> nat \<Rightarrow> request_refusal + nat" where
  "operands_at args i =
     (let option = map to_upper (from_utf8_lossy (args ! i));
          next_text = (if i + 1 < length args then Some (from_utf8_lossy (args ! (i + 1))) else None)
      in if option = ''NOCONTENT'' then Inr 0
         else if option = ''DIALECT'' then
           (case Option.bind next_text parse_u32 of
              Some d \<Rightarrow> if d \<ge> 4 then Inl (Dialect_Without_Count d) else Inr 1
            | None \<Rightarrow> Inr 1)
         else if option = ''TIMEOUT'' then Inr 1
         else if option = ''LIMIT'' then Inr 2
         else if option = ''PARAMS'' then
           (case Option.bind next_text parse_u64 of
              Some n \<Rightarrow> if even n then Inr (n + 1) else Inl (Params_Odd n)
            | None \<Rightarrow> Inl Params_No_Count)
         else Inl (Unexpected_Argument option))"

partial_function (option) scan_options :: "string list \<Rightarrow> nat \<Rightarrow> (request_refusal + unit) option" where
  [code]: "scan_options args i =
     (if i < length args then
        (case operands_at args i of
           Inl e \<Rightarrow> Some (Inl e)
         | Inr k \<Rightarrow>
             if (i + k) mod 2 ^ 64 \<ge> length args
             then Some (Inl (Missing_Operands (map to_upper (from_utf8_lossy (args ! i)))))
             else scan_options args ((i + (1 + k) mod 2 ^ 64) mod 2 ^ 64))
      else Some (Inr ()))"

definition check_redis_command :: "string list \<Rightarrow> (request_refusal + unit) option" where
  "check_redis_command args =
     (if length args < 3 \<or> \<not> eq_ignore_ascii_case (args ! 0) ''FT.SEARCH'' then Some (Inl Not_Ft_Search)
      else case check_redis_query (from_utf8_lossy (args ! 2)) of
          Inl e \<Rightarrow> Some (Inl e)
        | Inr _ \<Rightarrow> scan_options args 3)"

definition opensearch_body :: "json \<Rightarrow> nat \<Rightarrow> json" where
  "opensearch_body flt limit = Object
     [(''_source'', Bool False),
      (''query'', Object [(''bool'', Object [(''filter'', Array [flt])])]),
      (''size'', Number (PosInt limit)),
      (''sort'', Array [String ''_doc'']),
      (''track_total_hits'', Bool True)]"

text \<open>The command the Redis engine sends, and its arguments on the wire.\<close>

definition build_filter_only_command ::
    "((string \<times> filter_param) list \<Rightarrow> (string \<times> filter_param) list) \<Rightarrow> string \<Rightarrow> nat \<Rightarrow> int \<Rightarrow> parsed_filter \<Rightarrow> redis_arg list" where
  "build_filter_only_command hash_order index_name limit query_timeout flt = (case flt of (expr, ps) \<Rightarrow>
     [Text_Arg ''FT.SEARCH'', Text_Arg index_name, Text_Arg expr, Text_Arg ''LIMIT'', Int_Arg 0, Int_Arg (int limit),
      Text_Arg ''NOCONTENT'', Text_Arg ''DIALECT'', Int_Arg 2, Text_Arg ''TIMEOUT'', Int_Arg query_timeout] @
     (if ps = [] then []
      else [Text_Arg ''PARAMS'', Int_Arg (int (length ps * 2))] @
           concat (map (\<lambda>(name, v). [Text_Arg name, param_arg v]) (hash_order ps))))"

fun wire :: "(f64v \<Rightarrow> string) \<Rightarrow> redis_arg \<Rightarrow> string" where
  "wire f64_text (Text_Arg s) = s"
| "wire f64_text (Int_Arg i) = int_str i"
| "wire f64_text (Float_Arg f) = f64_text f"

definition check_filter_only_command :: "(f64v \<Rightarrow> string) \<Rightarrow> redis_arg list \<Rightarrow> (request_refusal + unit) option" where
  "check_filter_only_command f64_text cmd = check_redis_command (map (wire f64_text) cmd)"

section \<open>Selections\<close>

datatype selection_error =
    Engine_Twice string string string
  | No_Filtered_Query
  | Conflicting_Limits int "int option" "int option"

definition validate_engine_selection :: "(string \<times> string) list \<Rightarrow> selection_error + unit" where
  "validate_engine_selection engines =
     rbind (ffold (\<lambda>selected (name, engine). case selected engine of
         Some previous \<Rightarrow> Inl (Engine_Twice engine previous name)
       | None \<Rightarrow> Inr (selected(engine \<mapsto> name))) Map.empty engines) (\<lambda>_. Inr ())"

definition query_indices :: "bool list \<Rightarrow> int \<Rightarrow> selection_error + nat list" where
  "query_indices filtered requested =
     (let selected = map fst (filter snd (enumerate 0 filtered)) in
      if selected = [] then Inl No_Filtered_Query
      else let n = (if requested > 0 then nat requested else length selected)
        in Inr (map (\<lambda>i. selected ! (i mod length selected)) [0..<n]))"

definition keep_config ::
    "int option \<Rightarrow> (int \<rightharpoonup> int option) \<times> nat list \<Rightarrow> nat \<times> int option \<times> int option \<Rightarrow>
     selection_error + (int \<rightharpoonup> int option) \<times> nat list" where
  "keep_config default_limit acc p = (case acc of (limits, selected) \<Rightarrow> case p of (index, workers, limit) \<Rightarrow>
     (let par = (case workers of Some n \<Rightarrow> n | None \<Rightarrow> 1);
          lim = (case limit of Some _ \<Rightarrow> limit | None \<Rightarrow> default_limit)
      in case limits par of
           Some previous \<Rightarrow> if previous \<noteq> lim then Inl (Conflicting_Limits par previous lim) else Inr (limits, selected)
         | None \<Rightarrow> Inr (limits(par \<mapsto> lim), selected @ [index])))"

definition search_param_indices :: "(int option \<times> int option) list \<Rightarrow> int option \<Rightarrow> selection_error + nat list" where
  "search_param_indices params default_limit =
     rbind (ffold (keep_config default_limit) (Map.empty, []) (enumerate 0 params)) (\<lambda>(_, selected). Inr selected)"

definition mixed_search_param_indices ::
    "(bool \<times> int option \<times> int option) list \<Rightarrow> int option \<Rightarrow> selection_error + nat list" where
  "mixed_search_param_indices params default_limit =
     (let filter_only = filter (\<lambda>i. fst (params ! i)) [0..<length params] in
      rbind (search_param_indices (map (\<lambda>i. snd (params ! i)) filter_only) default_limit) (\<lambda>ks.
        let kept = set (map (\<lambda>k. filter_only ! k) ks)
        in Inr (filter (\<lambda>i. \<not> fst (params ! i) \<or> i \<in> kept) [0..<length params])))"


section \<open>Realized schemas\<close>

datatype schema_error =
    Knn_Enabled
  | Vector_Indexed
  | Knn_Disabled
  | No_Knn_Vector
  | Field_Unindexed string
  | Not_Long string
  | Not_Double string
  | Not_Keyword string
  | Splits_On_Whitespace string
  | Ignores_Above string
  | No_Attributes
  | No_Attribute_Type
  | Contains_Vector
  | No_Vector
  | Field_Missing string
  | Not_Numeric string
  | Wrong_Separator string
  | Not_Case_Sensitive_Tag string
  | Layout_Unconfirmed
  | Built_Case_Sensitive string
  | Built_Double string

definition is_str :: "json \<Rightarrow> string \<Rightarrow> bool" where
  "is_str v s \<longleftrightarrow> v = String s"

definition is_false :: "json \<Rightarrow> bool" where
  "is_false v \<longleftrightarrow> v = Bool False"

text \<open>\<open>value["key"] = v\<close>: \<open>Null\<close> becomes an object; any other value that is no object panics.\<close>

fun put_key :: "string \<Rightarrow> json \<Rightarrow> json \<Rightarrow> json option" where
  "put_key k v (Object es) = Some (Object (obj_insert k v es))"
| "put_key k v Null = Some (Object [(k, v)])"
| "put_key k v _ = None"

definition disable_vector_index :: "json \<Rightarrow> json \<Rightarrow> (json \<times> json) option" where
  "disable_vector_index properties settings =
     Option.bind (put_key ''vector'' (Object [(''doc_values'', Bool False), (''index'', Bool False), (''type'', String ''float'')])
       properties) (\<lambda>p. map_option (Pair p) (put_key ''knn'' (Bool False) settings))"

definition schema_fields :: "json option \<Rightarrow> (string \<times> json) list" where
  "schema_fields schema = (case Option.bind schema as_object of Some es \<Rightarrow> es | None \<Rightarrow> [])"

definition validate_scalar_field :: "json \<Rightarrow> string \<times> json \<Rightarrow> schema_error + unit" where
  "validate_scalar_field properties fk = (case fk of (field, kind) \<Rightarrow>
     let p = jindex properties field in
     if (is_str kind ''int'' \<or> is_str kind ''float'' \<or> is_str kind ''keyword'') \<and> is_false (jindex p ''index'')
     then Inl (Field_Unindexed field)
     else if is_str kind ''int'' \<and> \<not> is_str (jindex p ''type'') ''long'' then Inl (Not_Long field)
     else if is_str kind ''float'' \<and> \<not> is_str (jindex p ''type'') ''double'' then Inl (Not_Double field)
     else if is_str kind ''keyword'' \<and> (\<not> is_str (jindex p ''type'') ''keyword'' \<or> \<not> is_null (jindex p ''normalizer''))
     then Inl (Not_Keyword field)
     else if is_str kind ''keyword'' \<and> \<not> is_null (jindex p ''split_queries_on_whitespace'') \<and>
       \<not> is_false (jindex p ''split_queries_on_whitespace'') then Inl (Splits_On_Whitespace field)
     else if is_str kind ''keyword'' \<and> \<not> is_null (jindex p ''ignore_above'') then Inl (Ignores_Above field)
     else Inr ())"

definition validate_opensearch_scalar_fields :: "json \<Rightarrow> json option \<Rightarrow> schema_error + unit" where
  "validate_opensearch_scalar_fields properties schema =
     check_each (validate_scalar_field properties) (schema_fields schema)"

definition validate_opensearch_schema :: "json \<Rightarrow> json \<Rightarrow> json option \<Rightarrow> schema_error + unit" where
  "validate_opensearch_schema properties idx schema =
     (let v = jindex properties ''vector'' in
      if \<not> is_false (jindex idx ''knn'') \<and> \<not> is_str (jindex idx ''knn'') ''false'' then Inl Knn_Enabled
      else if \<not> is_str (jindex v ''type'') ''float'' \<or> \<not> is_false (jindex v ''index'') \<or> \<not> is_false (jindex v ''doc_values'')
      then Inl Vector_Indexed
      else validate_opensearch_scalar_fields properties schema)"

definition validate_opensearch_full_schema :: "json \<Rightarrow> json \<Rightarrow> json option \<Rightarrow> schema_error + unit" where
  "validate_opensearch_full_schema properties idx schema =
     (if jindex idx ''knn'' \<noteq> Bool True \<and> \<not> is_str (jindex idx ''knn'') ''true'' then Inl Knn_Disabled
      else if \<not> is_str (jindex (jindex properties ''vector'') ''type'') ''knn_vector'' then Inl No_Knn_Vector
      else validate_opensearch_scalar_fields properties schema)"

definition STANDALONE :: "string list" where
  "STANDALONE = [''CASESENSITIVE'', ''SORTABLE'', ''UNF'', ''NOINDEX'', ''NOSTEM'', ''WITHSUFFIXTRIE'', ''INDEXEMPTY'', ''INDEXMISSING'']"

fun pair_up :: "json list \<Rightarrow> (json \<times> json option) list" where
  "pair_up [] = []"
| "pair_up (k # r) =
     (if (case as_string k of Some s \<Rightarrow> s \<in> set STANDALONE | None \<Rightarrow> False) then (k, None) # pair_up r
      else case r of [] \<Rightarrow> [(k, None)] | v # r' \<Rightarrow> (k, Some v) # pair_up r')"

definition ft_info_entries :: "json \<Rightarrow> (json \<times> json option) list" where
  "ft_info_entries v = pair_up (case as_array v of Some xs \<Rightarrow> xs | None \<Rightarrow> [])"

definition ft_info_field :: "json \<Rightarrow> string \<Rightarrow> json option" where
  "ft_info_field v name = (case as_object v of
       Some es \<Rightarrow> map_of es name
     | None \<Rightarrow> find_map (\<lambda>(k, x). if is_str k name then x else None) (ft_info_entries v))"

definition ft_info_has_flag :: "json \<Rightarrow> string \<Rightarrow> bool" where
  "ft_info_has_flag attr flag \<longleftrightarrow>
     list_ex (\<lambda>(k, v). is_str k flag \<and> v = None) (ft_info_entries attr) \<or>
     (case Option.bind (ft_info_field attr ''flags'') as_array of
        Some flags \<Rightarrow> list_ex (\<lambda>f. is_str f flag) flags
      | None \<Rightarrow> False)"

definition ft_info_text :: "json \<Rightarrow> string \<Rightarrow> string option" where
  "ft_info_text v name = Option.bind (ft_info_field v name) as_string"

definition find_attribute :: "json list \<Rightarrow> string \<Rightarrow> json option" where
  "find_attribute attributes name = List.find (\<lambda>a. ft_info_text a ''attribute'' = Some name) attributes"

definition is_tag_kind :: "json \<Rightarrow> bool" where
  "is_tag_kind kind \<longleftrightarrow> is_str kind ''keyword'' \<or> is_str kind ''uuid'' \<or> is_str kind ''bool''"

definition validate_redis_vector_layout :: "json \<Rightarrow> json option \<Rightarrow> schema_error + unit" where
  "validate_redis_vector_layout info schema =
     rbind (ok_or Layout_Unconfirmed (Option.bind (ft_info_field info ''attributes'') as_array)) (\<lambda>attributes.
     check_each (\<lambda>(name, kind).
       if \<not> is_tag_kind kind then Inr ()
       else case find_attribute attributes name of
           Some a \<Rightarrow> if ft_info_has_flag a ''CASESENSITIVE'' then Inl (Built_Case_Sensitive name) else Inr ()
         | None \<Rightarrow> Inr ()) (schema_fields schema))"

definition validate_opensearch_vector_layout :: "json \<Rightarrow> json option \<Rightarrow> schema_error + unit" where
  "validate_opensearch_vector_layout properties schema =
     (if as_object properties = None then Inl Layout_Unconfirmed
      else check_each (\<lambda>(name, kind).
        if is_str kind ''float'' \<and> is_str (jindex (jindex properties name) ''type'') ''double'' then Inl (Built_Double name)
        else Inr ()) (schema_fields schema))"

definition attribute_kind :: "bool \<Rightarrow> bool \<Rightarrow> json \<Rightarrow> schema_error + bool" where
  "attribute_kind full has_vector attr =
     rbind (ok_or No_Attribute_Type (ft_info_text attr ''type'')) (\<lambda>kind.
       if eq_ignore_ascii_case kind ''VECTOR'' then (if \<not> full then Inl Contains_Vector else Inr True)
       else Inr has_vector)"

definition validate_redis_field :: "json list \<Rightarrow> string \<times> json \<Rightarrow> schema_error + unit" where
  "validate_redis_field attributes nk = (case nk of (name, kind) \<Rightarrow>
     (let tag = is_tag_kind kind in
      if \<not> tag \<and> \<not> (is_str kind ''int'' \<or> is_str kind ''float'') then Inr ()
      else rbind (ok_or (Field_Missing name) (find_attribute attributes name)) (\<lambda>attr.
        if ft_info_has_flag attr ''NOINDEX'' then Inl (Field_Unindexed name)
        else if \<not> tag then (if ft_info_text attr ''type'' \<noteq> Some ''NUMERIC'' then Inl (Not_Numeric name) else Inr ())
        else if ft_info_text attr ''SEPARATOR'' \<noteq> Some '';'' then Inl (Wrong_Separator name)
        else if ft_info_text attr ''type'' \<noteq> Some ''TAG'' \<or> \<not> ft_info_has_flag attr ''CASESENSITIVE''
        then Inl (Not_Case_Sensitive_Tag name) else Inr ())))"

definition validate_redis_layout :: "json \<Rightarrow> json option \<Rightarrow> bool \<Rightarrow> schema_error + unit" where
  "validate_redis_layout info schema full =
     rbind (ok_or No_Attributes (Option.bind (ft_info_field info ''attributes'') as_array)) (\<lambda>attributes.
     rbind (ffold (attribute_kind full) False attributes) (\<lambda>has_vector.
       if full \<and> \<not> has_vector then Inl No_Vector
       else check_each (validate_redis_field attributes) (schema_fields schema)))"

definition validate_redis_schema :: "json \<Rightarrow> json option \<Rightarrow> schema_error + unit" where
  "validate_redis_schema info schema = validate_redis_layout info schema False"

definition validate_redis_full_schema :: "json \<Rightarrow> json option \<Rightarrow> schema_error + unit" where
  "validate_redis_full_schema info schema = validate_redis_layout info schema True"

section \<open>Result pages\<close>

datatype page_error =
    Incomplete_Page nat nat nat
  | Not_Complete
  | Not_Exact
  | No_Count
  | No_Hits
  | Hit_Without_Id
  | Duplicate_Hit string
  | Not_A_Map
  | Bad_Hit
  | Bad_Key string

record page =
  page_total :: nat
  page_returned :: nat
  page_ids :: "string list option"

definition validate_page :: "nat \<Rightarrow> nat \<Rightarrow> nat \<Rightarrow> page_error + unit" where
  "validate_page total_hits returned limit =
     (if returned \<noteq> min total_hits limit then Inl (Incomplete_Page total_hits returned limit) else Inr ())"

fun unique_ids :: "('h \<Rightarrow> page_error + string) \<Rightarrow> string list \<Rightarrow> 'h list \<Rightarrow> page_error + string list" where
  "unique_ids id_of seen [] = Inr seen"
| "unique_ids id_of seen (h # hs) =
     rbind (id_of h) (\<lambda>i. if i \<in> set seen then Inl (Duplicate_Hit i) else unique_ids id_of (seen @ [i]) hs)"

definition make_page :: "nat \<Rightarrow> nat \<Rightarrow> bool \<Rightarrow> ('h \<Rightarrow> page_error + string) \<Rightarrow> 'h list \<Rightarrow> page_error + page" where
  "make_page total_hits limit keep_ids id_of hits =
     rbind (unique_ids id_of [] hits) (\<lambda>ids.
     rbind (validate_page total_hits (length hits) limit) (\<lambda>_.
       Inr \<lparr>page_total = total_hits, page_returned = length hits, page_ids = (if keep_ids then Some ids else None)\<rparr>))"

definition opensearch_hit_id :: "json \<Rightarrow> page_error + string" where
  "opensearch_hit_id hit = (case as_string (jindex hit ''_id'') of
       Some i \<Rightarrow> Inr i
     | None \<Rightarrow> ok_or Hit_Without_Id (as_string (jfirst (jindex (jindex hit ''fields'') ''_id''))))"

definition opensearch_page :: "json \<Rightarrow> nat \<Rightarrow> bool \<Rightarrow> page_error + page" where
  "opensearch_page body limit keep_ids =
     (let hits = jindex body ''hits''; tot = jindex hits ''total'' in
      if \<not> is_false (jindex body ''timed_out'') \<or> as_i64 (jindex (jindex body ''_shards'') ''failed'') \<noteq> Some 0 then Inl Not_Complete
      else if jindex body ''terminated_early'' = Bool True \<or> \<not> is_str (jindex tot ''relation'') ''eq'' then Inl Not_Exact
      else rbind (ok_or No_Count (as_u64 (jindex tot ''value''))) (\<lambda>n.
           rbind (ok_or No_Hits (as_array (jindex hits ''hits''))) (\<lambda>hs.
             make_page n limit keep_ids opensearch_hit_id hs)))"

definition opensearch_counts :: "json \<Rightarrow> nat \<Rightarrow> page_error + nat \<times> nat" where
  "opensearch_counts body limit =
     rbind (opensearch_page body limit False) (\<lambda>p. Inr (page_total p, page_returned p))"

fun reply_text :: "reply \<Rightarrow> string option" where
  "reply_text (BulkString s) = (if valid_utf8 s then Some s else None)"
| "reply_text (SimpleString s) = Some s"
| "reply_text _ = None"

definition reply_field :: "(reply \<times> reply) list \<Rightarrow> string \<Rightarrow> reply option" where
  "reply_field es name = find_map (\<lambda>(k, v). if reply_text k = Some name then Some v else None) es"

definition redis_hit_id :: "reply \<Rightarrow> page_error + string" where
  "redis_hit_id hit = (case hit of
       RMap es \<Rightarrow> ok_or Hit_Without_Id (Option.bind (reply_field es ''id'') reply_text)
     | _ \<Rightarrow> Inl Bad_Hit)"

definition redis_page :: "reply \<Rightarrow> nat \<Rightarrow> bool \<Rightarrow> page_error + page" where
  "redis_page v limit keep_ids = (case v of
       RMap es \<Rightarrow>
         if reply_field es ''warning'' \<noteq> Some (RArray []) then Inl Not_Complete
         else (case reply_field es ''total_results'' of
             Some (RInt n) \<Rightarrow>
               if n < 0 then Inl No_Count
               else (case reply_field es ''results'' of
                   Some (RArray hits) \<Rightarrow> make_page (nat n) limit keep_ids redis_hit_id hits
                 | _ \<Rightarrow> Inl No_Hits)
           | _ \<Rightarrow> Inl No_Count)
     | _ \<Rightarrow> Inl Not_A_Map)"

definition redis_counts :: "reply \<Rightarrow> nat \<Rightarrow> page_error + nat \<times> nat" where
  "redis_counts v limit = rbind (redis_page v limit False) (\<lambda>p. Inr (page_total p, page_returned p))"

definition redis_key_row :: "string \<Rightarrow> string \<Rightarrow> page_error + int" where
  "redis_key_row key key_prefix = ok_or (Bad_Key key) (Option.bind (strip_prefix key_prefix key) parse_i64)"


section \<open>Scanning a command\<close>

lemma contains_append: "contains (u @ t @ v) t"
proof -
  have "find_sub t (u @ t @ v) \<noteq> None"
  proof (induction u)
    case Nil
    have "prefix t (t @ v)" by simp
    then show ?case by (cases "t @ v") simp_all
  qed auto
  then show ?thesis by (simp add: contains_def)
qed

lemma option_names:
  "map to_upper (from_utf8_lossy ''LIMIT'') = ''LIMIT''" "map to_upper (from_utf8_lossy ''NOCONTENT'') = ''NOCONTENT''"
  "map to_upper (from_utf8_lossy ''DIALECT'') = ''DIALECT''" "map to_upper (from_utf8_lossy ''TIMEOUT'') = ''TIMEOUT''"
  "map to_upper (from_utf8_lossy ''PARAMS'') = ''PARAMS''"
  by code_simp+

lemma parse_count: "n < 2 ^ 64 \<Longrightarrow> parse_u64 (from_utf8_lossy (nat_str n)) = Some n"
  by (simp add: from_utf8_lossy_valid valid_utf8_digits nat_str_digits parse_u64_nat_str)

lemma no_number:
  assumes "list_all (\<lambda>c. byte c < 128) s" and "s \<noteq> []" and "hd s \<noteq> CHR ''+''" and "\<not> is_digit (hd s)"
  shows "parse_u64 (from_utf8_lossy s) = None"
  using assms by (cases s) (simp_all add: from_utf8_lossy_valid valid_utf8_ascii parse_u64_def)

lemma dialect_2: "parse_u32 (from_utf8_lossy (int_str 2)) = Some 2"
  using parse_count [of 2] by (simp add: parse_u32_def int_str_def)

lemma scan_step:
  assumes "j = i + k + 1" and "i < length args" and "operands_at args i = Inr k" and "i + k < length args" and "length args < 2 ^ 64"
  shows "scan_options args i = scan_options args j"
proof (cases "i + k + 1 = 2 ^ 64")
  case True
  with assms show ?thesis by simp
next
  case False
  with assms have "i + k + 1 < 2 ^ 64" "1 + k < 2 ^ 64" by linarith+
  with assms show ?thesis by (subst scan_options.simps) simp
qed

lemma length_concat_pairs: "length (concat (map (\<lambda>(n, v). [f n, g v]) xs)) = 2 * length xs"
  by (induction xs) auto

lemma scan_filter_only:
  assumes "length hs = length ps" and "length ps < 2 ^ 60"
  shows "scan_options (map (wire f64_text) ([Text_Arg ''FT.SEARCH'', Text_Arg idx, Text_Arg expr, Text_Arg ''LIMIT'', Int_Arg 0,
      Int_Arg (int limit), Text_Arg ''NOCONTENT'', Text_Arg ''DIALECT'', Int_Arg 2, Text_Arg ''TIMEOUT'', Int_Arg timeout] @
     (if ps = [] then [] else [Text_Arg ''PARAMS'', Int_Arg (int (length ps * 2))] @
        concat (map (\<lambda>(name, v). [Text_Arg name, param_arg v]) hs)))) 3 = Some (Inr ())" (is "scan_options ?args 3 = _")
proof -
  have len: "length ?args = (if ps = [] then 11 else 13 + 2 * length ps)"
    using assms(1) length_concat_pairs [of Text_Arg param_arg hs] by (simp add: case_prod_unfold)
  have big: "length ?args < 2 ^ 64" using assms(2) unfolding len by (simp split: if_splits)
  have at: "?args ! 3 = ''LIMIT''" "?args ! 6 = ''NOCONTENT''" "?args ! 7 = ''DIALECT''" "?args ! 8 = int_str 2"
    "?args ! 9 = ''TIMEOUT''" by (simp_all add: nth_append)
  define args where "args = ?args"
  note defs = at [folded args_def] len [folded args_def]
  note step = scan_step [OF _ _ _ _ big [folded args_def]]
  have "scan_options args 3 = scan_options args 6"
    by (rule step [of _ _ 2]) (simp_all add: operands_at_def Let_def defs option_names)
  also have "\<dots> = scan_options args 7"
    by (rule step [of _ _ 0]) (simp_all add: operands_at_def Let_def defs option_names)
  also have "\<dots> = scan_options args 9"
    by (rule step [of _ _ 1]) (simp_all add: operands_at_def Let_def defs option_names dialect_2)
  also have "\<dots> = scan_options args 11"
    by (rule step [of _ _ 1]) (simp_all add: operands_at_def Let_def defs option_names)
  also have "\<dots> = Some (Inr ())"
  proof (cases "ps = []")
    case True
    then show ?thesis by (subst scan_options.simps) (simp add: defs)
  next
    case False
    have p: "args ! 11 = ''PARAMS''" "args ! 12 = nat_str (length ps * 2)"
      using False by (simp_all add: args_def nth_append int_str_def nat_mult_distrib)
    have n: "length ps * 2 < 2 ^ 64" using assms(2) by simp
    have "operands_at args 11 = Inr (length ps * 2 + 1)"
      using False parse_count [OF n] by (simp add: operands_at_def Let_def p option_names defs)
    then have "scan_options args 11 = scan_options args (13 + length ps * 2)"
      using False by (intro step [of _ _ "length ps * 2 + 1"]) (simp_all add: defs)
    also have "\<dots> = Some (Inr ())" using False by (subst scan_options.simps) (simp add: defs)
    finally show ?thesis .
  qed
  finally show ?thesis unfolding args_def .
qed


section \<open>Which commands are accepted\<close>

text \<open>An option of a metadata search with its operands.\<close>

definition metadata_option :: "string list \<Rightarrow> bool" where
  "metadata_option x \<longleftrightarrow> (case x of
       [] \<Rightarrow> False
     | name # operands \<Rightarrow>
         (let opt = map to_upper (from_utf8_lossy name); first = from_utf8_lossy (hd operands); n = length operands in
            opt = ''NOCONTENT'' \<and> n = 0 \<or> opt = ''TIMEOUT'' \<and> n = 1 \<or> opt = ''LIMIT'' \<and> n = 2 \<or>
            opt = ''DIALECT'' \<and> n = 1 \<and> (\<forall>d. parse_u32 first = Some d \<longrightarrow> d < 4) \<or>
            opt = ''PARAMS'' \<and> n > 0 \<and> parse_u64 first = Some (n - 1) \<and> even (n - 1)))"

text \<open>No number in the command reaches \<open>2\<^sup>6\<^sup>2\<close>, so the positions of the scan do not wrap around.\<close>

definition small_numbers :: "string list \<Rightarrow> bool" where
  "small_numbers args \<longleftrightarrow> length args < 2 ^ 62 \<and> (\<forall>a \<in> set args. \<forall>n. parse_u64 (from_utf8_lossy a) = Some n \<longrightarrow> n < 2 ^ 62)"

lemma operands_small:
  assumes "operands_at args i = Inr k" and "small_numbers args"
  shows "k \<le> 2 ^ 62"
proof -
  have "n < 2 ^ 62" if "i + 1 < length args" "parse_u64 (from_utf8_lossy (args ! (i + 1))) = Some n" for n
    using assms(2) nth_mem [OF that(1)] that(2) unfolding small_numbers_def by blast
  then show ?thesis using assms(1)
    by (fastforce simp: operands_at_def Let_def split: if_splits option.splits)
qed

lemma operands_iff:
  assumes "i + k < length args"
  shows "operands_at args i = Inr k \<longleftrightarrow> metadata_option (take (Suc k) (drop i args))"
proof -
  have d: "take (Suc k) (drop i args) = args ! i # take k (drop (Suc i) args)"
    using assms by (simp add: Cons_nth_drop_Suc [symmetric])
  have n: "length (take k (drop (Suc i) args)) = k" using assms by simp
  have h: "hd (take k (drop (Suc i) args)) = args ! (i + 1)" if "k > 0" using assms that by (simp add: hd_drop_conv_nth)
  show ?thesis
  proof (cases "k = 0")
    case True
    then show ?thesis unfolding d metadata_option_def Let_def
      by (auto simp: operands_at_def Let_def split: option.splits)
  next
    case False
    with assms have "i + 1 < length args" by simp
    with False h show ?thesis unfolding d metadata_option_def list.case n Let_def
      by (auto simp: operands_at_def Let_def split: option.splits)
  qed
qed

lemma scan_next:
  assumes "i < length args" and "operands_at args i = Inr k" and "small_numbers args"
  shows "scan_options args i =
    (if i + k < length args then scan_options args (i + k + 1)
     else Some (Inl (Missing_Operands (map to_upper (from_utf8_lossy (args ! i))))))"
proof -
  have "i + k + 1 < 2 ^ 64" "1 + k < 2 ^ 64"
    using assms(1,3) operands_small [OF assms(2,3)] by (simp_all add: small_numbers_def)
  with assms(1,2) show ?thesis by (subst scan_options.simps) simp
qed

lemma scan_returns: "small_numbers args \<Longrightarrow> scan_options args i \<noteq> None"
proof (induction "length args - i" arbitrary: i rule: less_induct)
  case less
  show ?case
  proof (cases "i < length args")
    case True
    show ?thesis
    proof (cases "operands_at args i")
      case (Inr k)
      with True less show ?thesis by (auto simp: scan_next)
    qed (use True in \<open>subst scan_options.simps; simp\<close>)
  qed (subst scan_options.simps, simp)
qed

lemma scan_complete:
  "drop i args = concat opts \<Longrightarrow> \<forall>x \<in> set opts. metadata_option x \<Longrightarrow> small_numbers args \<Longrightarrow> scan_options args i = Some (Inr ())"
proof (induction opts arbitrary: i)
  case Nil
  then show ?case by (subst scan_options.simps) simp
next
  case (Cons x opts)
  then obtain name operands where x: "x = name # operands" by (cases x) (auto simp: metadata_option_def)
  let ?k = "length operands"
  from Cons.prems(1) x have len: "length (drop i args) = Suc ?k + length (concat opts)" by simp
  then have ik: "i + ?k < length args" by simp
  have "take (Suc ?k) (drop i args) = x" using Cons.prems(1) x by simp
  with operands_iff [OF ik] Cons.prems(2) have op: "operands_at args i = Inr ?k" by simp
  have "drop (i + ?k + 1) args = concat opts"
    using Cons.prems(1) x by (metis (no_types, lifting) add.commute add_Suc_right append_eq_conv_conj concat.simps(2) drop_drop
        length_Cons plus_1_eq_Suc Suc_eq_plus1)
  with Cons.IH [OF this] Cons.prems(2,3) ik show ?case using scan_next [OF _ op Cons.prems(3)] by simp
qed

lemma scan_sound:
  "scan_options args i = Some (Inr ()) \<Longrightarrow> small_numbers args \<Longrightarrow>
   \<exists>opts. drop i args = concat opts \<and> (\<forall>x \<in> set opts. metadata_option x)"
proof (induction "length args - i" arbitrary: i rule: less_induct)
  case less
  show ?case
  proof (cases "i < length args")
    case False
    then show ?thesis by (intro exI [of _ "[]"]) simp
  next
    case True
    with less.prems(1) obtain k where k: "operands_at args i = Inr k"
      by (subst (asm) scan_options.simps) (auto split: sum.splits)
    with less.prems True have ik: "i + k < length args" and rest: "scan_options args (i + k + 1) = Some (Inr ())"
      using scan_next [OF True k] by (auto split: if_splits)
    have dec: "length args - (i + k + 1) < length args - i" using True by simp
    from less.hyps [OF dec rest less.prems(2)] obtain opts where
      "drop (i + k + 1) args = concat opts" "\<forall>x \<in> set opts. metadata_option x" by blast
    moreover have "drop i args = take (Suc k) (drop i args) @ drop (i + k + 1) args"
      by (metis append_take_drop_id drop_drop add.commute Suc_eq_plus1 add.assoc)
    ultimately show ?thesis using operands_iff [OF ik] k by (intro exI [of _ "take (Suc k) (drop i args) # opts"]) simp
  qed
qed

lemma metadata_command_iff:
  assumes "small_numbers args"
  shows "check_redis_command args \<noteq> None \<and>
    (check_redis_command args = Some (Inr ()) \<longleftrightarrow>
      (\<exists>name idx query opts. args = name # idx # query # concat opts \<and> eq_ignore_ascii_case name ''FT.SEARCH'' \<and>
         \<not> contains (from_utf8_lossy query) ''=>'' \<and>
         \<not> contains (map to_upper (from_utf8_lossy query)) ''VECTOR_RANGE'' \<and>
         (\<forall>x \<in> set opts. metadata_option x)))"
proof (cases "length args < 3 \<or> \<not> eq_ignore_ascii_case (args ! 0) ''FT.SEARCH''")
  case True
  then show ?thesis by (auto simp: check_redis_command_def)
next
  case False
  then obtain name idx query rest where args: "args = name # idx # query # rest"
    by (cases args; cases "tl args"; cases "tl (tl args)") auto
  have rest: "drop 3 args = rest" by (simp add: args)
  have "scan_options args 3 = Some (Inr ()) \<longleftrightarrow> (\<exists>opts. rest = concat opts \<and> (\<forall>x \<in> set opts. metadata_option x))"
    using scan_sound [OF _ assms, of 3] scan_complete [OF _ _ assms, of 3] unfolding rest by blast
  moreover have "scan_options args 3 \<noteq> None" using assms by (rule scan_returns)
  ultimately show ?thesis using False
    by (auto simp: check_redis_command_def check_redis_query_def args split: sum.splits)
qed

section \<open>Properties\<close>

text \<open>
  A count that wraps around stops the check from answering.  In a release build the position after \<open>PARAMS\<close> with
  the count \<open>2\<^sup>6\<^sup>4 - 2\<close> is computed modulo \<open>2\<^sup>6\<^sup>4\<close> and is the position of \<open>PARAMS\<close> itself, so the loop never ends: the
  operands are in bounds as far as the comparison can tell, and no command that ends this way is accepted or refused.
\<close>

theorem wrapped_count_never_returns:
  assumes "eq_ignore_ascii_case name ''FT.SEARCH''" and "check_redis_query (from_utf8_lossy query) = Inr ()"
  shows "check_redis_command [name, idx, query, ''PARAMS'', ''18446744073709551614''] = None"
proof -
  let ?args = "[name, idx, query, ''PARAMS'', ''18446744073709551614'']"
  have p: "parse_u64 (from_utf8_lossy ''18446744073709551614'') = Some 18446744073709551614"
  proof -
    have "list_all is_digit ''18446744073709551614''" by code_simp
    then have "from_utf8_lossy ''18446744073709551614'' = ''18446744073709551614''"
      by (intro from_utf8_lossy_valid valid_utf8_digits)
    moreover have "digits_value ''18446744073709551614'' = 18446744073709551614"
    proof -
      have "map (\<lambda>c. byte c - 48) ''18446744073709551614'' = [1, 8, 4, 4, 6, 7, 4, 4, 0, 7, 3, 7, 0, 9, 5, 5, 1, 6, 1, 4]" by code_simp
      then have "digits_value ''18446744073709551614'' =
          foldl (\<lambda>n d. 10 * n + d) 0 [1, 8, 4, 4, 6, 7, 4, 4, 0, 7, 3, 7, 0, 9, 5, 5, 1, 6, 1, 4]"
        unfolding digits_value_def by (metis foldl_map)
      then show ?thesis by simp
    qed
    moreover have "list_all is_digit ''18446744073709551614''" by code_simp
    ultimately have "parse_u64 ''18446744073709551614'' = Some 18446744073709551614" by (simp add: parse_u64_def)
    with \<open>from_utf8_lossy _ = _\<close> show ?thesis by simp
  qed
  have op: "operands_at ?args 3 = Inr 18446744073709551615" by (simp add: operands_at_def Let_def option_names p)
  have "\<not> (args = ?args \<and> i = 3)" if "scan_options args i = Some r" for args i r
    using that
  proof (induction rule: scan_options.raw_induct [rotated 1, consumes 1])
    case (1 scan as j s)
    have "scan ?args 3 = Some s" if "as = ?args \<and> j = 3" using 1(2) that by (auto simp: op)
    with 1(1) show ?case by blast
  qed
  then have "scan_options ?args 3 = None" by (cases "scan_options ?args 3") auto
  with assms show ?thesis by (simp add: check_redis_command_def)
qed

theorem wrapped_count_never_returns_witness:
  "check_redis_command [''FT.SEARCH'', ''idx'', ''*'', ''PARAMS'', ''18446744073709551614''] = None"
proof (rule wrapped_count_never_returns)
  show "eq_ignore_ascii_case ''FT.SEARCH'' ''FT.SEARCH''" "check_redis_query (from_utf8_lossy ''*'') = Inr ()" by code_simp+
qed

text \<open>
  C12: the metadata check accepts exactly the metadata searches.  A command without numbers of \<open>2\<^sup>6\<^sup>2\<close> or more is
  accepted if and only if it is \<open>FT.SEARCH index query\<close>, the query has neither an arrow nor \<open>VECTOR_RANGE\<close> in any case,
  and what follows are only \<open>LIMIT o n\<close>, \<open>NOCONTENT\<close>, \<open>TIMEOUT t\<close>, \<open>DIALECT d\<close> with no dialect of 4 or more, and
  \<open>PARAMS n ..\<close> with an even number of operands; any other is refused, and the check always answers.  So it separates
  the two workloads: the filter-only command the builder makes of any filter is accepted when the filter's expression carries neither an arrow nor \<open>VECTOR_RANGE\<close> in any case, and refused for
  its query otherwise, whatever the order in which the hash map yields the parameters; and every vector search command
  the builder makes, with a filter or without one, is refused for its query.
\<close>

theorem filter_only_check_separates:
  "(small_numbers args \<longrightarrow> check_redis_command args \<noteq> None \<and>
    (check_redis_command args = Some (Inr ()) \<longleftrightarrow>
      (\<exists>name idx query opts. args = name # idx # query # concat opts \<and> eq_ignore_ascii_case name ''FT.SEARCH'' \<and>
         \<not> contains (from_utf8_lossy query) ''=>'' \<and>
         \<not> contains (map to_upper (from_utf8_lossy query)) ''VECTOR_RANGE'' \<and>
         (\<forall>x \<in> set opts. metadata_option x)))) \<and>
   (valid_utf8 (fst f) \<and> length (hash_order (snd f)) = length (snd f) \<and> length (snd f) < 2 ^ 60 \<longrightarrow>
    check_filter_only_command f64_text (build_filter_only_command hash_order idx limit timeout f) =
      (if contains (fst f) ''=>'' \<or> contains (map to_upper (fst f)) ''VECTOR_RANGE''
       then Some (Inl (Query_Clause (fst f))) else Some (Inr ()))) \<and>
   (valid_utf8 (build_knn_query_str upper algorithm policy flt) \<longrightarrow>
    check_filter_only_command f64_text (build_ft_search_cmd upper hash_order idx vec_bytes
        (build_knn_query_str upper algorithm policy flt) limit ef algorithm policy timeout flt) =
      Some (Inl (Query_Clause (build_knn_query_str upper algorithm policy flt))))"
proof (intro conjI)
  show "small_numbers args \<longrightarrow> check_redis_command args \<noteq> None \<and>
    (check_redis_command args = Some (Inr ()) \<longleftrightarrow>
      (\<exists>name idx query opts. args = name # idx # query # concat opts \<and> eq_ignore_ascii_case name ''FT.SEARCH'' \<and>
         \<not> contains (from_utf8_lossy query) ''=>'' \<and>
         \<not> contains (map to_upper (from_utf8_lossy query)) ''VECTOR_RANGE'' \<and>
         (\<forall>x \<in> set opts. metadata_option x)))"
    using metadata_command_iff by blast
  show "valid_utf8 (fst f) \<and> length (hash_order (snd f)) = length (snd f) \<and> length (snd f) < 2 ^ 60 \<longrightarrow>
    check_filter_only_command f64_text (build_filter_only_command hash_order idx limit timeout f) =
      (if contains (fst f) ''=>'' \<or> contains (map to_upper (fst f)) ''VECTOR_RANGE''
       then Some (Inl (Query_Clause (fst f))) else Some (Inr ()))"
  proof
    assume hyps: "valid_utf8 (fst f) \<and> length (hash_order (snd f)) = length (snd f) \<and> length (snd f) < 2 ^ 60"
    obtain expr ps where f: "f = (expr, ps)" by force
    let ?cmd = "map (wire f64_text) (build_filter_only_command hash_order idx limit timeout f)"
    have "scan_options ?cmd 3 = Some (Inr ())"
      using scan_filter_only [of "hash_order ps" ps f64_text idx expr limit timeout] hyps f
      by (simp add: build_filter_only_command_def)
    moreover have "3 \<le> length ?cmd" "?cmd ! 0 = ''FT.SEARCH''" "?cmd ! 2 = expr"
      by (simp_all add: f build_filter_only_command_def)
    ultimately show "check_filter_only_command f64_text (build_filter_only_command hash_order idx limit timeout f) =
        (if contains (fst f) ''=>'' \<or> contains (map to_upper (fst f)) ''VECTOR_RANGE''
         then Some (Inl (Query_Clause (fst f))) else Some (Inr ()))"
      using hyps f
      by (auto simp: check_filter_only_command_def check_redis_command_def check_redis_query_def eq_ignore_ascii_case_def
          from_utf8_lossy_valid)
  qed
  let ?q = "build_knn_query_str upper algorithm policy flt"
  let ?cmd = "map (wire f64_text) (build_ft_search_cmd upper hash_order idx vec_bytes ?q limit ef algorithm policy timeout flt)"
  show "valid_utf8 ?q \<longrightarrow> check_filter_only_command f64_text (build_ft_search_cmd upper hash_order idx vec_bytes ?q limit ef algorithm policy
      timeout flt) = Some (Inl (Query_Clause ?q))"
  proof
    assume utf8: "valid_utf8 ?q"
    have "?q = (case flt of Some (expr, _) \<Rightarrow> expr | None \<Rightarrow> ''*'') @ ''=>'' @ ''[KNN $K @vector $vec_param '' @
        knn_conditions upper algorithm policy @ '' AS vector_score]'' @
        (if policy = [] then [] else ''=>{$HYBRID_POLICY: '' @ policy @ '' }'')" by (simp add: build_knn_query_str_def)
    then have "contains ?q ''=>''" using contains_append by metis
    moreover have "3 \<le> length ?cmd" "?cmd ! 0 = ''FT.SEARCH''" "?cmd ! 2 = ?q"
      by (simp_all add: build_ft_search_cmd_def Let_def)
    ultimately show "check_filter_only_command f64_text (build_ft_search_cmd upper hash_order idx vec_bytes ?q limit ef algorithm policy
        timeout flt) = Some (Inl (Query_Clause ?q))"
      using utf8
      by (simp add: check_filter_only_command_def check_redis_command_def eq_ignore_ascii_case_def from_utf8_lossy_valid
          check_redis_query_def)
  qed
qed

lemma sample_numbers:
  "small_numbers [''ft.search'', ''idx'', ''@v:[vector_range 1 $q]'', ''NOCONTENT'']"
proof -
  have "parse_u64 (from_utf8_lossy ''ft.search'') = None" "parse_u64 (from_utf8_lossy ''idx'') = None"
    "parse_u64 (from_utf8_lossy ''@v:[vector_range 1 $q]'') = None" "parse_u64 (from_utf8_lossy ''NOCONTENT'') = None"
    by (rule no_number; code_simp)+
  then show ?thesis by (simp add: small_numbers_def)
qed

theorem filter_only_check_separates_witness:
  "check_redis_command [''ft.search'', ''idx'', ''@v:[vector_range 1 $q]'', ''NOCONTENT''] \<noteq> Some (Inr ()) \<and>
   check_filter_only_command (\<lambda>_. []) (build_filter_only_command rev ''idx'' 10 0
       (''@tier:[$tier_0 $tier_0]'', [(''tier_0'', Int_Param 3)])) = Some (Inr ()) \<and>
   check_filter_only_command (\<lambda>_. []) (build_ft_search_cmd id rev ''idx'' [] (build_knn_query_str id ''HNSW'' [] None) 10 64 ''HNSW'' [] 0
       None) = Some (Inl (Query_Clause (build_knn_query_str id ''HNSW'' [] None)))"
proof -
  let ?f = "(''@tier:[$tier_0 $tier_0]'', [(''tier_0'', Int_Param 3)])"
  have v: "valid_utf8 (fst ?f)" "valid_utf8 (build_knn_query_str id ''HNSW'' [] None)" by code_simp+
  have c: "\<not> (contains (fst ?f) ''=>'' \<or> contains (map to_upper (fst ?f)) ''VECTOR_RANGE'')" by code_simp
  have "contains (map to_upper (from_utf8_lossy ''@v:[vector_range 1 $q]'')) ''VECTOR_RANGE''" by code_simp
  then show ?thesis
    using v c sample_numbers filter_only_check_separates [of "[''ft.search'', ''idx'', ''@v:[vector_range 1 $q]'', ''NOCONTENT'']"
        ?f rev "\<lambda>_. []" "''idx''" 10 0 id "''HNSW''" "[]" None "[]" 64] by simp
qed


section \<open>Layouts\<close>

lemma has_vector_fold:
  assumes "ffold (attribute_kind full) b as = Inr v"
  shows "v \<longleftrightarrow> b \<or> (\<exists>a \<in> set as. \<exists>k. ft_info_text a ''type'' = Some k \<and> eq_ignore_ascii_case k ''VECTOR'')"
    and "\<not> full \<Longrightarrow> v \<longleftrightarrow> b"
  using assms
  by (induction as arbitrary: b) (auto simp: attribute_kind_def split: if_splits)

lemma redis_layout_vector:
  assumes "validate_redis_layout info schema full = Inr ()"
  obtains as where "Option.bind (ft_info_field info ''attributes'') as_array = Some as"
    and "full \<longleftrightarrow> (\<exists>a \<in> set as. \<exists>k. ft_info_text a ''type'' = Some k \<and> eq_ignore_ascii_case k ''VECTOR'')"
    and "\<And>name kind. (name, kind) \<in> set (schema_fields schema) \<Longrightarrow> is_tag_kind kind \<Longrightarrow>
      \<exists>a. find_attribute as name = Some a \<and> ft_info_has_flag a ''CASESENSITIVE''"
proof -
  from assms obtain as v where as: "Option.bind (ft_info_field info ''attributes'') as_array = Some as"
    and v: "ffold (attribute_kind full) False as = Inr v" and "full \<longrightarrow> v"
    and each: "\<forall>f \<in> set (schema_fields schema). validate_redis_field as f = Inr ()"
    by (auto simp: validate_redis_layout_def split: if_splits)
  moreover have "\<exists>a. find_attribute as name = Some a \<and> ft_info_has_flag a ''CASESENSITIVE''"
    if "(name, kind) \<in> set (schema_fields schema)" "is_tag_kind kind" for name kind
  proof -
    have "validate_redis_field as (name, kind) = Inr ()" using each that(1) by blast
    with that(2) show ?thesis by (auto simp: validate_redis_field_def Let_def split: if_splits)
  qed
  ultimately show thesis using that has_vector_fold [OF v] by (cases full) auto
qed

lemma opensearch_scalar_double:
  "validate_opensearch_scalar_fields properties schema = Inr () \<Longrightarrow> (name, String ''float'') \<in> set (schema_fields schema) \<Longrightarrow>
   jindex (jindex properties name) ''type'' = String ''double''"
  by (force simp: validate_opensearch_scalar_fields_def validate_scalar_field_def is_str_def Let_def split: if_splits)

lemma redis_layouts_exclusive:
  "\<not> (validate_redis_schema info schema = Inr () \<and> validate_redis_full_schema info schema = Inr ())"
  unfolding validate_redis_schema_def validate_redis_full_schema_def
  by (metis option.inject redis_layout_vector)

lemma opensearch_layouts_exclusive:
  "\<not> (validate_opensearch_schema properties idx schema = Inr () \<and>
      validate_opensearch_full_schema properties idx schema = Inr ())"
  by (auto simp: validate_opensearch_schema_def validate_opensearch_full_schema_def Let_def is_str_def is_false_def
      split: if_splits)

lemma redis_vector_excludes:
  assumes tag: "(name, kind) \<in> set (schema_fields schema)" "is_tag_kind kind"
    and vec: "validate_redis_vector_layout info schema = Inr ()"
  shows "validate_redis_layout info schema full \<noteq> Inr ()"
proof
  assume "validate_redis_layout info schema full = Inr ()"
  then obtain as a where "Option.bind (ft_info_field info ''attributes'') as_array = Some as"
    and "find_attribute as name = Some a" "ft_info_has_flag a ''CASESENSITIVE''"
    using redis_layout_vector tag by metis
  with vec tag show False by (auto simp: validate_redis_vector_layout_def)
qed

lemma opensearch_vector_excludes:
  assumes float: "(name, String ''float'') \<in> set (schema_fields schema)"
    and vec: "validate_opensearch_vector_layout properties schema = Inr ()"
  shows "validate_opensearch_scalar_fields properties schema \<noteq> Inr ()"
proof -
  have "jindex (jindex properties name) ''type'' \<noteq> String ''double''"
    using vec float by (auto simp: validate_opensearch_vector_layout_def is_str_def split: if_splits)
  then show ?thesis using opensearch_scalar_double [OF _ float] by blast
qed

text \<open>
  C24: an index passes at most one layout check, so a result is never published under another layout's name.  The
  no-vector and the full check exclude each other on every reply.  The vector check excludes both wherever the
  schema declares a field the layouts index differently: a tag field for Redis, a float field for OpenSearch.
\<close>

theorem index_layouts_exclusive:
  "\<not> (validate_redis_schema info schema = Inr () \<and> validate_redis_full_schema info schema = Inr ()) \<and>
   \<not> (validate_opensearch_schema properties idx schema = Inr () \<and>
      validate_opensearch_full_schema properties idx schema = Inr ()) \<and>
   ((name, kind) \<in> set (schema_fields schema) \<and> is_tag_kind kind \<and> validate_redis_vector_layout info schema = Inr () \<longrightarrow>
      validate_redis_schema info schema \<noteq> Inr () \<and> validate_redis_full_schema info schema \<noteq> Inr ()) \<and>
   ((name, String ''float'') \<in> set (schema_fields schema) \<and> validate_opensearch_vector_layout properties schema = Inr () \<longrightarrow>
      validate_opensearch_schema properties idx schema \<noteq> Inr () \<and>
      validate_opensearch_full_schema properties idx schema \<noteq> Inr ())"
  using redis_layouts_exclusive opensearch_layouts_exclusive redis_vector_excludes [of name kind schema info]
    opensearch_vector_excludes [of name schema properties]
  by (auto simp: validate_redis_schema_def validate_redis_full_schema_def validate_opensearch_schema_def
      validate_opensearch_full_schema_def Let_def)

theorem index_layouts_exclusive_witness:
  "let schema = Some (Object [(''category'', String ''keyword'')]);
       vector = Object [(''attribute'', String ''vector''), (''type'', String ''VECTOR'')];
       tag = (\<lambda>flags. Object [(''attribute'', String ''category''), (''type'', String ''TAG''), (''SEPARATOR'', String '';''),
         (''flags'', Array flags)]);
       info = (\<lambda>flags. Object [(''attributes'', Array [vector, tag flags])])
   in validate_redis_vector_layout (info []) schema = Inr () \<and> validate_redis_full_schema (info []) schema \<noteq> Inr () \<and>
      validate_redis_full_schema (info [String ''CASESENSITIVE'']) schema = Inr () \<and>
      validate_redis_schema (info [String ''CASESENSITIVE'']) schema \<noteq> Inr ()"
proof -
  let ?schema = "Some (Object [(''category'', String ''keyword'')])"
  let ?vector = "Object [(''attribute'', String ''vector''), (''type'', String ''VECTOR'')]"
  let ?info = "\<lambda>flags. Object [(''attributes'', Array [?vector, Object [(''attribute'', String ''category''), (''type'', String ''TAG''),
    (''SEPARATOR'', String '';''), (''flags'', Array flags)]])]"
  have v: "validate_redis_vector_layout (?info []) ?schema = Inr ()" by code_simp
  have f: "validate_redis_full_schema (?info [String ''CASESENSITIVE'']) ?schema = Inr ()" by code_simp
  have m: "(''category'', String ''keyword'') \<in> set (schema_fields ?schema)" "is_tag_kind (String ''keyword'')" by code_simp+
  show ?thesis
    using v f m index_layouts_exclusive [of "?info []" ?schema Null Null "''category''" "String ''keyword''"]
      index_layouts_exclusive [of "?info [String ''CASESENSITIVE'']" ?schema Null Null "''category''" "String ''keyword''"]
    by (simp add: Let_def)
qed

end
