(* ===== verification/Hybrid_Filter.thy ===== *)
theory Hybrid_Filter
  imports Filter_Oracle
begin

text \<open>
  The expressibility checks of the filtered vector workload, \<open>src/src/hybrid.rs\<close>: the parser for the RediSearch
  expressions the filter builder emits, the comparison of the parsed expression with the compiled predicate, and
  the comparison of an OpenSearch filter with the declared condition; and what an accepted expression selects in the
  \<open>vector\<close> layout, whose TAG fields are read differently from those of the \<open>filter_only\<close> layout.

  A parser state is the input that is left.  The three parsing functions call each other and are given fuel; three
  units per byte and three more are enough (\<open>parse_has_fuel\<close>), so \<open>Out_Of_Fuel\<close> is no result of
  \<open>parse_redis_filter\<close>.  The byte position and the text of the messages are not modelled.
\<close>

section \<open>The expression parser\<close>

datatype redis_param = Param_Str string | Param_Num f64v

datatype rnode =
    R_And "rnode list"
  | R_Or "rnode list"
  | R_Range string "(string \<times> bool) option" "(string \<times> bool) option"
  | R_Tag string "string list"
  | R_Text string string

datatype grammar_error =
    Unexpected_Token
  | Empty_Clause
  | Unclosed_Group
  | Leaf_Without_Value
  | Unclosed_Leaf
  | Trailing_Input
  | Not_A_Parameter string string
  | Not_An_Interval string string
  | Out_Of_Fuel

definition ws :: "string \<Rightarrow> string" where
  "ws s = dropWhile (\<lambda>c. c = CHR '' '') s"

definition param_of :: "string \<Rightarrow> string \<Rightarrow> grammar_error + string" where
  "param_of field t = (case strip_prefix ''$'' t of
       Some p \<Rightarrow> if p \<noteq> [] \<and> CHR '' '' \<notin> set p then Inr p else Inl (Not_A_Parameter field t)
     | None \<Rightarrow> Inl (Not_A_Parameter field t))"

definition range_side :: "string \<Rightarrow> string \<Rightarrow> string \<Rightarrow> grammar_error + (string \<times> bool) option" where
  "range_side field t open_end =
     (if t = open_end then Inr None
      else case strip_prefix ''('' t of
          Some rest \<Rightarrow> rbind (param_of field rest) (\<lambda>p. Inr (Some (p, True)))
        | None \<Rightarrow> rbind (param_of field t) (\<lambda>p. Inr (Some (p, False))))"

definition leaf_node :: "char \<Rightarrow> string \<Rightarrow> string \<Rightarrow> grammar_error + rnode" where
  "leaf_node opening field body =
     (if opening = CHR ''['' then
        (case filter (\<lambda>t. t \<noteq> []) (split_on CHR '' '' body) of
           [lo, hi] \<Rightarrow> rbind (range_side field lo ''-inf'') (\<lambda>l. rbind (range_side field hi ''+inf'') (\<lambda>h.
             Inr (R_Range field l h)))
         | _ \<Rightarrow> Inl (Not_An_Interval field body))
      else if opening = CHR ''{'' then
        rbind (traverse (\<lambda>t. param_of field (trim t)) (split_on CHR ''|'' body)) (\<lambda>ps. Inr (R_Tag field ps))
      else rbind (param_of field (trim body)) (\<lambda>p. Inr (R_Text field p)))"

definition closing :: "char \<Rightarrow> char option" where
  "closing c = (if c = CHR ''['' then Some CHR '']'' else if c = CHR ''{'' then Some CHR ''}''
     else if c = CHR ''('' then Some CHR '')'' else None)"

text \<open>The part of \<open>unit\<close> after the \<open>@\<close>.\<close>

definition parse_leaf :: "string \<Rightarrow> grammar_error + rnode \<times> string" where
  "parse_leaf s =
     (let field = from_utf8_lossy (takeWhile (\<lambda>c. c \<noteq> CHR '':'') s);
          r = drop 1 (dropWhile (\<lambda>c. c \<noteq> CHR '':'') s)
      in case r of
          [] \<Rightarrow> Inl Leaf_Without_Value
        | c # b \<Rightarrow>
            (case closing c of
               None \<Rightarrow> Inl Leaf_Without_Value
             | Some close \<Rightarrow>
                 (case dropWhile (\<lambda>x. x \<noteq> close) b of
                    [] \<Rightarrow> Inl Unclosed_Leaf
                  | _ # rest \<Rightarrow>
                      rbind (leaf_node c field (from_utf8_lossy (takeWhile (\<lambda>x. x \<noteq> close) b)))
                        (\<lambda>n. Inr (n, rest)))))"

definition group_of :: "(rnode list \<Rightarrow> rnode) \<Rightarrow> rnode list \<Rightarrow> rnode" where
  "group_of g ns = (case ns of [n] \<Rightarrow> n | _ \<Rightarrow> g ns)"

fun alternatives :: "nat \<Rightarrow> rnode list \<Rightarrow> string \<Rightarrow> grammar_error + rnode \<times> string"
  and sequence :: "nat \<Rightarrow> rnode list \<Rightarrow> string \<Rightarrow> grammar_error + rnode \<times> string"
  and unit_node :: "nat \<Rightarrow> string \<Rightarrow> grammar_error + rnode \<times> string" where
  "alternatives 0 alts s = Inl Out_Of_Fuel"
| "alternatives (Suc n) alts s =
     rbind (sequence n [] s) (\<lambda>(a, r).
       if ws r \<noteq> [] \<and> hd (ws r) = CHR ''|'' then alternatives n (alts @ [a]) (tl (ws r))
       else Inr (group_of R_Or (alts @ [a]), ws r))"
| "sequence 0 units s = Inl Out_Of_Fuel"
| "sequence (Suc n) units s =
     (let r = ws s in
      if r \<noteq> [] \<and> (hd r = CHR ''('' \<or> hd r = CHR ''@'') then
        rbind (unit_node n r) (\<lambda>(u, r'). sequence n (units @ [u]) r')
      else if r = [] \<or> hd r = CHR ''|'' \<or> hd r = CHR '')'' then
        (if units = [] then Inl Empty_Clause else Inr (group_of R_And units, r))
      else Inl Unexpected_Token)"
| "unit_node 0 s = Inl Out_Of_Fuel"
| "unit_node (Suc n) s =
     (if hd s = CHR ''('' then
        rbind (alternatives n [] (tl s)) (\<lambda>(inner, r).
          if ws r \<noteq> [] \<and> hd (ws r) = CHR '')'' then Inr (inner, tl (ws r)) else Inl Unclosed_Group)
      else parse_leaf (tl s))"

definition parse_redis_filter :: "string \<Rightarrow> grammar_error + rnode" where
  "parse_redis_filter expr =
     rbind (alternatives (3 * length expr + 3) [] expr) (\<lambda>(n, r). if ws r = [] then Inr n else Inl Trailing_Input)"

section \<open>Comparison with the predicate\<close>

text \<open>The children a flattened entry adds to a group of the same kind.\<close>

fun and_nodes :: "rnode \<Rightarrow> rnode list" where
  "and_nodes (R_And g) = g"
| "and_nodes n = [n]"

fun or_nodes :: "rnode \<Rightarrow> rnode list" where
  "or_nodes (R_Or g) = g"
| "or_nodes n = [n]"

fun and_entries :: "predicate \<Rightarrow> predicate list" where
  "and_entries (And g) = g"
| "and_entries p = [p]"

fun or_entries :: "predicate \<Rightarrow> predicate list" where
  "or_entries (Or g) = g"
| "or_entries p = [p]"

fun flatten_node :: "rnode \<Rightarrow> rnode" where
  "flatten_node (R_And [c]) = flatten_node c"
| "flatten_node (R_Or [c]) = flatten_node c"
| "flatten_node (R_And cs) = R_And (concat (map (\<lambda>k. and_nodes (flatten_node k)) cs))"
| "flatten_node (R_Or cs) = R_Or (concat (map (\<lambda>k. or_nodes (flatten_node k)) cs))"
| "flatten_node n = n"

fun flatten_predicate :: "predicate \<Rightarrow> predicate" where
  "flatten_predicate (And [c]) = flatten_predicate c"
| "flatten_predicate (Or [c]) = flatten_predicate c"
| "flatten_predicate (And cs) = And (concat (map (\<lambda>k. and_entries (flatten_predicate k)) cs))"
| "flatten_predicate (Or cs) = Or (concat (map (\<lambda>k. or_entries (flatten_predicate k)) cs))"
| "flatten_predicate p = p"

datatype filter_refusal =
    Grammar grammar_error
  | Not_Number string
  | Not_String string
  | Mismatch

type_synonym params = "string \<rightharpoonup> redis_param"

definition param_num :: "params \<Rightarrow> string \<Rightarrow> filter_refusal + f64v" where
  "param_num M name = (case M name of Some (Param_Num n) \<Rightarrow> Inr n | _ \<Rightarrow> Inl (Not_Number name))"

definition param_text :: "params \<Rightarrow> string \<Rightarrow> filter_refusal + string" where
  "param_text M name = (case M name of Some (Param_Str s) \<Rightarrow> Inr s | _ \<Rightarrow> Inl (Not_String name))"

definition require :: "bool \<Rightarrow> filter_refusal + unit" where
  "require b = (if b then Inr () else Inl Mismatch)"

text \<open>Equality and \<open>total_cmp\<close> of doubles.\<close>

fun feq :: "f64v \<Rightarrow> f64v \<Rightarrow> bool" where
  "feq (Finite x) (Finite y) \<longleftrightarrow> x = y"
| "feq (Non_Finite a) (Non_Finite b) \<longleftrightarrow> a = b \<and> a \<noteq> NaN"
| "feq _ _ \<longleftrightarrow> False"

fun total_rank :: "f64v \<Rightarrow> int \<times> real" where
  "total_rank (Finite x) = (0, x)"
| "total_rank (Non_Finite Minus_Infinity) = (-1, 0)"
| "total_rank (Non_Finite Infinity) = (1, 0)"
| "total_rank (Non_Finite NaN) = (2, 0)"

definition got_side :: "params \<Rightarrow> (string \<times> bool) option \<Rightarrow> filter_refusal + (f64v \<times> bool) option" where
  "got_side M s = (case s of
       None \<Rightarrow> Inr None
     | Some (p, x) \<Rightarrow> rbind (param_num M p) (\<lambda>v. Inr (Some (v, x))))"

fun side_eq :: "(f64v \<times> bool) option \<Rightarrow> (real \<times> bool) option \<Rightarrow> bool" where
  "side_eq None None \<longleftrightarrow> True"
| "side_eq (Some (v, x)) (Some (w, y)) \<longleftrightarrow> feq v (Finite w) \<and> x = y"
| "side_eq _ _ \<longleftrightarrow> False"

definition want_side :: "real option \<Rightarrow> real option \<Rightarrow> (real \<times> bool) option" where
  "want_side strict weak = (case strict of
       Some v \<Rightarrow> Some (v, True)
     | None \<Rightarrow> map_option (\<lambda>v. (v, False)) weak)"

fun op_word :: "operand \<Rightarrow> string option" where
  "op_word (Keyword_Op k) = Some k"
| "op_word (Int_Op _) = None"

fun op_num :: "operand \<Rightarrow> f64v option" where
  "op_num (Int_Op i) = Some (Finite (rnd64 (of_int i)))"
| "op_num (Keyword_Op _) = None"

text \<open>One point interval of an integer list.\<close>

definition point_value :: "params \<Rightarrow> string \<Rightarrow> rnode \<Rightarrow> filter_refusal + f64v" where
  "point_value M field pt = (case pt of
       R_Range f (Some (a, False)) (Some (b, False)) \<Rightarrow>
         if f = field then
           rbind (param_num M a) (\<lambda>x. rbind (param_num M b) (\<lambda>y. if feq x y then Inr x else Inl Mismatch))
         else Inl Mismatch
     | _ \<Rightarrow> Inl Mismatch)"

definition walk_match :: "params \<Rightarrow> string \<Rightarrow> operand list \<Rightarrow> rnode \<Rightarrow> filter_refusal + unit" where
  "walk_match M field ops n =
     (let words = List.map_filter op_word ops; ints = List.map_filter op_num ops in
      if words \<noteq> [] \<and> ints = [] then
        (case n of
           R_Tag f ps \<Rightarrow> rbind (traverse (param_text M) ps) (\<lambda>got. require (f = field \<and> sort got = sort words))
         | _ \<Rightarrow> Inl Mismatch)
      else
        rbind (case n of
            R_Or c \<Rightarrow> if length ints > 1 then Inr c else if length ints = 1 then Inr [n] else Inl Mismatch
          | _ \<Rightarrow> if length ints = 1 then Inr [n] else Inl Mismatch) (\<lambda>pts.
        rbind (traverse (point_value M field) pts) (\<lambda>got.
          require (list_all2 feq (sort_key total_rank got) (sort_key total_rank ints)))))"

definition walk_leaf :: "params \<Rightarrow> string \<Rightarrow> leaf \<Rightarrow> rnode \<Rightarrow> filter_refusal + unit" where
  "walk_leaf M field l n = (case l of
       Text_Leaf t \<Rightarrow>
         (case n of
            R_Text f p \<Rightarrow> if f = field then rbind (param_text M p) (\<lambda>s. require (s = t)) else Inl Mismatch
          | _ \<Rightarrow> Inl Mismatch)
     | Range_Leaf gt gte lt lte \<Rightarrow>
         (case n of
            R_Range f lo hi \<Rightarrow>
              if f = field then
                rbind (got_side M lo) (\<lambda>a.
                  if side_eq a (want_side gt gte)
                  then rbind (got_side M hi) (\<lambda>b. require (side_eq b (want_side lt lte)))
                  else Inl Mismatch)
              else Inl Mismatch
          | _ \<Rightarrow> Inl Mismatch)
     | Match_Leaf ops \<Rightarrow> walk_match M field ops n)"

lemma zip_left_smaller [termination_simp]: "(a, b) \<in> set (zip xs ys) \<Longrightarrow> size a < Suc (size_list size xs)"
  using size_list_estimation' [of a xs "size a" size] by (auto dest: set_zip_leftD simp: less_Suc_eq_le)

fun walk :: "params \<Rightarrow> predicate \<Rightarrow> rnode \<Rightarrow> filter_refusal + unit" where
  "walk M (And pc) (R_And nc) =
     (if length pc \<noteq> length nc then Inl Mismatch else check_each (\<lambda>(p, n). walk M p n) (zip pc nc))"
| "walk M (Or pc) (R_Or nc) =
     (if length pc \<noteq> length nc then Inl Mismatch else check_each (\<lambda>(p, n). walk M p n) (zip pc nc))"
| "walk M (Leaf field l) n = walk_leaf M field l n"
| "walk M _ _ = Inl Mismatch"

definition check_redis_filter :: "predicate \<Rightarrow> string \<Rightarrow> params \<Rightarrow> filter_refusal + unit" where
  "check_redis_filter p expr M =
     rbind (map_err Grammar (parse_redis_filter expr)) (\<lambda>n. walk M (flatten_predicate p) (flatten_node n))"

fun to_redis_param :: "filter_param \<Rightarrow> redis_param" where
  "to_redis_param (Str_Param s) = Param_Str s"
| "to_redis_param (Int_Param i) = Param_Num (Finite (rnd64 (of_int i)))"
| "to_redis_param (Float_Param f) = Param_Num f"

definition check_hybrid_filter :: "predicate \<Rightarrow> parsed_filter \<Rightarrow> filter_refusal + unit" where
  "check_hybrid_filter p f = (case f of (expr, ps) \<Rightarrow>
     check_redis_filter p expr (map_of (map (\<lambda>(k, v). (k, to_redis_param v)) ps)))"


section \<open>Fuel\<close>

lemma length_ws: "length (ws s) \<le> length s"
  by (simp add: ws_def length_dropWhile_le)

lemma parse_leaf_shorter: "parse_leaf s = Inr (n, r) \<Longrightarrow> length r < length s"
proof -
  assume *: "parse_leaf s = Inr (n, r)"
  define r0 where "r0 = dropWhile (\<lambda>c. c \<noteq> CHR '':'') s"
  from * obtain c b close x where "drop 1 r0 = c # b" "dropWhile (\<lambda>x. x \<noteq> close) b = x # r"
    by (auto simp: parse_leaf_def Let_def r0_def split: list.splits option.splits)
  then have "length r < length b" "length b < length r0"
    using length_dropWhile_le [of "\<lambda>x. x \<noteq> close" b] by (simp, cases r0) simp_all
  moreover have "length r0 \<le> length s" by (simp add: r0_def length_dropWhile_le)
  ultimately show ?thesis by simp
qed

lemma parse_leaf_fuel: "parse_leaf s \<noteq> Inl Out_Of_Fuel"
proof -
  have p: "param_of f t \<noteq> Inl Out_Of_Fuel" for f t by (simp add: param_of_def split: option.splits)
  have r: "range_side f t e \<noteq> Inl Out_Of_Fuel" for f t e
    by (simp add: range_side_def p rbind_Inl_iff split: option.splits)
  have "leaf_node c f b \<noteq> Inl Out_Of_Fuel" for c f b
    using traverse_InlD [of "\<lambda>t. param_of f (trim t)" "split_on CHR ''|'' b"] p
    by (auto simp: leaf_node_def rbind_Inl_iff r split: list.splits)
  then show ?thesis by (auto simp: parse_leaf_def Let_def rbind_Inl_iff split: list.splits option.splits)
qed

lemma parse_shorter:
  "alternatives n alts s = Inr (m, r) \<Longrightarrow> length r \<le> length s"
  "sequence n units s = Inr (m, r) \<Longrightarrow> length r \<le> length s"
  "unit_node n s = Inr (m, r) \<Longrightarrow> s \<noteq> [] \<Longrightarrow> length r < length s"
proof (induction n alts s and n units s and n s arbitrary: m r and m r and m r
    rule: alternatives_sequence_unit_node.induct)
  case (2 n alts s)
  from "2.prems" obtain a r' where a: "sequence n [] s = Inr (a, r')"
    and k: "(if ws r' \<noteq> [] \<and> hd (ws r') = CHR ''|'' then alternatives n (alts @ [a]) (tl (ws r'))
       else Inr (group_of R_Or (alts @ [a]), ws r')) = Inr (m, r)" by auto
  have "length r' \<le> length s" using "2.IH"(1) [OF a] .
  moreover have "length r \<le> length r'"
  proof (cases "ws r' \<noteq> [] \<and> hd (ws r') = CHR ''|''")
    case True
    with k have "alternatives n (alts @ [a]) (tl (ws r')) = Inr (m, r)" by simp
    from "2.IH"(2) [OF True this] show ?thesis using length_ws [of r'] by simp
  qed (use k length_ws [of r'] in auto)
  ultimately show ?case by simp
next
  case (4 n units s)
  show ?case
  proof (cases "ws s \<noteq> [] \<and> (hd (ws s) = CHR ''('' \<or> hd (ws s) = CHR ''@'')")
    case True
    with "4.prems" obtain u r' where u: "unit_node n (ws s) = Inr (u, r')" "sequence n (units @ [u]) r' = Inr (m, r)"
      by auto
    have "length r' < length (ws s)" using "4.IH"(1) [OF refl True u(1)] True by simp
    moreover have "length r \<le> length r'" using "4.IH"(2) [OF refl True u(2)] by simp
    ultimately show ?thesis using length_ws [of s] by simp
  next
    case False
    with "4.prems" have "r = ws s" by (auto simp: Let_def split: if_splits)
    then show ?thesis using length_ws by simp
  qed
next
  case (6 n s)
  show ?case
  proof (cases "hd s = CHR ''(''")
    case True
    with "6.prems" obtain r' where a: "alternatives n [] (tl s) = Inr (m, r')" and r: "r = tl (ws r')"
      by (auto split: if_splits)
    have "length r' \<le> length (tl s)" using "6.IH" [OF True a] .
    then show ?thesis using r length_ws [of r'] "6.prems"(2) by (cases s) auto
  next
    case False
    with "6.prems" parse_leaf_shorter [of "tl s" m r] show ?thesis by (cases s) auto
  qed
qed simp_all


lemma enough_fuel:
  "3 * length s + 3 \<le> n \<Longrightarrow> alternatives n alts s \<noteq> Inl Out_Of_Fuel"
  "3 * length s + 2 \<le> n \<Longrightarrow> sequence n units s \<noteq> Inl Out_Of_Fuel"
  "3 * length s + 1 \<le> n \<Longrightarrow> s \<noteq> [] \<Longrightarrow> unit_node n s \<noteq> Inl Out_Of_Fuel"
proof (induction n arbitrary: alts units s)
  case (Suc n)
  {
    case 1
    have "sequence n [] s \<noteq> Inl Out_Of_Fuel" using Suc.IH(2) [of s "[]"] 1 by simp
    moreover have "alternatives n as (tl (ws r)) \<noteq> Inl Out_Of_Fuel"
      if "sequence n [] s = Inr (a, r)" "ws r \<noteq> []" for as a r
    proof -
      have "length (tl (ws r)) < length s"
        using parse_shorter(2) [OF that(1)] length_ws [of r] that(2) by (cases "ws r") auto
      with 1 show ?thesis by (intro Suc.IH(1)) simp
    qed
    ultimately show ?case by (auto simp: rbind_Inl_iff)
  next
    case 2
    have u: "unit_node n (ws s) \<noteq> Inl Out_Of_Fuel" if "ws s \<noteq> []"
      using Suc.IH(3) [of "ws s"] 2 length_ws [of s] that by simp
    moreover have "sequence n us r \<noteq> Inl Out_Of_Fuel" if "unit_node n (ws s) = Inr (x, r)" "ws s \<noteq> []" for us x r
    proof -
      have "length r < length s" using parse_shorter(3) [OF that] length_ws [of s] by simp
      with 2 show ?thesis by (intro Suc.IH(2)) simp
    qed
    ultimately show ?case by (auto simp: rbind_Inl_iff Let_def)
  next
    case 3
    have "alternatives n [] (tl s) \<noteq> Inl Out_Of_Fuel"
      using Suc.IH(1) [of "tl s" "[]"] 3 by (cases s) auto
    then show ?case using parse_leaf_fuel by (auto simp: rbind_Inl_iff)
  }
qed simp_all

lemma parse_has_fuel: "parse_redis_filter expr \<noteq> Inl Out_Of_Fuel"
  using enough_fuel(1) [of expr "3 * length expr + 3" "[]"] by (auto simp: parse_redis_filter_def rbind_Inl_iff)

lemma more_fuel:
  "alternatives n alts s \<noteq> Inl Out_Of_Fuel \<Longrightarrow> alternatives (Suc n) alts s = alternatives n alts s"
  "sequence n units s \<noteq> Inl Out_Of_Fuel \<Longrightarrow> sequence (Suc n) units s = sequence n units s"
  "unit_node n s \<noteq> Inl Out_Of_Fuel \<Longrightarrow> unit_node (Suc n) s = unit_node n s"
proof (induction n arbitrary: alts units s)
  case (Suc n)
  {
    case 1
    then have "sequence n [] s \<noteq> Inl Out_Of_Fuel" by auto
    then have "sequence (Suc n) [] s = sequence n [] s" by (rule Suc.IH(2))
    moreover have "alternatives (Suc n) (alts @ [a]) (tl (ws r)) = alternatives n (alts @ [a]) (tl (ws r))"
      if "sequence n [] s = Inr (a, r)" "ws r \<noteq> []" "hd (ws r) = CHR ''|''" for a r
      using that 1 by (intro Suc.IH(1)) simp
    ultimately show ?case
      by (subst (1 2) alternatives.simps) (cases "sequence n [] s", auto simp del: alternatives.simps sequence.simps)
  next
    case 2
    show ?case
    proof (cases "ws s \<noteq> [] \<and> (hd (ws s) = CHR ''('' \<or> hd (ws s) = CHR ''@'')")
      case True
      with 2 have "unit_node n (ws s) \<noteq> Inl Out_Of_Fuel" by auto
      then have "unit_node (Suc n) (ws s) = unit_node n (ws s)" by (rule Suc.IH(3))
      moreover have "sequence (Suc n) (units @ [u]) r = sequence n (units @ [u]) r" if "unit_node n (ws s) = Inr (u, r)" for u r
        using that 2 True by (intro Suc.IH(2)) (simp add: Let_def)
      ultimately show ?thesis using True
        by (subst (1 2) sequence.simps) (cases "unit_node n (ws s)", auto simp: Let_def simp del: sequence.simps unit_node.simps)
    qed (subst (1 2) sequence.simps, auto simp: Let_def simp del: sequence.simps unit_node.simps)
  next
    case 3
    then show ?case
    proof (cases "hd s = CHR ''(''")
      case True
      with 3 have "alternatives n [] (tl s) \<noteq> Inl Out_Of_Fuel" by auto
      then have "alternatives (Suc n) [] (tl s) = alternatives n [] (tl s)" by (rule Suc.IH(1))
      with True show ?thesis by (subst (1 2) unit_node.simps) simp
    qed simp
  }
qed simp_all


lemma fuel_mono:
  "n \<le> k \<Longrightarrow> alternatives n alts s = Inr x \<Longrightarrow> alternatives k alts s = Inr x"
  "n \<le> k \<Longrightarrow> sequence n units s = Inr x \<Longrightarrow> sequence k units s = Inr x"
  "n \<le> k \<Longrightarrow> unit_node n s = Inr x \<Longrightarrow> unit_node k s = Inr x"
proof -
  show "n \<le> k \<Longrightarrow> alternatives n alts s = Inr x \<Longrightarrow> alternatives k alts s = Inr x"
    by (induction k rule: dec_induct) (simp_all add: more_fuel del: alternatives.simps)
  show "n \<le> k \<Longrightarrow> sequence n units s = Inr x \<Longrightarrow> sequence k units s = Inr x"
    by (induction k rule: dec_induct) (simp_all add: more_fuel del: sequence.simps)
  show "n \<le> k \<Longrightarrow> unit_node n s = Inr x \<Longrightarrow> unit_node k s = Inr x"
    by (induction k rule: dec_induct) (simp_all add: more_fuel del: unit_node.simps)
qed

text \<open>The grammar, without the fuel.\<close>

definition alts_to :: "rnode list \<Rightarrow> string \<Rightarrow> rnode \<times> string \<Rightarrow> bool" where
  "alts_to alts s x \<longleftrightarrow> (\<exists>n. alternatives n alts s = Inr x)"

definition seq_to :: "rnode list \<Rightarrow> string \<Rightarrow> rnode \<times> string \<Rightarrow> bool" where
  "seq_to units s x \<longleftrightarrow> (\<exists>n. sequence n units s = Inr x)"

definition unit_to :: "string \<Rightarrow> rnode \<times> string \<Rightarrow> bool" where
  "unit_to s x \<longleftrightarrow> (\<exists>n. unit_node n s = Inr x)"

lemma seq_to_unit:
  assumes "unit_to (ws s) (u, r)" and "hd (ws s) = CHR ''('' \<or> hd (ws s) = CHR ''@''" and "ws s \<noteq> []"
    and "seq_to (us @ [u]) r x"
  shows "seq_to us s x"
proof -
  obtain n m where "unit_node n (ws s) = Inr (u, r)" "sequence m (us @ [u]) r = Inr x"
    using assms by (auto simp: unit_to_def seq_to_def)
  then have "unit_node (max n m) (ws s) = Inr (u, r)" "sequence (max n m) (us @ [u]) r = Inr x"
    by (simp_all only: fuel_mono [OF max.cobounded1] fuel_mono [OF max.cobounded2])
  then have "sequence (Suc (max n m)) us s = Inr x" using assms(2,3) by (simp add: Let_def)
  then show ?thesis unfolding seq_to_def by blast
qed

lemma seq_to_end:
  "us \<noteq> [] \<Longrightarrow> ws s = [] \<or> hd (ws s) = CHR ''|'' \<or> hd (ws s) = CHR '')'' \<Longrightarrow> seq_to us s (group_of R_And us, ws s)"
  unfolding seq_to_def by (rule exI [of _ 1]) (auto simp: Let_def)

lemma alts_to_end:
  assumes "seq_to [] s (a, r)" and "ws r = [] \<or> hd (ws r) \<noteq> CHR ''|''"
  shows "alts_to alts s (group_of R_Or (alts @ [a]), ws r)"
proof -
  obtain n where "sequence n [] s = Inr (a, r)" using assms(1) by (auto simp: seq_to_def)
  then have "alternatives (Suc n) alts s = Inr (group_of R_Or (alts @ [a]), ws r)" using assms(2) by auto
  then show ?thesis unfolding alts_to_def by blast
qed

lemma alts_to_bar:
  assumes "seq_to [] s (a, r)" and "ws r = CHR ''|'' # r'" and "alts_to (alts @ [a]) r' x"
  shows "alts_to alts s x"
proof -
  obtain n m where "sequence n [] s = Inr (a, r)" "alternatives m (alts @ [a]) r' = Inr x"
    using assms by (auto simp: seq_to_def alts_to_def)
  then have "sequence (max n m) [] s = Inr (a, r)" "alternatives (max n m) (alts @ [a]) r' = Inr x"
    by (simp_all only: fuel_mono [OF max.cobounded1] fuel_mono [OF max.cobounded2])
  then have "alternatives (Suc (max n m)) alts s = Inr x" using assms(2) by simp
  then show ?thesis unfolding alts_to_def by blast
qed

lemma unit_to_group:
  assumes "alts_to [] s (a, r)" and "ws r = CHR '')'' # r'"
  shows "unit_to (CHR ''('' # s) (a, r')"
proof -
  obtain n where "alternatives n [] s = Inr (a, r)" using assms(1) by (auto simp: alts_to_def)
  then have "unit_node (Suc n) (CHR ''('' # s) = Inr (a, r')" using assms(2) by simp
  then show ?thesis unfolding unit_to_def by blast
qed

lemma unit_to_leaf: "parse_leaf s = Inr x \<Longrightarrow> unit_to (CHR ''@'' # s) x"
  unfolding unit_to_def by (rule exI [of _ 1]) simp

lemma parse_redis_filter_eq:
  assumes "alts_to [] s (a, r)" and "ws r = []"
  shows "parse_redis_filter s = Inr a"
proof -
  let ?N = "3 * length s + 3"
  obtain n where "alternatives n [] s = Inr (a, r)" using assms(1) by (auto simp: alts_to_def)
  then have "alternatives (max n ?N) [] s = Inr (a, r)" by (rule fuel_mono [OF max.cobounded1])
  moreover have "alternatives k [] s = alternatives ?N [] s" if "?N \<le> k" for k
    using that
  proof (induction k rule: dec_induct)
    case (step k)
    then show ?case using more_fuel(1) [of k "[]" s] enough_fuel(1) [of s k "[]"] by (simp del: alternatives.simps)
  qed (simp del: alternatives.simps)
  ultimately have "alternatives ?N [] s = Inr (a, r)" by (metis max.cobounded2)
  then show ?thesis using assms(2) by (simp add: parse_redis_filter_def)
qed


section \<open>Reading back what was printed\<close>

definition clean_name :: "string \<Rightarrow> bool" where
  "clean_name s \<longleftrightarrow> s \<noteq> [] \<and> list_all (\<lambda>c. is_alnum c \<or> c = CHR ''_'') s"

fun clean_end :: "range_end \<Rightarrow> bool" where
  "clean_end Unbounded \<longleftrightarrow> True"
| "clean_end (Inclusive p) \<longleftrightarrow> clean_name p"
| "clean_end (Exclusive p) \<longleftrightarrow> clean_name p"

text \<open>The expressions of the parser's grammar: no negation, no geo clause, names of letters, digits and underscores.\<close>

fun readable :: "ft_query \<Rightarrow> bool" where
  "readable (Tag_In f ps) \<longleftrightarrow> clean_name f \<and> ps \<noteq> [] \<and> list_all clean_name ps"
| "readable (Interval f lo hi) \<longleftrightarrow> clean_name f \<and> clean_end lo \<and> clean_end hi"
| "readable (Text_Match f p) \<longleftrightarrow> clean_name f \<and> clean_name p"
| "readable (Seq qs) \<longleftrightarrow> qs \<noteq> [] \<and> (\<forall>q \<in> set qs. readable q \<and> \<not> is_alt q)"
| "readable (Alt qs) \<longleftrightarrow> qs \<noteq> [] \<and> (\<forall>q \<in> set qs. readable q \<and> \<not> is_alt q)"
| "readable (Paren q) \<longleftrightarrow> readable q"
| "readable _ \<longleftrightarrow> False"

fun end_side :: "range_end \<Rightarrow> (string \<times> bool) option" where
  "end_side Unbounded = None"
| "end_side (Inclusive p) = Some (p, False)"
| "end_side (Exclusive p) = Some (p, True)"

text \<open>The units an expression adds to the sequence it stands in.\<close>

fun units_of :: "ft_query \<Rightarrow> rnode list" where
  "units_of (Tag_In f ps) = [R_Tag f ps]"
| "units_of (Interval f lo hi) = [R_Range f (end_side lo) (end_side hi)]"
| "units_of (Text_Match f p) = [R_Text f p]"
| "units_of (Seq qs) = concat (map units_of qs)"
| "units_of (Alt qs) = [group_of R_Or (map (\<lambda>q. group_of R_And (units_of q)) qs)]"
| "units_of (Paren q) = [group_of R_And (units_of q)]"
| "units_of _ = []"

definition node_of :: "ft_query \<Rightarrow> rnode" where
  "node_of q = group_of R_And (units_of q)"

lemma group_of_single [simp]: "group_of g [n] = n"
  by (simp add: group_of_def)

lemma clean_char:
  assumes "clean_name s" and "c \<in> set s"
  shows "visible c" "byte c < 128" "c \<notin> set '' $|:()[]{}-+''"
proof -
  have "is_alnum c \<or> c = CHR ''_''" using assms by (auto simp: clean_name_def list_all_iff)
  then show "visible c" "byte c < 128" "c \<notin> set '' $|:()[]{}-+''"
    by (auto simp: is_alnum_def is_digit_def is_lower_def is_upper_def visible_def byte_def)
qed


lemma clean_notin: "clean_name s \<Longrightarrow> c \<in> set '' $|:()[]{}-+'' \<Longrightarrow> c \<notin> set s"
  using clean_char(3) by blast

lemma clean_facts:
  assumes "clean_name s"
  shows "s \<noteq> []" "visible (hd s)" "visible (last s)" "from_utf8_lossy s = s"
    "CHR '' '' \<notin> set s" "CHR ''$'' \<notin> set s" "CHR ''|'' \<notin> set s" "CHR '':'' \<notin> set s" "CHR ''('' \<notin> set s" "CHR '')'' \<notin> set s"
    "CHR ''['' \<notin> set s" "CHR '']'' \<notin> set s" "CHR ''{'' \<notin> set s" "CHR ''}'' \<notin> set s" "CHR ''-'' \<notin> set s" "CHR ''+'' \<notin> set s"
proof -
  show s: "s \<noteq> []" using assms by (simp add: clean_name_def)
  then show "visible (hd s)" "visible (last s)" using clean_char(1) [OF assms] by simp_all
  show "from_utf8_lossy s = s"
    using clean_char(2) [OF assms] by (intro from_utf8_lossy_valid valid_utf8_ascii) (simp add: list_all_iff)
qed (rule clean_notin [OF assms], simp)+

lemma ascii_lossy: "\<forall>c \<in> set s. byte c < 128 \<Longrightarrow> from_utf8_lossy s = s"
  by (intro from_utf8_lossy_valid valid_utf8_ascii) (simp add: list_all_iff)

lemma takeWhile_until: "c \<notin> set s \<Longrightarrow> takeWhile (\<lambda>x. x \<noteq> c) (s @ c # r) = s"
  by (induction s) auto

lemma dropWhile_until: "c \<notin> set s \<Longrightarrow> dropWhile (\<lambda>x. x \<noteq> c) (s @ c # r) = c # r"
  by (induction s) auto

lemma parse_leaf_printed:
  assumes "clean_name f" and "closing opening = Some close" and "close \<notin> set body" and "\<forall>c \<in> set body. byte c < 128"
  shows "parse_leaf (f @ CHR '':'' # opening # body @ close # rest) = rbind (leaf_node opening f body) (\<lambda>n. Inr (n, rest))"
  using assms clean_facts [OF assms(1)] by (simp add: parse_leaf_def takeWhile_until dropWhile_until ascii_lossy)

lemma param_of_clean: "clean_name p \<Longrightarrow> param_of f (CHR ''$'' # p) = Inr p"
  using clean_facts [of p] by (simp add: param_of_def strip_prefix_def)

lemma trim_param:
  assumes "clean_name p"
  shows "trim (CHR ''$'' # p) = CHR ''$'' # p" "trim (CHR ''$'' # p @ '' '') = CHR ''$'' # p"
    "trim ('' $'' @ p) = CHR ''$'' # p" "trim ('' $'' @ p @ '' '') = CHR ''$'' # p"
  using trim_visible [of "CHR ''$'' # p"] clean_facts [OF assms] by (simp_all add: visible_def byte_def)

lemma range_side_clean:
  assumes "clean_end e" and "open_end = ''-inf'' \<or> open_end = ''+inf''"
  shows "range_side f (show_end open_end e) open_end = Inr (end_side e)"
  using assms by (cases e) (auto simp: range_side_def param_of_clean strip_prefix_def)

lemma show_end_facts:
  assumes "clean_end e" and "open_end = ''-inf'' \<or> open_end = ''+inf''"
  shows "show_end open_end e \<noteq> []" "CHR '' '' \<notin> set (show_end open_end e)" "CHR '']'' \<notin> set (show_end open_end e)"
    "\<forall>c \<in> set (show_end open_end e). byte c < 128"
  using assms clean_facts clean_char(2) by (cases e; auto simp: byte_def)+

lemma read_interval:
  assumes "clean_name f" "clean_end lo" "clean_end hi"
  shows "unit_to (show_query (Interval f lo hi) @ rest) (R_Range f (end_side lo) (end_side hi), rest)"
proof -
  let ?lo = "show_end ''-inf'' lo" and ?hi = "show_end ''+inf'' hi"
  note l = show_end_facts [OF assms(2), of "''-inf''", simplified] and h = show_end_facts [OF assms(3), of "''+inf''", simplified]
  have "split_on CHR '' '' (?lo @ '' '' @ ?hi) = [?lo, ?hi]"
    using l h by (simp add: split_on_append split_on_no_sep)
  then have "leaf_node CHR ''['' f (?lo @ '' '' @ ?hi) = Inr (R_Range f (end_side lo) (end_side hi))"
    using l h assms by (simp add: leaf_node_def range_side_clean)
  moreover have "parse_leaf (f @ CHR '':'' # CHR ''['' # (?lo @ '' '' @ ?hi) @ CHR '']'' # rest) =
      rbind (leaf_node CHR ''['' f (?lo @ '' '' @ ?hi)) (\<lambda>n. Inr (n, rest))"
    using l h assms by (intro parse_leaf_printed) (auto simp: closing_def byte_def)
  ultimately have "parse_leaf (f @ CHR '':'' # CHR ''['' # (?lo @ '' '' @ ?hi) @ CHR '']'' # rest) =
      Inr (R_Range f (end_side lo) (end_side hi), rest)" by simp
  from unit_to_leaf [OF this] show ?thesis by simp
qed

lemma read_text:
  assumes "clean_name f" "clean_name p"
  shows "unit_to (show_query (Text_Match f p) @ rest) (R_Text f p, rest)"
proof -
  have "leaf_node CHR ''('' f (''$'' @ p) = Inr (R_Text f p)"
    using assms by (simp add: leaf_node_def trim_param param_of_clean)
  moreover have "parse_leaf (f @ CHR '':'' # CHR ''('' # (''$'' @ p) @ CHR '')'' # rest) =
      rbind (leaf_node CHR ''('' f (''$'' @ p)) (\<lambda>n. Inr (n, rest))"
    using assms clean_facts [OF assms(2)] clean_char(2) [OF assms(2)]
    by (intro parse_leaf_printed) (auto simp: closing_def byte_def)
  ultimately have "parse_leaf (f @ CHR '':'' # CHR ''('' # (''$'' @ p) @ CHR '')'' # rest) = Inr (R_Text f p, rest)" by simp
  from unit_to_leaf [OF this] show ?thesis by (simp add: text_clause_def)
qed

lemma split_tags:
  assumes "list_all clean_name ps" and "ps \<noteq> []"
  shows "traverse (\<lambda>t. param_of f (trim t)) (split_on CHR ''|'' (join_with '' | '' (map (\<lambda>p. ''$'' @ p) ps))) = Inr ps"
    and "traverse (\<lambda>t. param_of f (trim t)) (split_on CHR ''|'' ('' '' @ join_with '' | '' (map (\<lambda>p. ''$'' @ p) ps))) = Inr ps"
  using assms
proof (induction ps rule: induct_list012)
  case (2 p)
  {
    case 1
    then show ?case using clean_facts [of p] by (simp add: split_on_no_sep trim_param param_of_clean)
  next
    case 2
    then show ?case using clean_facts [of p] by (simp add: split_on_no_sep trim_param [simplified] param_of_clean)
  }
next
  case (3 p q ps)
  let ?r = "join_with '' | '' (map (\<lambda>p. ''$'' @ p) (q # ps))"
  {
    case 1
    have "split_on CHR ''|'' ((CHR ''$'' # p @ '' '') @ CHR ''|'' # ('' '' @ ?r)) = (CHR ''$'' # p @ '' '') # split_on CHR ''|'' ('' '' @ ?r)"
      using 1 clean_facts [of p] by (intro split_on_append) auto
    then show ?case using 3 1 by (simp add: trim_param param_of_clean)
  next
    case 2
    have "split_on CHR ''|'' (('' $'' @ p @ '' '') @ CHR ''|'' # ('' '' @ ?r)) = ('' $'' @ p @ '' '') # split_on CHR ''|'' ('' '' @ ?r)"
      using 2 clean_facts [of p] by (intro split_on_append) auto
    then show ?case using 3 2 by (simp add: trim_param [simplified] param_of_clean)
  }
qed simp_all


lemma join_params_chars:
  "list_all clean_name ps \<Longrightarrow> c \<in> set (join_with '' | '' (map (\<lambda>p. ''$'' @ p) ps)) \<Longrightarrow> byte c < 128 \<and> c \<noteq> CHR ''}''"
proof (induction ps rule: induct_list012)
  case (2 p)
  then show ?case using clean_char(2) [of p c] clean_facts [of p] by (auto simp: byte_def)
next
  case (3 p q ps)
  then show ?case using clean_char(2) [of p c] clean_facts [of p] by (auto simp: byte_def)
qed simp

lemma read_tag:
  assumes "clean_name f" "list_all clean_name ps" "ps \<noteq> []"
  shows "unit_to (show_query (Tag_In f ps) @ rest) (R_Tag f ps, rest)"
proof -
  let ?body = "join_with '' | '' (map (\<lambda>p. ''$'' @ p) ps)"
  have "leaf_node CHR ''{'' f ?body = Inr (R_Tag f ps)"
    using split_tags(1) [OF assms(2,3)] by (simp add: leaf_node_def)
  moreover have "parse_leaf (f @ CHR '':'' # CHR ''{'' # ?body @ CHR ''}'' # rest) =
      rbind (leaf_node CHR ''{'' f ?body) (\<lambda>n. Inr (n, rest))"
    using assms(1) join_params_chars [OF assms(2)] by (intro parse_leaf_printed) (auto simp: closing_def)
  ultimately have "parse_leaf (f @ CHR '':'' # CHR ''{'' # ?body @ CHR ''}'' # rest) = Inr (R_Tag f ps, rest)" by simp
  from unit_to_leaf [OF this] show ?thesis by (simp add: tag_clause_def)
qed

lemma ws_simps [simp]: "ws (CHR '' '' # s) = ws s" "ws [] = []" "c \<noteq> CHR '' '' \<Longrightarrow> ws (c # s) = c # s" "ws (ws s) = ws s"
  by (simp_all add: ws_def dropWhile_idem)

lemma seq_to_space: "seq_to us s x \<Longrightarrow> seq_to us (CHR '' '' # s) x"
proof -
  have "sequence n us (CHR '' '' # s) = sequence n us s" for n by (cases n) simp_all
  then show "seq_to us s x \<Longrightarrow> ?thesis" by (simp add: seq_to_def)
qed

lemma seq_to_single:
  assumes "unit_to (c # s) (u, r)" and "c = CHR ''('' \<or> c = CHR ''@''" and "seq_to (us @ [u]) r x"
  shows "seq_to us (c # s) x"
  using assms seq_to_unit [of "c # s" u r us x] by auto

lemma units_of_not_Nil: "readable q \<Longrightarrow> units_of q \<noteq> []"
  by (induction q) auto

text \<open>A sequence, after the units \<open>us\<close> were read.\<close>

definition reads_seq :: "ft_query \<Rightarrow> bool" where
  "reads_seq q \<longleftrightarrow> (\<forall>us rest x. seq_to (us @ units_of q) rest x \<longrightarrow> seq_to us (show_query q @ rest) x)"

definition reads_alts :: "ft_query \<Rightarrow> bool" where
  "reads_alts q \<longleftrightarrow> (\<forall>rest. rest = [] \<or> hd rest = CHR '')'' \<longrightarrow> alts_to [] (show_query q @ rest) (node_of q, rest))"

lemma reads_seq_leaf:
  assumes "\<And>rest. unit_to (show_query q @ rest) (u, rest)" and "units_of q = [u]" and "\<exists>s. show_query q = CHR ''@'' # s"
  shows "reads_seq q"
  unfolding reads_seq_def
proof (intro allI impI)
  fix us rest x assume "seq_to (us @ units_of q) rest x"
  moreover obtain s where "show_query q = CHR ''@'' # s" using assms(3) by blast
  ultimately show "seq_to us (show_query q @ rest) x" using assms(1) [of rest] assms(2) by (auto intro: seq_to_single)
qed

lemma reads_seq_list:
  assumes "\<And>q. q \<in> set qs \<Longrightarrow> reads_seq q" and "qs \<noteq> []" and "seq_to (us @ concat (map units_of qs)) rest x"
  shows "seq_to us (join_with '' '' (map show_query qs) @ rest) x"
  using assms
proof (induction qs arbitrary: us rule: induct_list012)
  case (2 q)
  then have "reads_seq q" by simp
  with "2.prems"(3) show ?case by (cases x) (simp add: reads_seq_def)
next
  case (3 q q' qs)
  from "3.IH"(2) [of "us @ units_of q"] "3.prems"
  have "seq_to (us @ units_of q) (join_with '' '' (map show_query (q' # qs)) @ rest) x" by simp
  from seq_to_space [OF this] show ?case using "3.prems"(1) [of q] by (cases x) (simp add: reads_seq_def)
qed simp

lemma reads_node:
  assumes "reads_seq q" and "readable q" and "ws rest = [] \<or> hd (ws rest) = CHR ''|'' \<or> hd (ws rest) = CHR '')''"
  shows "seq_to [] (show_query q @ rest) (node_of q, ws rest)"
  using assms seq_to_end [OF units_of_not_Nil [OF assms(2)] assms(3)] by (auto simp: reads_seq_def node_of_def)

lemma reads_seq_alts:
  assumes "reads_seq q" and "readable q"
  shows "reads_alts q"
  unfolding reads_alts_def
proof (intro allI impI)
  fix rest :: string assume r: "rest = [] \<or> hd rest = CHR '')''"
  then have w: "ws rest = rest" by (cases rest) auto
  have "seq_to [] (show_query q @ rest) (node_of q, ws rest)" using reads_node [OF assms, of rest] r w by auto
  from alts_to_end [OF this, of "[]"] show "alts_to [] (show_query q @ rest) (node_of q, rest)" using r w by auto
qed

lemma alts_to_space: "alts_to as t x \<Longrightarrow> alts_to as (CHR '' '' # t) x"
proof -
  have "sequence n [] (CHR '' '' # t) = sequence n [] t" for n by (cases n) simp_all
  then have "alternatives n as (CHR '' '' # t) = alternatives n as t" for n by (cases n) simp_all
  then show "alts_to as t x \<Longrightarrow> ?thesis" by (simp add: alts_to_def)
qed

lemma reads_alt_list:
  assumes "\<And>q. q \<in> set qs \<Longrightarrow> reads_seq q \<and> readable q" and "qs \<noteq> []" and "rest = [] \<or> hd rest = CHR '')''"
  shows "alts_to as (join_with '' | '' (map show_query qs) @ rest) (group_of R_Or (as @ map node_of qs), rest)"
  using assms
proof (induction qs arbitrary: as rule: induct_list012)
  case (2 q)
  then have w: "ws rest = rest" by (cases rest) auto
  have "seq_to [] (show_query q @ rest) (node_of q, ws rest)" using 2 w by (intro reads_node) auto
  from alts_to_end [OF this, of as] show ?case using w 2 by auto
next
  case (3 q q' qs)
  let ?tail = "join_with '' | '' (map show_query (q' # qs)) @ rest" and ?x = "(group_of R_Or (as @ map node_of (q # q' # qs)), rest)"
  have "alts_to (as @ [node_of q]) ?tail (group_of R_Or ((as @ [node_of q]) @ map node_of (q' # qs)), rest)"
    using "3.prems" by (intro "3.IH"(2)) auto
  then have "alts_to (as @ [node_of q]) (CHR '' '' # ?tail) ?x" by (simp add: alts_to_space)
  moreover have "seq_to [] (show_query q @ '' | '' @ ?tail) (node_of q, ws ('' | '' @ ?tail))"
    using "3.prems"(1) [of q] by (intro reads_node) simp_all
  ultimately have "alts_to as (show_query q @ '' | '' @ ?tail) ?x" using alts_to_bar by simp
  then show ?case by simp
qed simp

lemma readable_reads: "readable q \<Longrightarrow> (\<not> is_alt q \<longrightarrow> reads_seq q) \<and> reads_alts q"
proof (induction q)
  case (Tag_In f ps)
  then have "reads_seq (Tag_In f ps)" using read_tag by (intro reads_seq_leaf) (auto simp: tag_clause_def)
  with Tag_In show ?case using reads_seq_alts by blast
next
  case (Interval f lo hi)
  then have "reads_seq (Interval f lo hi)" using read_interval by (intro reads_seq_leaf) (auto simp del: show_end.simps)
  with Interval show ?case using reads_seq_alts by blast
next
  case (Text_Match f p)
  then have "reads_seq (Text_Match f p)" using read_text by (intro reads_seq_leaf) (auto simp: text_clause_def)
  with Text_Match show ?case using reads_seq_alts by blast
next
  case (Seq qs)
  then have "reads_seq (Seq qs)" by (auto simp: reads_seq_def [of "Seq qs"] intro!: reads_seq_list)
  with Seq.prems show ?case using reads_seq_alts by blast
next
  case (Alt qs)
  then have "reads_alts (Alt qs)"
    using reads_alt_list [of qs _ "[]"] by (auto simp: reads_alts_def node_of_def [abs_def])
  then show ?case by simp
next
  case (Paren q)
  have "reads_seq (Paren q)"
    unfolding reads_seq_def
  proof (intro allI impI)
    fix us rest x assume *: "seq_to (us @ units_of (Paren q)) rest x"
    have "alts_to [] (show_query q @ CHR '')'' # rest) (node_of q, CHR '')'' # rest)"
      using Paren by (auto simp: reads_alts_def)
    then have "unit_to (CHR ''('' # show_query q @ CHR '')'' # rest) (node_of q, rest)" by (rule unit_to_group) simp
    with * show "seq_to us (show_query (Paren q) @ rest) x"
      using seq_to_single by (auto simp: node_of_def)
  qed
  with Paren.prems show ?case using reads_seq_alts by blast
qed auto

lemma parse_show: "readable q \<Longrightarrow> parse_redis_filter (show_query q) = Inr (node_of q)"
  using readable_reads [of q] parse_redis_filter_eq [of "show_query q" "node_of q" "[]"] by (auto simp: reads_alts_def)


section \<open>Meaning\<close>

fun side_end :: "(string \<times> bool) option \<Rightarrow> range_end" where
  "side_end None = Unbounded"
| "side_end (Some (p, x)) = (if x then Exclusive p else Inclusive p)"

fun node_holds :: "'d search_semantics \<Rightarrow> bindings \<Rightarrow> 'd \<Rightarrow> rnode \<Rightarrow> bool" where
  "node_holds S M d (R_And ns) \<longleftrightarrow> (\<forall>n \<in> set ns. node_holds S M d n)"
| "node_holds S M d (R_Or ns) \<longleftrightarrow> (\<exists>n \<in> set ns. node_holds S M d n)"
| "node_holds S M d (R_Range f lo hi) \<longleftrightarrow> eval_query S M d (Interval f (side_end lo) (side_end hi))"
| "node_holds S M d (R_Tag f ps) \<longleftrightarrow> eval_query S M d (Tag_In f ps)"
| "node_holds S M d (R_Text f p) \<longleftrightarrow> eval_query S M d (Text_Match f p)"

lemma node_holds_group [simp]:
  "node_holds S M d (group_of R_And ns) \<longleftrightarrow> (\<forall>n \<in> set ns. node_holds S M d n)"
  "node_holds S M d (group_of R_Or ns) \<longleftrightarrow> (\<exists>n \<in> set ns. node_holds S M d n)"
  by (auto simp: group_of_def split: list.splits)

lemma side_end_side [simp]: "side_end (end_side e) = e"
  by (cases e) simp_all

lemma units_hold: "readable q \<Longrightarrow> (\<forall>n \<in> set (units_of q). node_holds S M d n) \<longleftrightarrow> eval_query S M d q"
  by (induction q) auto

lemma node_of_holds: "readable q \<Longrightarrow> node_holds S M d (node_of q) \<longleftrightarrow> eval_query S M d q"
  by (simp add: node_of_def units_hold)

lemma flatten_node_groups:
  "flatten_node (R_And cs) = (case cs of [c] \<Rightarrow> flatten_node c
     | _ \<Rightarrow> R_And (concat (map (\<lambda>k. and_nodes (flatten_node k)) cs)))"
  "flatten_node (R_Or cs) = (case cs of [c] \<Rightarrow> flatten_node c
     | _ \<Rightarrow> R_Or (concat (map (\<lambda>k. or_nodes (flatten_node k)) cs)))"
  by (auto split: list.splits)

lemma flatten_predicate_groups:
  "flatten_predicate (And cs) = (case cs of [c] \<Rightarrow> flatten_predicate c
     | _ \<Rightarrow> And (concat (map (\<lambda>k. and_entries (flatten_predicate k)) cs)))"
  "flatten_predicate (Or cs) = (case cs of [c] \<Rightarrow> flatten_predicate c
     | _ \<Rightarrow> Or (concat (map (\<lambda>k. or_entries (flatten_predicate k)) cs)))"
  by (auto split: list.splits)

lemma spliced_nodes_hold:
  "(\<forall>n \<in> set (and_nodes m). node_holds S M d n) \<longleftrightarrow> node_holds S M d m"
  "(\<exists>n \<in> set (or_nodes m). node_holds S M d n) \<longleftrightarrow> node_holds S M d m"
  by (cases m; simp)+

lemma concat_nodes_hold:
  "(\<forall>n \<in> set (concat (map (\<lambda>k. and_nodes (f k)) ks)). node_holds S M d n) \<longleftrightarrow> (\<forall>k \<in> set ks. node_holds S M d (f k))"
  "(\<exists>n \<in> set (concat (map (\<lambda>k. or_nodes (f k)) ks)). node_holds S M d n) \<longleftrightarrow> (\<exists>k \<in> set ks. node_holds S M d (f k))"
  by (induction ks) (simp_all add: ball_Un bex_Un spliced_nodes_hold)

lemma flatten_node_holds: "node_holds S M d (flatten_node n) \<longleftrightarrow> node_holds S M d n"
proof (induction n)
  case (R_And cs)
  show ?case
  proof (cases "\<exists>c. cs = [c]")
    case True
    with R_And show ?thesis by auto
  next
    case False
    then have "flatten_node (R_And cs) = R_And (concat (map (\<lambda>k. and_nodes (flatten_node k)) cs))"
      by (auto simp: flatten_node_groups simp del: flatten_node.simps split: list.split)
    then show ?thesis using R_And concat_nodes_hold(1) [of flatten_node cs S M d] by simp
  qed
next
  case (R_Or cs)
  show ?case
  proof (cases "\<exists>c. cs = [c]")
    case True
    with R_Or show ?thesis by auto
  next
    case False
    then have "flatten_node (R_Or cs) = R_Or (concat (map (\<lambda>k. or_nodes (flatten_node k)) cs))"
      by (auto simp: flatten_node_groups simp del: flatten_node.simps split: list.split)
    then show ?thesis using R_Or concat_nodes_hold(2) [of flatten_node cs S M d] by simp
  qed
qed simp_all

lemma all_match_append: "all_match row (ps @ qs) = rbind (all_match row ps) (\<lambda>b. if b then all_match row qs else Inr False)"
proof (induction ps)
  case (Cons p ps)
  then show ?case by (cases "pmatches row p") auto
qed simp

lemma any_match_append: "any_match row (ps @ qs) = rbind (any_match row ps) (\<lambda>b. if b then Inr True else any_match row qs)"
proof (induction ps)
  case (Cons p ps)
  then show ?case by (cases "pmatches row p") auto
qed simp

lemma rbind_bool [simp]: "rbind r (\<lambda>b. if b then Inr True else Inr False) = r"
  by (cases r) auto

lemma spliced_entries_match:
  "all_match row (and_entries p) = pmatches row p" "any_match row (or_entries p) = pmatches row p"
  by (cases p; simp cong: if_cong)+

lemma concat_match:
  "all_match row (concat (map (\<lambda>k. and_entries (f k)) ks)) = all_match row (map f ks)"
  "any_match row (concat (map (\<lambda>k. or_entries (f k)) ks)) = any_match row (map f ks)"
  by (induction ks) (simp_all add: all_match_append any_match_append spliced_entries_match cong: if_cong)

lemma match_cong:
  assumes "\<And>k. k \<in> set ks \<Longrightarrow> pmatches row (f k) = pmatches row k"
  shows "all_match row (map f ks) = all_match row ks" "any_match row (map f ks) = any_match row ks"
  using assms by (induction ks) (simp_all cong: if_cong)

lemma flatten_predicate_matches: "pmatches row (flatten_predicate p) = pmatches row p"
proof (induction p)
  case (And cs)
  note eq = concat_match(1) [of row flatten_predicate cs] match_cong(1) [of cs row flatten_predicate, OF And]
  show ?case
  proof (cases "\<exists>c. cs = [c]")
    case True
    with And show ?thesis by (auto cong: if_cong)
  next
    case False
    then have "flatten_predicate (And cs) = And (concat (map (\<lambda>k. and_entries (flatten_predicate k)) cs))"
      by (auto simp: flatten_predicate_groups simp del: flatten_predicate.simps split: list.split)
    then show ?thesis using eq by (simp del: flatten_predicate.simps)
  qed
next
  case (Or cs)
  note eq = concat_match(2) [of row flatten_predicate cs] match_cong(2) [of cs row flatten_predicate, OF Or]
  show ?case
  proof (cases "\<exists>c. cs = [c]")
    case True
    with Or show ?thesis by (auto cong: if_cong)
  next
    case False
    then have "flatten_predicate (Or cs) = Or (concat (map (\<lambda>k. or_entries (flatten_predicate k)) cs))"
      by (auto simp: flatten_predicate_groups simp del: flatten_predicate.simps split: list.split)
    then show ?thesis using eq by (simp del: flatten_predicate.simps)
  qed
qed simp

lemma spliced_entries_leaves:
  "(\<Union>q \<in> set (and_entries p). set (leaves q)) = set (leaves p)" "(\<Union>q \<in> set (or_entries p). set (leaves q)) = set (leaves p)"
  by (cases p; simp)+

lemma flatten_predicate_leaves: "set (leaves (flatten_predicate p)) = set (leaves p)"
proof (induction p)
  case (And cs)
  then show ?case
    by (cases "\<exists>c. cs = [c]")
      (auto simp: flatten_predicate_groups spliced_entries_leaves simp del: flatten_predicate.simps split: list.split)
next
  case (Or cs)
  then show ?case
    by (cases "\<exists>c. cs = [c]")
      (auto simp: flatten_predicate_groups spliced_entries_leaves simp del: flatten_predicate.simps split: list.split)
qed simp


section \<open>An accepted expression means the predicate\<close>

fun sound_leaf :: "leaf \<Rightarrow> bool" where
  "sound_leaf (Match_Leaf ops) \<longleftrightarrow> (\<forall>i. Int_Op i \<in> set ops \<longrightarrow> \<bar>i\<bar> \<le> 2 ^ 53)"
| "sound_leaf (Range_Leaf gt gte lt lte) \<longleftrightarrow> (gt = None \<or> gte = None) \<and> (lt = None \<or> lte = None)"
| "sound_leaf (Text_Leaf _) \<longleftrightarrow> True"

definition exact_bindings :: "bindings \<Rightarrow> bool" where
  "exact_bindings M \<longleftrightarrow> (\<forall>p i. M p = Some (Int_Param i) \<longrightarrow> \<bar>i\<bar> \<le> 2 ^ 53)"

abbreviation as_params :: "bindings \<Rightarrow> params" where
  "as_params M \<equiv> map_option to_redis_param \<circ> M"

lemma param_text_iff: "param_text (as_params M) p = Inr s \<longleftrightarrow> M p = Some (Str_Param s)"
proof (cases "M p")
  case (Some v)
  then show ?thesis by (cases v) (auto simp: param_text_def)
qed (simp add: param_text_def)

lemma param_numD:
  assumes "param_num (as_params M) p = Inr v" and "exact_bindings M"
  obtains x where "M p = Some x" "num_of x = v"
proof (cases "M p")
  case None
  with assms show thesis by (simp add: param_num_def)
next
  case (Some x)
  with assms have "num_of x = v"
    by (cases x) (auto simp: param_num_def exact_bindings_def rnd64_of_int)
  with Some that show thesis by blast
qed

lemma got_side_above:
  assumes "got_side (as_params M) s = Inr g" and "exact_bindings M" and "side_eq g w"
  shows "above_end M (side_end s) u \<longleftrightarrow> (case w of None \<Rightarrow> True | Some (y, x) \<Rightarrow> above (Finite y) x u)"
    and "below_end M (side_end s) u \<longleftrightarrow> (case w of None \<Rightarrow> True | Some (y, x) \<Rightarrow> below (Finite y) x u)"
proof -
  have "(above_end M (side_end s) u \<longleftrightarrow> (case w of None \<Rightarrow> True | Some (y, x) \<Rightarrow> above (Finite y) x u)) \<and>
    (below_end M (side_end s) u \<longleftrightarrow> (case w of None \<Rightarrow> True | Some (y, x) \<Rightarrow> below (Finite y) x u))"
  proof (cases s)
    case None
    with assms show ?thesis by (cases w) (auto simp: got_side_def)
  next
    case (Some px)
    then obtain p x v where s: "s = Some (p, x)" "param_num (as_params M) p = Inr v" "g = Some (v, x)"
      using assms(1) by (cases px) (auto simp: got_side_def)
    with assms(3) obtain y where "v = Finite y" "w = Some (y, x)"
      by (cases w; cases v) auto
    moreover obtain a where "M p = Some a" "num_of a = v" using param_numD [OF s(2) assms(2)] .
    ultimately show ?thesis using s by (auto simp: param_sat_def)
  qed
  then show "above_end M (side_end s) u \<longleftrightarrow> (case w of None \<Rightarrow> True | Some (y, x) \<Rightarrow> above (Finite y) x u)"
    and "below_end M (side_end s) u \<longleftrightarrow> (case w of None \<Rightarrow> True | Some (y, x) \<Rightarrow> below (Finite y) x u)" by blast+
qed

lemma walk_range_sound:
  assumes "walk_leaf (as_params M) field (Range_Leaf gt gte lt lte) n = Inr ()" and "exact_bindings M" and "exact_row row"
    and "sound_leaf (Range_Leaf gt gte lt lte)" and "pmatches row (Leaf field (Range_Leaf gt gte lt lte)) = Inr b"
  shows "node_holds row_search M row n = b"
proof -
  from assms(1) obtain lo hi g h where n: "n = R_Range field lo hi"
    and g: "got_side (as_params M) lo = Inr g" "side_eq g (want_side gt gte)"
    and h: "got_side (as_params M) hi = Inr h" "side_eq h (want_side lt lte)"
    by (auto simp: walk_leaf_def require_def split: rnode.splits if_splits)
  note ends = got_side_above(1) [OF g(1) assms(2) g(2)] got_side_above(2) [OF h(1) assms(2) h(2)]
  show ?thesis
  proof (cases "row field")
    case None
    with assms(5) n show ?thesis by (simp add: exact_numbers [OF assms(3)])
  next
    case (Some v)
    then obtain k where k: "v = Int_Value k" "\<bar>k\<bar> \<le> 2 ^ 53" using assms(3,5) by (cases v) (auto simp: exact_row_def)
    then have "rnd64 (of_int k) = of_int k" by (simp add: rnd64_of_int)
    then have b: "b \<longleftrightarrow> none_or (\<lambda>b. of_int k > b) gt \<and> none_or (\<lambda>b. of_int k \<ge> b) gte \<and> none_or (\<lambda>b. of_int k < b) lt \<and>
        none_or (\<lambda>b. of_int k \<le> b) lte"
      using assms(5) Some k by (auto simp: MAX_EXACT_INTEGER_def Let_def split: if_splits)
    have "node_holds row_search M row n \<longleftrightarrow> above_end M (side_end lo) (of_int k) \<and> below_end M (side_end hi) (of_int k)"
      using Some k by (simp add: n exact_numbers [OF assms(3)])
    then show ?thesis using assms(4) unfolding b ends
      by (auto simp: want_side_def none_or_def split: option.splits)
  qed
qed


lemma feq_Finite [simp]: "feq v (Finite y) \<longleftrightarrow> v = Finite y"
  by (cases v) auto

lemma points_of_ints:
  assumes "list_all2 feq (sort_key total_rank got) (sort_key total_rank ints)" and "\<forall>v \<in> set ints. \<exists>y. v = Finite y"
  shows "set got = set ints"
proof -
  have "xs = ys" if "list_all2 feq xs ys" "\<forall>v \<in> set ys. \<exists>y. v = Finite y" for xs ys
    using that by (induction rule: list_all2_induct) auto
  then have "sort_key total_rank got = sort_key total_rank ints" using assms by simp
  then show ?thesis by (metis set_sort)
qed

lemma point_holds:
  assumes "point_value (as_params M) field pt = Inr (Finite y)" and "exact_bindings M" and "exact_row row"
  shows "node_holds row_search M row pt \<longleftrightarrow> (\<exists>n. row field = Some (Int_Value n) \<and> of_int n = y)"
proof -
  from assms(1) obtain a b v w where pt: "pt = R_Range field (Some (a, False)) (Some (b, False))"
    and v: "param_num (as_params M) a = Inr v" and w: "param_num (as_params M) b = Inr w" and "feq v w" "v = Finite y"
    by (auto simp: point_value_def split: rnode.splits option.splits bool.splits if_splits)
  then have "w = Finite y" by (cases w) auto
  moreover obtain p q where "M a = Some p" "num_of p = v" "M b = Some q" "num_of q = w"
    using param_numD [OF v assms(2)] param_numD [OF w assms(2)] by metis
  ultimately show ?thesis using \<open>v = Finite y\<close>
    by (auto simp: pt exact_numbers [OF assms(3)] param_sat_def split: option.splits field_value.splits)
qed

lemma all_points_hold:
  assumes "traverse (point_value (as_params M) field) pts = Inr got" and "set got = set (map Finite ys)"
    and "exact_bindings M" and "exact_row row"
  shows "(\<exists>pt \<in> set pts. node_holds row_search M row pt) \<longleftrightarrow> (\<exists>n. row field = Some (Int_Value n) \<and> of_int n \<in> set ys)"
proof -
  have l: "list_all2 (\<lambda>pt v. point_value (as_params M) field pt = Inr v) pts got" using assms(1) by (simp add: traverse_Inr_iff)
  have 1: "node_holds row_search M row pt \<longleftrightarrow> (\<exists>n. row field = Some (Int_Value n) \<and> of_int n = y)"
    if "point_value (as_params M) field pt = Inr (Finite y)" for pt y using point_holds that assms(3,4) by blast
  have 2: "\<exists>y \<in> set ys. point_value (as_params M) field pt = Inr (Finite y)" if "pt \<in> set pts" for pt
    using list_all2_partner [OF l that] assms(2) by auto
  have 3: "\<exists>pt \<in> set pts. point_value (as_params M) field pt = Inr (Finite y)" if "y \<in> set ys" for y
    using list_all2_partner' [OF l, of "Finite y"] that assms(2) by auto
  show ?thesis using 1 2 3 by metis
qed

lemma walk_tag_sound:
  assumes "traverse (param_text (as_params M)) ps = Inr got" and "sort got = sort words" and "ops = map Keyword_Op words"
    and "words \<noteq> []" and "pmatches row (Leaf field (Match_Leaf ops)) = Inr b"
  shows "node_holds row_search M row (R_Tag field ps) = b"
proof -
  have l: "list_all2 (\<lambda>p s. M p = Some (Str_Param s)) ps got" using assms(1) by (simp add: traverse_Inr_iff param_text_iff)
  have s: "set got = set words" using assms(2) by (metis set_sort)
  have "b \<longleftrightarrow> (\<exists>s. row field = Some (Keyword_Value s) \<and> s \<in> set words)"
  proof (cases "row field")
    case (Some v)
    with assms(3-5) show ?thesis by (cases v; cases words) (auto simp: match_keyword_eq list_all_iff match_int_eq)
  qed (use assms(5) in simp)
  moreover have "node_holds row_search M row (R_Tag field ps) \<longleftrightarrow> (\<exists>s. row field = Some (Keyword_Value s) \<and> s \<in> set words)"
    using list_all2_partner [OF l] list_all2_partner' [OF l] unfolding s [symmetric]
    by (simp add: row_search_def param_sat_def split: option.splits) fastforce
  ultimately show ?thesis by simp
qed

lemma op_words_only: "List.map_filter op_num ops = [] \<Longrightarrow> ops = map Keyword_Op (List.map_filter op_word ops)"
proof (induction ops)
  case (Cons x ops)
  then show ?case by (cases x) (auto simp: map_filter_simps)
qed (simp add: map_filter_simps)

lemma op_nums_finite:
  "sound_leaf (Match_Leaf ops) \<Longrightarrow> List.map_filter op_num ops = map Finite (map of_int (List.map_filter (\<lambda>x. case x of Int_Op i \<Rightarrow> Some i | _ \<Rightarrow> None) ops))"
proof (induction ops)
  case (Cons x ops)
  then show ?case by (cases x) (auto simp: map_filter_simps rnd64_of_int)
qed (simp add: map_filter_simps)

lemma int_ops_set: "set (List.map_filter (\<lambda>x. case x of Int_Op i \<Rightarrow> Some i | _ \<Rightarrow> None) ops) = {i. Int_Op i \<in> set ops}"
proof (induction ops)
  case (Cons x ops)
  then show ?case by (cases x) (auto simp: map_filter_simps)
qed (simp add: map_filter_simps)

lemma walk_match_sound:
  assumes "walk_match (as_params M) field ops n = Inr ()" and "exact_bindings M" and "exact_row row"
    and "sound_leaf (Match_Leaf ops)" and "pmatches row (Leaf field (Match_Leaf ops)) = Inr b"
  shows "node_holds row_search M row n = b"
proof -
  let ?words = "List.map_filter op_word ops" and ?ints = "List.map_filter op_num ops"
  let ?is = "List.map_filter (\<lambda>x. case x of Int_Op i \<Rightarrow> Some i | _ \<Rightarrow> None) ops"
  show ?thesis
  proof (cases "?words \<noteq> [] \<and> ?ints = []")
    case True
    with assms(1) obtain ps got where "n = R_Tag field ps" "traverse (param_text (as_params M)) ps = Inr got"
        "sort got = sort ?words"
      by (auto simp: walk_match_def require_def split: rnode.splits if_splits)
    with True assms(5) walk_tag_sound op_words_only show ?thesis by blast
  next
    case False
    with assms(1) obtain pts got where pts: "n = R_Or pts \<and> length ?ints > 1 \<or> pts = [n] \<and> length ?ints = 1"
      and got: "traverse (point_value (as_params M) field) pts = Inr got"
      and "list_all2 feq (sort_key total_rank got) (sort_key total_rank ?ints)"
      by (auto simp: walk_match_def Let_def require_def split: rnode.splits if_splits)
    then have "set got = set (map Finite (map of_int ?is))"
      using points_of_ints [of got ?ints] op_nums_finite [OF assms(4)] by auto
    from all_points_hold [OF got this assms(2,3)]
    have h: "node_holds row_search M row n \<longleftrightarrow> (\<exists>k. row field = Some (Int_Value k) \<and> k \<in> set ?is)"
      using pts by auto
    have "?is \<noteq> []" using pts op_nums_finite [OF assms(4)] by auto
    then have "set ?is \<noteq> {}" by simp
    then obtain i where i: "Int_Op i \<in> set ops" unfolding int_ops_set by blast
    have "b \<longleftrightarrow> (\<exists>k. row field = Some (Int_Value k) \<and> Int_Op k \<in> set ops)"
    proof (cases "row field")
      case (Some v)
      with assms(5) i show ?thesis
        by (cases v) (auto simp: match_keyword_eq list_all_iff match_int_eq split: if_splits)
    qed (use assms(5) in simp)
    with h show ?thesis unfolding int_ops_set by simp
  qed
qed

lemma walk_leaf_sound:
  assumes "walk_leaf (as_params M) field l n = Inr ()" and "exact_bindings M" and "exact_row row" and "sound_leaf l"
    and "pmatches row (Leaf field l) = Inr b"
  shows "node_holds row_search M row n = b"
proof (cases l)
  case (Match_Leaf ops)
  with assms walk_match_sound show ?thesis by (auto simp: walk_leaf_def)
next
  case (Range_Leaf gt gte lt lte)
  with assms walk_range_sound show ?thesis by blast
next
  case (Text_Leaf t)
  with assms(1) obtain p where "n = R_Text field p" "M p = Some (Str_Param t)"
    by (auto simp: walk_leaf_def require_def param_text_iff split: rnode.splits if_splits)
  moreover have "b \<longleftrightarrow> (\<exists>s. row field = Some (Keyword_Value s) \<and> classify s t = Yes)"
    using assms(5) Text_Leaf by (auto split: option.splits field_value.splits text_match.splits elim!: match_leaf.elims)
  ultimately show ?thesis by (simp add: param_sat_def row_search_def)
qed


lemma walk_sound:
  assumes "walk (as_params M) p n = Inr ()" and "exact_bindings M" and "exact_row row"
    and "\<forall>(f, l) \<in> set (leaves p). sound_leaf l" and "pmatches row p = Inr b"
  shows "node_holds row_search M row n = b"
  using assms(1,4,5)
proof (induction "as_params M" p n arbitrary: b rule: walk.induct)
  case (1 pc nc)
  have "list_all2 (\<lambda>p n. walk (as_params M) p n = Inr ()) pc nc"
    using "1.prems"(1) by (auto simp: list_all2_iff split: if_splits)
  moreover have "list_all2 (\<lambda>p n. \<forall>b. pmatches row p = Inr b \<longrightarrow> node_holds row_search M row n = b) pc nc"
    using "1.hyps" "1.prems"(1,2) by (fastforce simp: list_all2_iff split: if_splits dest: set_zip_leftD)
  then have "all_match row pc = Inr b \<Longrightarrow> (\<forall>n \<in> set nc. node_holds row_search M row n) = b"
    by (induction arbitrary: b rule: list_all2_induct) (auto split: if_splits)
  ultimately show ?case using "1.prems"(3) by simp
next
  case (2 pc nc)
  have "list_all2 (\<lambda>p n. \<forall>b. pmatches row p = Inr b \<longrightarrow> node_holds row_search M row n = b) pc nc"
    using "2.hyps" "2.prems"(1,2) by (fastforce simp: list_all2_iff split: if_splits dest: set_zip_leftD)
  then have "any_match row pc = Inr b \<Longrightarrow> (\<exists>n \<in> set nc. node_holds row_search M row n) = b"
    by (induction arbitrary: b rule: list_all2_induct) (auto split: if_splits)
  with "2.prems"(3) show ?case by simp
next
  case (3 field l n)
  then show ?case using walk_leaf_sound assms(2,3) by auto
qed simp_all

lemma operand_exact: "match_operand field v = Inr (Int_Op i) \<Longrightarrow> \<bar>i\<bar> \<le> 2 ^ 53"
  by (auto simp: match_operand_def MAX_EXACT_INTEGER_def split: option.splits if_splits)

lemma operands_exact: "traverse (match_operand field) vs = Inr ops \<Longrightarrow> sound_leaf (Match_Leaf ops)"
  using list_all2_partner' [of "\<lambda>v x. match_operand field v = Inr x" vs ops] operand_exact
  by (fastforce simp: traverse_Inr_iff)

lemma compile_match_sound: "compile_match field criteria = Inr l \<Longrightarrow> sound_leaf l"
proof (cases "as_object criteria")
  case (Some es)
  assume *: "compile_match field criteria = Inr l"
  with Some obtain key v where es: "es = [(key, v)]" by (auto simp: compile_match_def split: list.splits)
  consider "key = ''text''" | "key = ''value''" | "key = ''any''"
    using * Some es by (auto simp: compile_match_def split: if_splits)
  then show ?thesis
  proof cases
    case 1
    with * Some es show ?thesis by (auto simp: compile_match_def)
  next
    case 2
    with * Some es show ?thesis using operand_exact by (auto simp: compile_match_def)
  next
    case 3
    with * Some es obtain ops vs where "traverse (match_operand field) vs = Inr ops" "l = Match_Leaf ops"
      by (auto simp: compile_match_def simp del: traverse.simps split: option.splits list.splits)
    then show ?thesis using operands_exact by blast
  qed
qed (simp add: compile_match_def)

lemma compile_leaf_sound: "compile_leaf field body = Inr l \<Longrightarrow> sound_leaf l"
  using compile_match_sound by (auto simp: compile_leaf_def compile_range_def split: option.splits list.splits if_splits)

lemma compile_node_sound: "compile_node v = Inr p \<Longrightarrow> \<forall>(f, l) \<in> set (leaves p). sound_leaf l"
proof (induction v arbitrary: p rule: measure_induct_rule [of size])
  case (less v)
  from less.prems show ?case
  proof (cases rule: compile_node_InrE)
    case (group key x xs children)
    have "\<forall>(f, l) \<in> set (leaves q). sound_leaf l" if q: "q \<in> set children" for q
    proof -
      obtain y where y: "y \<in> set (x # xs)" "compile_node y = Inr q" using list_all2_partner' [OF group(3) q] by auto
      then have "size y \<le> size_list size (x # xs)" by (metis size_list_estimation' order_refl)
      then have "size y < size v" by (simp add: group(1))
      from less.IH [OF this y(2)] show ?thesis .
    qed
    then show ?thesis using group(2,4) by (auto split: if_splits)
  next
    case (leaf key body l)
    then show ?thesis using compile_leaf_sound by simp
  qed
qed


lemma accepted_means:
  assumes "compile_predicate c = Inr p" and "check_hybrid_filter p (expr, ps) = Inr ()" and "parse_redis_filter expr = Inr n"
    and "exact_bindings (map_of ps)" and "exact_row row" and "pmatches row p = Inr b"
  shows "node_holds row_search (map_of ps) row n = b"
proof -
  have "map_of (map (\<lambda>(k, v). (k, to_redis_param v)) ps) = as_params (map_of ps)"
    by (simp add: map_of_map comp_def)
  with assms(2,3) have "walk (as_params (map_of ps)) (flatten_predicate p) (flatten_node n) = Inr ()"
    by (simp add: check_hybrid_filter_def check_redis_filter_def)
  moreover have "compile_node c = Inr p" using assms(1) by (auto simp: compile_predicate_def split: if_splits)
  then have "\<forall>(f, l) \<in> set (leaves (flatten_predicate p)). sound_leaf l"
    unfolding flatten_predicate_leaves by (rule compile_node_sound)
  ultimately have "node_holds row_search (map_of ps) row (flatten_node n) = b"
    using walk_sound [OF _ assms(4,5)] assms(6) by (simp add: flatten_predicate_matches)
  then show ?thesis by (simp add: flatten_node_holds)
qed

section \<open>The vector layout\<close>

text \<open>
  The hybrid workload searches the index of the \<open>vector\<close> layout.  Its TAG fields are declared \<open>SEPARATOR ;\<close> and are not
  case sensitive: a stored value is split at the semicolons, its pieces are trimmed, and a piece matches an operand that
  is the same up to case.  How the server folds case is the parameter \<open>fold_case\<close>.
\<close>

definition vector_search :: "(string \<Rightarrow> string) \<Rightarrow> row_fields search_semantics" where
  "vector_search fold_case = row_search \<lparr>tag_is := \<lambda>r f s. \<exists>v. r f = Some (Keyword_Value v) \<and>
     fold_case s \<in> set (map (fold_case \<circ> trim) (split_on CHR '';'' v))\<rparr>"

text \<open>The fields of the TAG clauses of an expression, with the names of their operands.\<close>

fun tag_operands :: "ft_query \<Rightarrow> (string \<times> string) list" where
  "tag_operands (Tag_In f ps) = map (Pair f) ps"
| "tag_operands (Seq qs) = concat (map tag_operands qs)"
| "tag_operands (Alt qs) = concat (map tag_operands qs)"
| "tag_operands (Paren q) = tag_operands q"
| "tag_operands (Neg q) = tag_operands q"
| "tag_operands _ = []"

definition plain_operands :: "bindings \<Rightarrow> ft_query \<Rightarrow> bool" where
  "plain_operands M q \<longleftrightarrow> (\<forall>(f, p) \<in> set (tag_operands q). \<forall>s. M p = Some (Str_Param s) \<longrightarrow> CHR '';'' \<notin> set s \<and> trim s = s)"

text \<open>The stored values are single TAGs, and none differs from an operand of its field in case only.\<close>

definition tags_apart :: "(string \<Rightarrow> string) \<Rightarrow> bindings \<Rightarrow> row_fields \<Rightarrow> ft_query \<Rightarrow> bool" where
  "tags_apart fold_case M row q \<longleftrightarrow> (\<forall>(f, p) \<in> set (tag_operands q). \<forall>s v. M p = Some (Str_Param s) \<longrightarrow>
     row f = Some (Keyword_Value v) \<longrightarrow> CHR '';'' \<notin> set v \<and> trim v = v \<and> (fold_case v = fold_case s \<longrightarrow> v = s))"

text \<open>An expression without negation selects more when its TAG operands match more.\<close>

lemma eval_tags_mono:
  assumes "readable q" and "eval_query S M d q" and "numbers S' = numbers S" and "text_matches S' = text_matches S"
    and "\<forall>(f, p) \<in> set (tag_operands q). \<forall>s. M p = Some (Str_Param s) \<longrightarrow> tag_is S d f s \<longrightarrow> tag_is S' d f s"
  shows "eval_query S' M d q"
  using assms
proof (induction q)
  case (Tag_In f ps)
  then show ?case by (fastforce simp: param_sat_def split: option.splits)
next
  case (Alt qs)
  then obtain q where q: "q \<in> set qs" "eval_query S M d q" by auto
  with Alt.prems have "readable q"
    "\<forall>(f, p) \<in> set (tag_operands q). \<forall>s. M p = Some (Str_Param s) \<longrightarrow> tag_is S d f s \<longrightarrow> tag_is S' d f s" by auto
  with q Alt.IH Alt.prems(3,4) show ?case by auto
qed auto

lemma vector_search_simps:
  "numbers (vector_search fold_case) = numbers row_search" "text_matches (vector_search fold_case) = text_matches row_search"
  "tag_is (vector_search fold_case) row f s \<longleftrightarrow>
     (\<exists>v. row f = Some (Keyword_Value v) \<and> fold_case s \<in> set (map (fold_case \<circ> trim) (split_on CHR '';'' v)))"
  by (simp_all add: vector_search_def)

lemma row_tag_is: "tag_is row_search row f s \<longleftrightarrow> row f = Some (Keyword_Value s)"
  by (simp add: row_search_def)

lemma vector_selects_more:
  assumes "readable q" and "plain_operands M q" and "eval_query row_search M row q"
  shows "eval_query (vector_search fold_case) M row q"
proof (rule eval_tags_mono [OF assms(1,3)])
  have "tag_is (vector_search fold_case) row f s" if "CHR '';'' \<notin> set s" "trim s = s" "tag_is row_search row f s" for f s
    using that by (simp add: vector_search_simps row_tag_is split_on_no_sep)
  with assms(2) show "\<forall>(f, p) \<in> set (tag_operands q). \<forall>s. M p = Some (Str_Param s) \<longrightarrow> tag_is row_search row f s \<longrightarrow>
      tag_is (vector_search fold_case) row f s" unfolding plain_operands_def by blast
qed (simp_all add: vector_search_simps)

lemma vector_selects_no_more:
  assumes "readable q" and "tags_apart fold_case M row q" and "eval_query (vector_search fold_case) M row q"
  shows "eval_query row_search M row q"
proof (rule eval_tags_mono [OF assms(1,3)])
  have "tag_is row_search row f s" if "tag_is (vector_search fold_case) row f s"
    and "\<forall>v. row f = Some (Keyword_Value v) \<longrightarrow> CHR '';'' \<notin> set v \<and> trim v = v \<and> (fold_case v = fold_case s \<longrightarrow> v = s)" for f s
  proof -
    from that obtain v where v: "row f = Some (Keyword_Value v)" "fold_case s \<in> set (map (fold_case \<circ> trim) (split_on CHR '';'' v))"
      and "CHR '';'' \<notin> set v" "trim v = v" "fold_case v = fold_case s \<longrightarrow> v = s"
      unfolding vector_search_simps by blast
    then have "v = s" by (simp add: split_on_no_sep)
    with v(1) show ?thesis by (simp add: row_tag_is)
  qed
  with assms(2) show "\<forall>(f, p) \<in> set (tag_operands q). \<forall>s. M p = Some (Str_Param s) \<longrightarrow> tag_is (vector_search fold_case) row f s \<longrightarrow>
      tag_is row_search row f s" unfolding tags_apart_def by blast
qed (simp_all add: vector_search_simps)

section \<open>Unions with integer lists\<close>

text \<open>The entries of a union of matches, an integer list or one keyword value, and what the two builders make of them.\<close>

datatype match_entry = Int_List string "json list" | Keyword_Value_Of string string

fun entry_json :: "match_entry \<Rightarrow> json" where
  "entry_json (Int_List f vs) = Object [(f, Object [(''match'', Object [(''any'', Array vs)])])]"
| "entry_json (Keyword_Value_Of f s) = Object [(f, Object [(''match'', Object [(''value'', String s)])])]"

fun entry_field :: "match_entry \<Rightarrow> string" where
  "entry_field (Int_List f vs) = f"
| "entry_field (Keyword_Value_Of f s) = f"

fun entry_size :: "match_entry \<Rightarrow> nat" where
  "entry_size (Int_List f vs) = length vs"
| "entry_size (Keyword_Value_Of f s) = 1"

definition entry_ok :: "match_entry \<Rightarrow> bool" where
  "entry_ok e \<longleftrightarrow> clean_name (entry_field e) \<and> entry_field e \<noteq> ''and'' \<and> entry_field e \<noteq> ''or'' \<and>
     (case e of Int_List f vs \<Rightarrow> vs \<noteq> [] \<and> list_all (\<lambda>v. case as_i64 v of Some i \<Rightarrow> \<bar>i\<bar> \<le> 2 ^ 53 | None \<Rightarrow> False) vs
      | Keyword_Value_Of f s \<Rightarrow> True)"

definition union_of :: "match_entry list \<Rightarrow> json" where
  "union_of es = Object [(''or'', Array (map entry_json es))]"

fun entry_query :: "nat \<Rightarrow> match_entry \<Rightarrow> ft_query" where
  "entry_query c (Int_List f vs) =
     Paren (Alt (map (\<lambda>k. Interval f (Inclusive (param_name f k)) (Inclusive (param_name f k))) [c..<c + length vs]))"
| "entry_query c (Keyword_Value_Of f s) = Tag_In f [param_name f c]"

fun entry_queries :: "nat \<Rightarrow> match_entry list \<Rightarrow> ft_query list" where
  "entry_queries c [] = []"
| "entry_queries c (e # es) = entry_query c e # entry_queries (c + entry_size e) es"

lemma length_entry_queries [simp]: "length (entry_queries c es) = length es"
  by (induction es arbitrary: c) simp_all

lemma clean_param_name: "clean_name f \<Longrightarrow> clean_name (param_name f k)"
  using nat_str_digits [of k] by (auto simp: clean_name_def param_name_def list_all_iff is_alnum_def)

lemma entry_readable: "entry_ok e \<Longrightarrow> readable (entry_query c e) \<and> \<not> is_alt (entry_query c e)"
  by (cases e) (auto simp: entry_ok_def clean_param_name)

lemma entries_readable: "list_all entry_ok es \<Longrightarrow> \<forall>q \<in> set (entry_queries c es). readable q \<and> \<not> is_alt q"
  by (induction es arbitrary: c) (auto simp: entry_readable)

lemma group_many: "2 \<le> length ns \<Longrightarrow> group_of g ns = g ns"
  by (cases ns; cases "tl ns") (auto simp: group_of_def)

lemma flatten_or_many: "2 \<le> length ns \<Longrightarrow> flatten_node (R_Or ns) = R_Or (concat (map (\<lambda>k. or_nodes (flatten_node k)) ns))"
  by (cases ns; cases "tl ns") auto

lemma flatten_leaves: "2 \<le> length ls \<Longrightarrow> flatten_predicate (Or (map (\<lambda>(f, l). Leaf f l) ls)) = Or (map (\<lambda>(f, l). Leaf f l) ls)"
proof -
  assume "2 \<le> length ls"
  moreover have "concat (map (\<lambda>k. or_entries (flatten_predicate k)) (map (\<lambda>(f, l). Leaf f l) ls)) = map (\<lambda>(f, l). Leaf f l) ls"
    by (induction ls) auto
  ultimately show ?thesis by (cases ls; cases "tl ls") auto
qed

text \<open>A list of \<open>n\<close> integers becomes \<open>n\<close> entries of the flattened union.\<close>

lemma entry_nodes:
  assumes "entry_ok e"
  shows "length (or_nodes (flatten_node (group_of R_And (units_of (entry_query c e))))) = entry_size e"
proof (cases e)
  case (Int_List f vs)
  let ?pt = "\<lambda>k. R_Range f (Some (param_name f k, False)) (Some (param_name f k, False))"
  let ?pts = "map ?pt [c..<c + length vs]"
  have u: "group_of R_And (units_of (entry_query c e)) = group_of R_Or ?pts" by (simp add: Int_List comp_def)
  have flat: "concat (map (\<lambda>k. or_nodes (flatten_node k)) (map ?pt ks)) = map ?pt ks" for ks by (induction ks) simp_all
  from assms Int_List have "vs \<noteq> []" by (simp add: entry_ok_def)
  then consider "length vs = 1" | "2 \<le> length vs" by (cases vs; cases "tl vs") auto
  then show ?thesis
  proof cases
    case 1
    then show ?thesis by (simp add: Int_List group_of_def)
  next
    case 2
    then show ?thesis unfolding u using flat [of "[c..<c + length vs]"]
      by (simp add: group_many flatten_or_many Int_List)
  qed
qed (simp add: group_of_def)

lemma entries_nodes:
  "list_all entry_ok es \<Longrightarrow>
   length (concat (map (\<lambda>q. or_nodes (flatten_node (group_of R_And (units_of q)))) (entry_queries c es))) = sum_list (map entry_size es)"
  by (induction es arbitrary: c) (simp_all add: entry_nodes)

fun entry_leaf :: "match_entry \<Rightarrow> string \<times> leaf" where
  "entry_leaf (Int_List f vs) = (f, Match_Leaf (map (\<lambda>v. Int_Op (the (as_i64 v))) vs))"
| "entry_leaf (Keyword_Value_Of f s) = (f, Match_Leaf [Keyword_Op s])"

lemma int_operands:
  assumes "list_all (\<lambda>v. case as_i64 v of Some i \<Rightarrow> \<bar>i\<bar> \<le> 2 ^ 53 | None \<Rightarrow> False) vs"
  shows "traverse (match_operand f) vs = Inr (map (\<lambda>v. Int_Op (the (as_i64 v))) vs)"
  using assms
proof (induction vs)
  case (Cons v vs)
  then have "match_operand f v = Inr (Int_Op (the (as_i64 v)))"
    by (cases v) (auto simp: match_operand_def MAX_EXACT_INTEGER_def split: option.splits)
  with Cons show ?case by simp
qed simp

lemma entry_compiles: "entry_ok e \<Longrightarrow> compile_node (entry_json e) = Inr (case entry_leaf e of (f, l) \<Rightarrow> Leaf f l)"
proof (cases e)
  case (Int_List f vs)
  assume ok: "entry_ok e"
  with Int_List obtain v ws where "vs = v # ws" by (cases vs) (auto simp: entry_ok_def)
  with ok Int_List int_operands [of vs f] show ?thesis
    by (simp add: entry_ok_def compile_node.simps compile_leaf_def compile_match_def)
qed (simp add: entry_ok_def compile_node.simps compile_leaf_def compile_match_def match_operand_def)

lemma union_compiles:
  assumes "list_all entry_ok es" and "es \<noteq> []"
  shows "compile_predicate (union_of es) = Inr (Or (map (\<lambda>(f, l). Leaf f l) (map entry_leaf es)))"
proof -
  have "traverse compile_node (map entry_json es) = Inr (map (\<lambda>(f, l). Leaf f l) (map entry_leaf es))"
    using assms(1) by (induction es) (simp_all add: entry_compiles)
  with assms(2) show ?thesis
    by (cases es) (simp_all add: union_of_def compile_predicate_def compile_node.simps)
qed

lemma entry_supported: "entry_ok e \<Longrightarrow> condition_supported dt (entry_json e)"
  by (cases e) (auto simp: entry_ok_def condition_supported.simps is_group_def leaf_supported_def is_scalar_def list_all_iff
      split: option.splits)

lemma union_supported: "list_all entry_ok es \<Longrightarrow> es \<noteq> [] \<Longrightarrow> filter_supported dt (union_of es)"
  unfolding filter_supported_def union_of_def json.case
  by (subst condition_supported.simps) (simp add: is_group_def group_entries_def list_all_iff entry_supported)

text \<open>The expression the builder writes for the union.\<close>

lemma int_list_built:
  assumes "vs \<noteq> []" and "list_all (\<lambda>v. as_i64 v \<noteq> None) vs"
  shows "fst (fst (build_match_any_filter f vs c)) = show_query (entry_query c (Int_List f vs))"
    and "snd (build_match_any_filter f vs c) = c + length vs"
proof -
  have n: "length (List.map_filter as_i64 vs) = length vs"
    using assms(2) by (induction vs) (auto simp: List.map_filter_simps)
  have p: "map (\<lambda>(p, _). point_clause f p) (numbered f c xs) =
      map show_query (map (\<lambda>k. Interval f (Inclusive (param_name f k)) (Inclusive (param_name f k))) [c..<c + length xs])"
    for xs :: "int list"
    by (rule nth_equalityI) (auto simp: numbered_def nth_enumerate_eq point_clause_show)
  show "fst (fst (build_match_any_filter f vs c)) = show_query (entry_query c (Int_List f vs))"
    and "snd (build_match_any_filter f vs c) = c + length vs"
    using assms n p [of "List.map_filter as_i64 vs"] by (simp_all add: build_match_any_filter_def Let_def numbered_def)
qed

lemma entry_built:
  assumes "entry_ok e"
  obtains es where "entry_json e = Object es" "\<not> is_group es"
    "\<exists>ps. build_fields dt es c = ([(show_query (entry_query c e), ps)], c + entry_size e)"
proof (cases e)
  case (Int_List f vs)
  with assms have ok: "vs \<noteq> []" "list_all (\<lambda>v. as_i64 v \<noteq> None) vs" by (auto simp: entry_ok_def list_all_iff split: option.splits)
  have "\<exists>ps. build_fields dt [(f, Object [(''match'', Object [(''any'', Array vs)])])] c =
      ([(show_query (entry_query c e), ps)], c + entry_size e)"
    using int_list_built [OF ok, of f c]
    by (cases "build_match_any_filter f vs c"; cases "fst (build_match_any_filter f vs c)") (simp add: build_filter_def Int_List)
  with assms Int_List that show thesis by (auto simp: entry_ok_def is_group_def)
next
  case (Keyword_Value_Of f s)
  have "\<exists>ps. build_fields dt [(f, Object [(''match'', Object [(''value'', String s)])])] c =
      ([(show_query (entry_query c e), ps)], c + entry_size e)"
    by (simp add: build_filter_def build_exact_match_filter_def Keyword_Value_Of Let_def)
  with assms Keyword_Value_Of that show thesis by (auto simp: entry_ok_def is_group_def)
qed

lemma entries_built:
  assumes "list_all entry_ok es"
  shows "\<exists>fs. build_subfilters dt (map entry_json es) c = (fs, c + sum_list (map entry_size es)) \<and>
    map fst fs = map show_query (entry_queries c es)"
  using assms
proof (induction es arbitrary: c)
  case (Cons e es)
  then have "entry_ok e" by simp
  then obtain os ps where e: "entry_json e = Object os" "\<not> is_group os"
      "build_fields dt os c = ([(show_query (entry_query c e), ps)], c + entry_size e)"
    by (rule entry_built [where c = c and dt = dt]) blast
  moreover obtain fs where "build_subfilters dt (map entry_json es) (c + entry_size e) =
      (fs, c + entry_size e + sum_list (map entry_size es))" "map fst fs = map show_query (entry_queries (c + entry_size e) es)"
    using Cons by auto
  ultimately show ?case by (simp add: build_subfilters.simps add.assoc)
qed simp

lemma union_built:
  assumes "list_all entry_ok es" and "es \<noteq> []"
  shows "\<exists>ps. parse_conditions dt (union_of es) = Some (show_query (Paren (Alt (entry_queries 0 es))), ps)"
proof -
  from entries_built [OF assms(1), of dt 0] obtain fs where
    fs: "build_subfilters dt (map entry_json es) 0 = (fs, sum_list (map entry_size es))"
      "map fst fs = map show_query (entry_queries 0 es)" by auto
  have "length (map fst fs) = length es" unfolding fs(2) by simp
  with assms(2) have "fs \<noteq> []" by auto
  with fs show ?thesis
    by (simp add: parse_conditions_def union_of_def build_group.simps group_entries_def build_condition_def)
qed

lemma union_refused:
  assumes ok: "list_all entry_ok es" and two: "2 \<le> length es" and more: "sum_list (map entry_size es) \<noteq> length es"
  shows "check_hybrid_filter (Or (map (\<lambda>(f, l). Leaf f l) (map entry_leaf es))) (show_query (Paren (Alt (entry_queries 0 es))), ps) =
    Inl Mismatch"
proof -
  let ?qs = "entry_queries 0 es" and ?ls = "map (\<lambda>(f, l). Leaf f l) (map entry_leaf es)"
  let ?ns = "map (\<lambda>q. group_of R_And (units_of q)) ?qs"
  have "readable (Paren (Alt ?qs))" using entries_readable [OF ok, of 0] two by (cases es) auto
  from parse_show [OF this] have parse: "parse_redis_filter (show_query (Paren (Alt ?qs))) = Inr (R_Or ?ns)"
    using two by (simp add: node_of_def group_many)
  have "flatten_node (R_Or ?ns) = R_Or (concat (map (\<lambda>k. or_nodes (flatten_node k)) ?ns))" using two by (intro flatten_or_many) simp
  moreover have "length (concat (map (\<lambda>k. or_nodes (flatten_node k)) ?ns)) \<noteq> length ?ls"
    using entries_nodes [OF ok, of 0] more by (simp add: comp_def)
  moreover have "flatten_predicate (Or ?ls) = Or ?ls" using two by (intro flatten_leaves) simp
  ultimately show ?thesis unfolding check_hybrid_filter_def check_redis_filter_def prod.case parse by simp
qed

lemma long_list_adds:
  assumes "list_all entry_ok es" and "e \<in> set es" and "2 \<le> entry_size e"
  shows "length es < sum_list (map entry_size es)"
proof -
  have pos: "1 \<le> entry_size x" if "entry_ok x" for x using that by (cases x) (auto simp: entry_ok_def Suc_le_eq)
  then have le: "length xs \<le> sum_list (map entry_size xs)" if "list_all entry_ok xs" for xs
    using that
  proof (induction xs)
    case (Cons x xs)
    then have "1 \<le> entry_size x" "length xs \<le> sum_list (map entry_size xs)" using pos [of x] by simp_all
    then show ?case by simp
  qed simp
  from assms(2) obtain xs ys where es: "es = xs @ e # ys" by (meson split_list)
  with assms(1) le [of xs] le [of ys] assms(3) show ?thesis by simp
qed

section \<open>Properties\<close>

text \<open>
  C31: the parser reads back every expression of its grammar.  Printed with the concrete syntax of the filter
  builder, an expression whose names are letters, digits and underscores is parsed to the tree it was printed from,
  nested sequences joined and single-entry groups dropped; and the parser's answer never depends on its fuel.
\<close>

theorem expressions_read_back:
  assumes "readable q"
  shows "parse_redis_filter (show_query q) = Inr (node_of q) \<and>
    (\<forall>k \<ge> 3 * length (show_query q) + 3. alternatives k [] (show_query q) =
       alternatives (3 * length (show_query q) + 3) [] (show_query q))"
proof
  let ?s = "show_query q" and ?N = "3 * length (show_query q) + 3"
  show "parse_redis_filter ?s = Inr (node_of q)" using assms by (rule parse_show)
  show "\<forall>k \<ge> ?N. alternatives k [] ?s = alternatives ?N [] ?s"
  proof (intro allI impI)
    fix k assume "?N \<le> k"
    then show "alternatives k [] ?s = alternatives ?N [] ?s"
    proof (induction k rule: dec_induct)
      case (step k)
      then show ?case using more_fuel(1) [of k "[]" ?s] enough_fuel(1) [of ?s k "[]"] by (simp del: alternatives.simps)
    qed simp
  qed
qed

definition demo_query :: ft_query where
  "demo_query = Paren (Seq [Tag_In ''category'' [''category_0''], Paren (Alt [Interval ''tier'' Unbounded (Inclusive ''tier_1_lte''),
     Text_Match ''body'' ''body_2''])])"

lemma demo_readable: "readable demo_query"
  by code_simp

theorem expressions_read_back_witness:
  "parse_redis_filter ''(@category:{$category_0} (@tier:[-inf $tier_1_lte] | @body:($body_2)))'' =
     Inr (R_And [R_Tag ''category'' [''category_0''], R_Or [R_Range ''tier'' None (Some (''tier_1_lte'', False)), R_Text ''body'' ''body_2'']])"
proof -
  have "show_query demo_query = ''(@category:{$category_0} (@tier:[-inf $tier_1_lte] | @body:($body_2)))''" by code_simp
  moreover have "node_of demo_query =
    R_And [R_Tag ''category'' [''category_0''], R_Or [R_Range ''tier'' None (Some (''tier_1_lte'', False)), R_Text ''body'' ''body_2'']]"
    by code_simp
  ultimately show ?thesis using expressions_read_back [OF demo_readable] by simp
qed

text \<open>
  C4: no engine filter that was accepted differs from the predicate the ground truth was computed with.  Let the check
  accept an expression with its bound parameters, for an expression of the parser's grammar, numeric parameters and
  row values that binary64 holds exactly, TAG operands without surrounding blanks and without a semicolon, and a row
  on which the oracle gives an answer.  Then the vector layout, which folds the case of its TAGs and splits and trims
  the stored values, selects every row the oracle counts; and it selects exactly those rows where the stored value is
  one trimmed TAG that differs from the operand in more than case, if it differs.  So no leaf was dropped, no union
  became an intersection and no bound was moved: what is left is the layout's own reading of TAGs, which only adds rows.
\<close>

theorem accepted_filter_means_predicate:
  assumes "compile_predicate c = Inr p" and "check_hybrid_filter p (show_query q, ps) = Inr ()" and "readable q"
    and "exact_bindings (map_of ps)" and "exact_row row" and "plain_operands (map_of ps) q" and "pmatches row p = Inr b"
  shows "(b \<longrightarrow> eval_query (vector_search fold_case) (map_of ps) row q) \<and>
    (tags_apart fold_case (map_of ps) row q \<longrightarrow> eval_query (vector_search fold_case) (map_of ps) row q = b)"
proof -
  have "eval_query row_search (map_of ps) row q = b"
    using accepted_means [OF assms(1,2) parse_show [OF assms(3)] assms(4,5,7)] by (simp add: node_of_holds assms(3))
  with vector_selects_more [OF assms(3,6)] vector_selects_no_more [OF assms(3)] show ?thesis by blast
qed


definition demo_conditions :: json where
  "demo_conditions = Object [(''and'', Array
     [Object [(''category'', Object [(''match'', Object [(''value'', String ''cat00'')])])],
      Object [(''or'', Array
        [Object [(''tier'', Object [(''range'', Object [(''lte'', jnat 3)])])],
         Object [(''body'', Object [(''match'', Object [(''text'', String ''health'')])])]])]])]"

definition demo_params :: "(string \<times> filter_param) list" where
  "demo_params = [(''category_0'', Str_Param ''cat00''), (''tier_1_lte'', Int_Param 3), (''body_2'', Str_Param ''health'')]"

definition demo_predicate :: predicate where
  "demo_predicate = And [Leaf ''category'' (Match_Leaf [Keyword_Op ''cat00'']),
     Or [Leaf ''tier'' (Range_Leaf None None None (Some 3)), Leaf ''body'' (Text_Leaf ''health'')]]"

lemma demo_compiled: "compile_predicate demo_conditions = Inr demo_predicate"
proof -
  have "validate_term ''health'' = Inr ()" by code_simp
  then show ?thesis using f64_of_nat_exact [of 3]
    by (simp add: demo_conditions_def demo_predicate_def compile_predicate_def compile_node.simps compile_leaf_def compile_match_def
        compile_range_def put_bound_def match_operand_def jnat_def MAX_EXACT_INTEGER_def)
qed

lemma demo_accepted: "check_hybrid_filter demo_predicate (show_query demo_query, demo_params) = Inr ()"
  unfolding check_hybrid_filter_def check_redis_filter_def using parse_show [OF demo_readable] rnd64_of_int [of 3]
  by (simp add: demo_query_def demo_params_def demo_predicate_def node_of_def group_of_def walk_leaf_def walk_match_def param_text_def
      param_num_def got_side_def want_side_def require_def map_filter_simps)

theorem accepted_filter_means_predicate_witness:
  "eval_query (vector_search (map to_lower)) (map_of demo_params)
     [''category'' \<mapsto> Keyword_Value ''cat00'', ''tier'' \<mapsto> Int_Value 7, ''body'' \<mapsto> Keyword_Value ''all health''] demo_query \<and>
   \<not> eval_query (vector_search (map to_lower)) (map_of demo_params)
     [''category'' \<mapsto> Keyword_Value ''cat01'', ''tier'' \<mapsto> Int_Value 2, ''body'' \<mapsto> Keyword_Value ''all health''] demo_query"
proof -
  let ?row = "[''category'' \<mapsto> Keyword_Value ''cat00'', ''tier'' \<mapsto> Int_Value 7, ''body'' \<mapsto> Keyword_Value ''all health'']"
  let ?other = "[''category'' \<mapsto> Keyword_Value ''cat01'', ''tier'' \<mapsto> Int_Value 2, ''body'' \<mapsto> Keyword_Value ''all health'']"
  have "classify ''all health'' ''health'' = Yes" by code_simp
  then have m: "pmatches ?row demo_predicate = Inr True" "pmatches ?other demo_predicate = Inr False"
    using rnd64_of_int [of 7] by (simp_all add: demo_predicate_def MAX_EXACT_INTEGER_def none_or_def)
  have r: "exact_row ?row" "exact_row ?other" by (simp_all add: exact_row_def)
  have e: "exact_bindings (map_of demo_params)" by (simp add: exact_bindings_def demo_params_def)
  have "tag_operands demo_query = [(''category'', ''category_0'')]" by (simp add: demo_query_def)
  moreover have "trim ''cat00'' = ''cat00''" "trim ''cat01'' = ''cat01''" "map to_lower ''cat00'' \<noteq> map to_lower ''cat01''" by code_simp+
  ultimately have "plain_operands (map_of demo_params) demo_query" "tags_apart (map to_lower) (map_of demo_params) ?other demo_query"
    by (simp_all add: plain_operands_def tags_apart_def demo_params_def)
  then show ?thesis
    using accepted_filter_means_predicate [OF demo_compiled demo_accepted demo_readable e r(1) _ m(1), of "map to_lower"]
      accepted_filter_means_predicate [OF demo_compiled demo_accepted demo_readable e r(2) _ m(2), of "map to_lower"] by simp
qed


text \<open>
  C32: a union with an integer list as an entry is refused although its filter is right.  Take any \<open>or\<close> of two or more
  matches, each on a field of letters, digits and underscores, by a keyword value or by a list of integers of at most
  \<open>2\<^sup>5\<^sup>3\<close> in size, at least one list having two integers or more.  The condition compiles, the builder makes a filter for
  it that means it, on whatever documents the server holds, and the check refuses that filter: the builder
  writes a list as a parenthesised union of points, which flattening merges into the enclosing union, while the
  predicate keeps the list as one entry.
\<close>

theorem integer_list_in_union_refused:
  assumes "list_all entry_ok es" and "2 \<le> length es" and "e \<in> set es" and "2 \<le> entry_size e"
  shows "\<exists>p f. compile_predicate (union_of es) = Inr p \<and> parse_conditions dt (union_of es) = Some f \<and>
    query_means S f (condition_holds S dt (union_of es)) \<and> check_hybrid_filter p f = Inl Mismatch"
proof -
  from assms(2) have ne: "es \<noteq> []" by auto
  from union_built [OF assms(1) ne] obtain ps where
    f: "parse_conditions dt (union_of es) = Some (show_query (Paren (Alt (entry_queries 0 es))), ps)" by blast
  have "query_means S (show_query (Paren (Alt (entry_queries 0 es))), ps) (condition_holds S dt (union_of es))"
    using parse_conditions_means [OF union_supported [OF assms(1) ne], of dt S] filter_means_query unfolding f by blast
  with f union_compiles [OF assms(1) ne] union_refused [OF assms(1,2)] long_list_adds [OF assms(1,3,4)] show ?thesis
    by (metis less_irrefl)
qed

theorem integer_list_in_union_refused_witness:
  "\<exists>p f. check_hybrid_filter p f = Inl Mismatch \<and> parse_conditions (\<lambda>_. None) (Object [(''or'', Array
       [Object [(''tier'', Object [(''match'', Object [(''any'', Array [jnat 1, jnat 2])])])],
        Object [(''category'', Object [(''match'', Object [(''value'', String ''cat00'')])])]])]) = Some f"
proof -
  let ?es = "[Int_List ''tier'' [jnat 1, jnat 2], Keyword_Value_Of ''category'' ''cat00'']"
  have "clean_name ''tier''" "clean_name ''category''" by code_simp+
  then have "list_all entry_ok ?es" by (simp add: entry_ok_def jnat_def)
  from integer_list_in_union_refused [OF this, of "Int_List ''tier'' [jnat 1, jnat 2]" "\<lambda>_. None" row_search] show ?thesis
    by (auto simp: union_of_def)
qed

end
