(* ===== verification/Opensearch_Filter.thy ===== *)
theory Opensearch_Filter
  imports Hybrid_Filter
begin

text \<open>
  The boolean filters of OpenSearch and Elasticsearch: \<open>parse_os_conditions\<close> and \<open>parse_es_conditions\<close> with the
  functions they call (\<open>src/src/bin/vector_db_benchmark/engine/opensearch.rs\<close> and \<open>elasticsearch.rs\<close>), the check of
  a built filter against its condition and the check of a predicate against the schema (\<open>src/src/hybrid.rs\<close>).

  A JSON object lists its entries in key order, as \<open>serde_json::Map\<close> does; how a double is written is a parameter.
\<close>

section \<open>Building\<close>

type_synonym show_real = "real \<Rightarrow> string"

definition bool_query :: "json list option \<Rightarrow> json list option \<Rightarrow> json option" where
  "bool_query and_filters or_filters =
     (if and_filters = None \<and> or_filters = None then None
      else
        let b1 = (case and_filters of Some fs \<Rightarrow> obj_insert ''must'' (Array fs) [] | None \<Rightarrow> []);
            b2 = (case or_filters of
                Some fs \<Rightarrow> obj_insert ''minimum_should_match'' (jnat 1) (obj_insert ''should'' (Array fs) b1)
              | None \<Rightarrow> b1)
        in Some (Object [(''bool'', Object b2)]))"

definition nonempty :: "'a list option \<Rightarrow> 'a list option" where
  "nonempty fs = (case fs of Some (x # xs) \<Rightarrow> Some (x # xs) | _ \<Rightarrow> None)"

definition single_query :: "string \<Rightarrow> string \<Rightarrow> json \<Rightarrow> json" where
  "single_query kind field v = Object [(kind, Object [(field, v)])]"

fun is_scalar_value :: "json \<Rightarrow> bool" where
  "is_scalar_value (String _) = True"
| "is_scalar_value (Number _) = True"
| "is_scalar_value (Bool _) = True"
| "is_scalar_value _ = False"

definition os_range_object :: "(string \<times> json) list \<Rightarrow> (string \<times> json) list" where
  "os_range_object criteria = foldl (\<lambda>range key. case map_of criteria key of
       Some v \<Rightarrow> if is_null v then range else obj_insert key v range
     | None \<Rightarrow> range) [] [''lt'', ''gt'', ''lte'', ''gte'']"

definition geo_query :: "show_real \<Rightarrow> string \<Rightarrow> json \<Rightarrow> json option" where
  "geo_query shw field criteria = (case (jget ''lat'' criteria, jget ''lon'' criteria) of
       (Some la, Some lo) \<Rightarrow>
         let radius = (case Option.bind (jget ''radius'' criteria) as_f64 of Some r \<Rightarrow> r | None \<Rightarrow> 1000) in
         Some (Object [(''geo_distance'', Object (obj_insert field (Object [(''lat'', la), (''lon'', lo)])
           [(''distance'', String (shw radius @ ''m''))]))])
     | _ \<Rightarrow> None)"

definition os_filter :: "show_real \<Rightarrow> string \<Rightarrow> string \<Rightarrow> json \<Rightarrow> json option" where
  "os_filter shw field condition_type criteria =
     (if condition_type = ''match'' then
        (case Option.bind (jget ''any'' criteria) as_array of
           Some any \<Rightarrow> Some (single_query ''terms'' field (Array any))
         | None \<Rightarrow>
             (case jget ''text'' criteria of
                Some t \<Rightarrow> Some (single_query ''match'' field t)
              | None \<Rightarrow>
                  (case jget ''value'' criteria of
                     Some v \<Rightarrow> if is_scalar_value v then Some (single_query ''match'' field v) else None
                   | None \<Rightarrow> None)))
      else if condition_type = ''range'' then
        map_option (\<lambda>es. single_query ''range'' field (Object (os_range_object es))) (as_object criteria)
      else if condition_type = ''geo'' then geo_query shw field criteria
      else None)"

definition os_leaves :: "show_real \<Rightarrow> (string \<times> json) list \<Rightarrow> json list" where
  "os_leaves shw es = concat (map (\<lambda>(field, ops). case as_object ops of
       Some os \<Rightarrow> List.map_filter (\<lambda>(ct, criteria). os_filter shw field ct criteria) os
     | None \<Rightarrow> []) es)"

function os_group :: "show_real \<Rightarrow> (string \<times> json) list \<Rightarrow> json option"
  and os_subfilters :: "show_real \<Rightarrow> json list \<Rightarrow> json list" where
  "os_group shw es =
     bool_query
       (nonempty (case group_entries ''and'' es of Some xs \<Rightarrow> Some (os_subfilters shw xs) | None \<Rightarrow> None))
       (nonempty (case group_entries ''or'' es of Some xs \<Rightarrow> Some (os_subfilters shw xs) | None \<Rightarrow> None))"
| "os_subfilters shw [] = []"
| "os_subfilters shw (x # xs) =
     (case as_object x of
        None \<Rightarrow> []
      | Some es \<Rightarrow>
          if is_group es then (case os_group shw es of Some f \<Rightarrow> [f] | None \<Rightarrow> []) else os_leaves shw es) @
     os_subfilters shw xs"
  by pat_completeness auto
termination
  by (relation "measure (case_sum (\<lambda>(_, es). size_list (size_prod (\<lambda>_. 0) size) es) (\<lambda>(_, xs). size_list size xs))")
    (auto simp: group_entries_size as_object_iff)

declare os_group.simps [simp del] os_subfilters.simps(2) [simp del]

definition parse_os_conditions :: "show_real \<Rightarrow> json \<Rightarrow> json option" where
  "parse_os_conditions shw conditions = (case as_object conditions of
       None \<Rightarrow> None
     | Some es \<Rightarrow> if es = [] then None else os_group shw es)"

text \<open>Elasticsearch: a nested group is parsed by the entry point again; the leaves are the same.\<close>

function parse_es_conditions :: "show_real \<Rightarrow> json \<Rightarrow> json option"
  and es_subfilters :: "show_real \<Rightarrow> json list \<Rightarrow> json list" where
  "parse_es_conditions shw conditions = (case as_object conditions of
       None \<Rightarrow> None
     | Some es \<Rightarrow>
         if es = [] then None
         else bool_query
           (nonempty (case group_entries ''and'' es of Some xs \<Rightarrow> Some (es_subfilters shw xs) | None \<Rightarrow> None))
           (nonempty (case group_entries ''or'' es of Some xs \<Rightarrow> Some (es_subfilters shw xs) | None \<Rightarrow> None)))"
| "es_subfilters shw [] = []"
| "es_subfilters shw (x # xs) =
     (case as_object x of
        None \<Rightarrow> []
      | Some es \<Rightarrow>
          if is_group es then (case parse_es_conditions shw x of Some f \<Rightarrow> [f] | None \<Rightarrow> []) else os_leaves shw es) @
     es_subfilters shw xs"
  by pat_completeness auto
termination
  by (relation "measure (case_sum (\<lambda>(_, v). size v) (\<lambda>(_, xs). size_list size xs))")
    (auto simp: as_object_iff dest!: group_entries_size)

declare parse_es_conditions.simps [simp del] es_subfilters.simps(2) [simp del]

section \<open>Checking\<close>

datatype os_refusal =
    Condition_Not_Object
  | Empty_Condition
  | Group_Not_Array
  | No_Bool_Query string
  | Other_Clause string
  | No_Minimum
  | No_Slot string
  | Leaf_Dropped nat nat
  | Leaf_Without_Operation
  | Unsupported_Match string
  | Unsupported_Operation string string
  | Leaf_Differs string

text \<open>The children of a rendered group.\<close>

definition os_slot :: "string \<Rightarrow> json \<Rightarrow> os_refusal + json list" where
  "os_slot key f =
     rbind (ok_or (No_Bool_Query key) (Option.bind (jget ''bool'' f) as_object)) (\<lambda>b.
       let (slot, other) = (if key = ''and'' then (''must'', ''should'') else (''should'', ''must'')) in
       if map_of b other \<noteq> None then Inl (Other_Clause key)
       else if key = ''or'' \<and> map_of b ''minimum_should_match'' \<noteq> Some (jnat 1) then Inl No_Minimum
       else ok_or (No_Slot key) (Option.bind (map_of b slot) as_array))"

definition expected_leaf :: "string \<Rightarrow> json \<Rightarrow> os_refusal + json" where
  "expected_leaf field body = (case as_object body of
       Some ((op, crit) # _) \<Rightarrow>
         if op = ''match'' then
           (case jget ''text'' crit of
              Some t \<Rightarrow> Inr (single_query ''match'' field t)
            | None \<Rightarrow>
                (case jget ''any'' crit of
                   Some any \<Rightarrow> Inr (single_query ''terms'' field any)
                 | None \<Rightarrow>
                     (case jget ''value'' crit of
                        Some v \<Rightarrow> Inr (single_query ''match'' field v)
                      | None \<Rightarrow> Inl (Unsupported_Match field))))
         else if op = ''range'' then Inr (single_query ''range'' field crit)
         else Inl (Unsupported_Operation field op)
     | _ \<Rightarrow> Inl Leaf_Without_Operation)"

function check_opensearch_filter :: "json \<Rightarrow> json \<Rightarrow> os_refusal + unit" where
  "check_opensearch_filter c f = (case c of
       Object [] \<Rightarrow> Inl Empty_Condition
     | Object ((key, body) # _) \<Rightarrow>
         if key = ''and'' \<or> key = ''or'' then
           (case body of
              Array kids \<Rightarrow>
                (case os_slot key f of
                   Inl e \<Rightarrow> Inl e
                 | Inr fk \<Rightarrow>
                     if length fk \<noteq> length kids then Inl (Leaf_Dropped (length kids) (length fk))
                     else check_each (\<lambda>(k, g). check_opensearch_filter k g) (zip kids fk))
            | _ \<Rightarrow> Inl Group_Not_Array)
         else rbind (expected_leaf key body) (\<lambda>e. if f \<noteq> e then Inl (Leaf_Differs key) else Inr ())
     | _ \<Rightarrow> Inl Condition_Not_Object)"
  by pat_completeness auto
termination
proof (relation "measure (\<lambda>(c, _). size c)", goal_cases)
  case (2 c f es e rest key body kids fk x k g)
  then show ?case using zip_left_smaller [of k g kids fk] by auto
qed simp

declare check_opensearch_filter.simps [simp del]

datatype schema_refusal =
    No_Hybrid_Schema
  | Field_Not_In_Schema string
  | Leaf_Does_Not_Fit string leaf string

definition leaf_fits :: "string \<Rightarrow> leaf \<Rightarrow> bool" where
  "leaf_fits ty l = (case l of
       Text_Leaf _ \<Rightarrow> ty = ''text''
     | Range_Leaf _ _ _ _ \<Rightarrow> ty = ''int''
     | Match_Leaf ops \<Rightarrow> list_all (\<lambda>x. case x of Keyword_Op _ \<Rightarrow> ty = ''keyword'' | Int_Op _ \<Rightarrow> ty = ''int'') ops)"

definition validate_against_schema :: "predicate \<Rightarrow> json option \<Rightarrow> schema_refusal + unit" where
  "validate_against_schema p schema =
     rbind (ok_or No_Hybrid_Schema (Option.bind schema as_object)) (\<lambda>es.
       check_each (\<lambda>(field, l).
         rbind (ok_or (Field_Not_In_Schema field) (Option.bind (map_of es field) as_string)) (\<lambda>ty.
           if leaf_fits ty l then Inr () else Inl (Leaf_Does_Not_Fit field l ty))) (leaves p))"

section \<open>What the engines select\<close>

text \<open>
  The documented meaning of a \<open>bool\<close> query: every \<open>must\<close> clause holds and at least \<open>minimum_should_match\<close> of the
  \<open>should\<close> clauses, by default one of them where there is no \<open>must\<close> clause and none otherwise.  A term is compared
  as the field's type says: the analyzed text, the exact keyword, the number.
\<close>

fun value_holds :: "string \<Rightarrow> field_value option \<Rightarrow> json \<Rightarrow> bool" where
  "value_holds ty (Some (Keyword_Value s)) (String t) \<longleftrightarrow> (if ty = ''text'' then classify s t = Yes else ty = ''keyword'' \<and> s = t)"
| "value_holds ty (Some (Int_Value n)) v \<longleftrightarrow> ty = ''int'' \<and> as_i64 v = Some n"
| "value_holds _ _ _ \<longleftrightarrow> False"

definition bound_holds :: "string \<Rightarrow> real \<Rightarrow> real \<Rightarrow> bool" where
  "bound_holds key x b \<longleftrightarrow>
     (if key = ''gt'' then x > b else if key = ''gte'' then x \<ge> b else if key = ''lt'' then x < b else key = ''lte'' \<and> x \<le> b)"

fun range_holds :: "string \<Rightarrow> field_value option \<Rightarrow> (string \<times> json) list \<Rightarrow> bool" where
  "range_holds ty (Some (Int_Value n)) es \<longleftrightarrow>
     ty = ''int'' \<and> (\<forall>(key, v) \<in> set es. \<exists>b. as_f64 v = Some b \<and> bound_holds key (of_int n) b)"
| "range_holds _ _ _ \<longleftrightarrow> False"

definition field_type :: "(string \<times> json) list \<Rightarrow> string \<Rightarrow> string" where
  "field_type schema field = (case Option.bind (map_of schema field) as_string of Some ty \<Rightarrow> ty | None \<Rightarrow> [])"

fun leaf_query_holds :: "(string \<times> json) list \<Rightarrow> row_fields \<Rightarrow> string \<Rightarrow> json \<Rightarrow> bool" where
  "leaf_query_holds schema row kind (Object [(field, v)]) \<longleftrightarrow>
     (if kind = ''match'' then value_holds (field_type schema field) (row field) v
      else if kind = ''terms'' then
        (case v of Array vs \<Rightarrow> \<exists>u \<in> set vs. value_holds (field_type schema field) (row field) u | _ \<Rightarrow> False)
      else if kind = ''range'' then
        (case v of Object es \<Rightarrow> range_holds (field_type schema field) (row field) es | _ \<Rightarrow> False)
      else False)"
| "leaf_query_holds _ _ _ _ \<longleftrightarrow> False"

definition clauses :: "string \<Rightarrow> (string \<times> json) list \<Rightarrow> json list" where
  "clauses key b = (case Option.bind (map_of b key) as_array of Some fs \<Rightarrow> fs | None \<Rightarrow> [])"

definition minimum :: "(string \<times> json) list \<Rightarrow> nat" where
  "minimum b = (case Option.bind (map_of b ''minimum_should_match'') as_u64 of
       Some n \<Rightarrow> n
     | None \<Rightarrow> if map_of b ''must'' = None \<and> map_of b ''filter'' = None \<and> map_of b ''should'' \<noteq> None then 1 else 0)"

lemma clause_smaller [termination_simp]:
  "x \<in> set (clauses key b) \<Longrightarrow> size x < Suc (size_list (size_prod (\<lambda>_. 0) size) b)"
proof (induction b)
  case (Cons e b)
  have "size x < size (Array fs)" if "x \<in> set fs" for fs
    using that size_list_estimation' [of x fs "size x" size] by auto
  with Cons show ?case by (cases e) (fastforce simp: clauses_def as_array_iff split: if_splits option.splits)
qed (simp add: clauses_def)

function os_holds :: "(string \<times> json) list \<Rightarrow> row_fields \<Rightarrow> json \<Rightarrow> bool" where
  "os_holds schema row f \<longleftrightarrow> (case f of
       Object [(kind, body)] \<Rightarrow>
         if kind = ''bool'' then
           (case body of
              Object b \<Rightarrow>
                list_all (os_holds schema row) (clauses ''must'' b) \<and> list_all (os_holds schema row) (clauses ''filter'' b) \<and>
                \<not> list_ex (os_holds schema row) (clauses ''must_not'' b) \<and>
                minimum b \<le> length (filter (os_holds schema row) (clauses ''should'' b))
            | _ \<Rightarrow> False)
         else leaf_query_holds schema row kind body
     | _ \<Rightarrow> False)"
  by pat_completeness auto
termination
  by (relation "measure (\<lambda>(_, _, f). size f)") (auto dest!: clause_smaller)

declare os_holds.simps [simp del]

text \<open>No \<open>filter\<close> and no \<open>must_not\<close> clause, no second query beside a \<open>bool\<close>, and a minimum only with \<open>should\<close>.\<close>

function plain_filter :: "json \<Rightarrow> bool" where
  "plain_filter f \<longleftrightarrow> (case f of
       Object [(kind, Object b)] \<Rightarrow>
         kind = ''bool'' \<longrightarrow> map_of b ''filter'' = None \<and> map_of b ''must_not'' = None \<and>
           (map_of b ''should'' = None \<longrightarrow> map_of b ''minimum_should_match'' = None) \<and>
           list_all plain_filter (clauses ''must'' b) \<and> list_all plain_filter (clauses ''should'' b)
     | _ \<Rightarrow> False)"
  by pat_completeness auto
termination
  by (relation "measure size") (auto dest!: clause_smaller)

declare plain_filter.simps [simp del]

section \<open>An accepted filter means the predicate\<close>

lemma operands_hold:
  assumes "list_all2 (\<lambda>v x. match_operand field v = Inr x) vs ops" and "leaf_fits ty (Match_Leaf ops)"
    and "match_leaf field (Match_Leaf ops) fv = Inr b"
  shows "(\<exists>u \<in> set vs. value_holds ty (Some fv) u) = b"
proof (cases fv)
  case (Keyword_Value s)
  with assms(3) have all: "\<forall>x \<in> set ops. \<exists>k. x = Keyword_Op k" and b: "b = (Keyword_Op s \<in> set ops)"
    by (auto simp: match_keyword_eq list_all_iff split: if_splits)
  have ty: "ty = ''keyword''" if "vs \<noteq> []"
    using that assms(1,2) all by (cases ops) (auto simp: leaf_fits_def)
  have "u = String k" if "match_operand field u = Inr (Keyword_Op k)" for u k
    using that by (auto simp: match_operand_def as_string_iff split: option.splits if_splits)
  then have s: "\<forall>u \<in> set vs. \<exists>k. u = String k \<and> Keyword_Op k \<in> set ops"
    using all list_all2_partner [OF assms(1)] by metis
  have t: "\<forall>x \<in> set ops. \<exists>k. x = Keyword_Op k \<and> String k \<in> set vs"
  proof
    fix x assume "x \<in> set ops"
    with all list_all2_partner' [OF assms(1)] obtain k u where "x = Keyword_Op k" "u \<in> set vs" "match_operand field u = Inr x" by blast
    then show "\<exists>k. x = Keyword_Op k \<and> String k \<in> set vs"
      by (auto simp: match_operand_def as_string_iff split: option.splits if_splits)
  qed
  show ?thesis
  proof (cases "vs = []")
    case False
    with ty have "ty = ''keyword''" .
    moreover have "value_holds ''keyword'' (Some (Keyword_Value s)) u \<longleftrightarrow> u = String s" for u by (cases u) auto
    moreover have "String s \<in> set vs \<longleftrightarrow> Keyword_Op s \<in> set ops" using s t by blast
    ultimately show ?thesis using Keyword_Value b by simp
  qed (use b t in auto)
next
  case (Int_Value n)
  with assms(3) have all: "\<forall>x \<in> set ops. \<exists>k. x = Int_Op k" and b: "b = (Int_Op n \<in> set ops)"
    by (auto simp: match_int_eq list_all_iff split: if_splits)
  have ty: "ty = ''int''" if "vs \<noteq> []"
    using that assms(1,2) all by (cases ops) (auto simp: leaf_fits_def)
  have i: "as_i64 u = Some k" if "match_operand field u = Inr (Int_Op k)" for u k
    using that by (auto simp: match_operand_def split: option.splits if_splits)
  then have s: "\<forall>u \<in> set vs. \<exists>k. as_i64 u = Some k \<and> Int_Op k \<in> set ops"
    using all list_all2_partner [OF assms(1)] by metis
  have t: "\<forall>x \<in> set ops. \<exists>k. x = Int_Op k \<and> (\<exists>u \<in> set vs. as_i64 u = Some k)"
    using all i list_all2_partner' [OF assms(1)] by metis
  show ?thesis
  proof (cases "vs = []")
    case False
    with ty have "ty = ''int''" .
    moreover have "(\<exists>u \<in> set vs. as_i64 u = Some n) \<longleftrightarrow> Int_Op n \<in> set ops"
      using s t by (metis operand.inject(2) option.inject)
    ultimately show ?thesis using Int_Value b by simp
  qed (use b t in auto)
qed (use assms(3) in auto)

lemma single_query_holds:
  "kind \<noteq> ''bool'' \<Longrightarrow> os_holds schema row (single_query kind field v) = leaf_query_holds schema row kind (Object [(field, v)])"
  by (simp add: single_query_def os_holds.simps [of schema row "Object [(kind, Object [(field, v)])]"])

lemma value_holds_None [simp]: "\<not> value_holds ty None v"
  by simp

lemma text_query_holds:
  assumes "leaf_fits ty (Text_Leaf t)" and "pmatches row (Leaf field (Text_Leaf t)) = Inr b"
  shows "value_holds ty (row field) (String t) = b"
proof (cases "row field")
  case (Some fv)
  with assms show ?thesis by (cases fv) (auto simp: leaf_fits_def split: text_match.splits)
qed (use assms in auto)

lemma range_query_holds:
  assumes f: "ffold (put_bound field) (None, None, None, None) es = Inr (gt, gte, lt, lte)" and wf: "distinct (map fst es)"
    and fit: "leaf_fits ty (Range_Leaf gt gte lt lte)" and r: "exact_row row"
    and m: "pmatches row (Leaf field (Range_Leaf gt gte lt lte)) = Inr b"
  shows "range_holds ty (row field) es = b"
proof (cases "row field")
  case (Some fv)
  note b = put_bounds [OF f wf]
  show ?thesis
  proof (cases fv)
    case (Int_Value n)
    with r Some have n: "\<bar>n\<bar> \<le> 2 ^ 53" by (auto simp: exact_row_def)
    have "(\<forall>(key, v) \<in> set es. \<exists>x. as_f64 v = Some x \<and> bound_holds key (of_int n) x) \<longleftrightarrow>
        none_or (\<lambda>x. of_int n > x) gt \<and> none_or (\<lambda>x. of_int n \<ge> x) gte \<and> none_or (\<lambda>x. of_int n < x) lt \<and>
        none_or (\<lambda>x. of_int n \<le> x) lte" (is "?L \<longleftrightarrow> ?R")
    proof
      assume L: ?L
      have "none_or P (bound_of es key None)" if "\<And>x. bound_holds key (of_int n) x \<Longrightarrow> P x" for key P
        using L that by (fastforce simp: bound_of_def none_or_def split: option.splits dest: map_of_SomeD)
      with b show ?R by (auto simp: bound_holds_def)
    next
      assume R: ?R
      show ?L
      proof clarify
        fix key v assume kv: "(key, v) \<in> set es"
        with b obtain x where k: "key \<in> {''gt'', ''gte'', ''lt'', ''lte''}" "as_f64 v = Some x" by fastforce
        then have "bound_of es key None = Some x" using map_of_is_SomeI [OF wf kv] by (simp add: bound_of_def)
        with R b k show "\<exists>x. as_f64 v = Some x \<and> bound_holds key (of_int n) x"
          by (auto simp: bound_holds_def none_or_def)
      qed
    qed
    with Some Int_Value m n fit show ?thesis
      by (auto simp: leaf_fits_def MAX_EXACT_INTEGER_def rnd64_of_int Let_def)
  qed (use Some m in auto)
qed (use m in auto)

definition match_case :: "string \<Rightarrow> string \<Rightarrow> json \<Rightarrow> leaf \<Rightarrow> bool" where
  "match_case field key v l \<longleftrightarrow>
     (\<exists>t. key = ''text'' \<and> v = String t \<and> l = Text_Leaf t) \<or>
     (\<exists>x. key = ''value'' \<and> match_operand field v = Inr x \<and> l = Match_Leaf [x]) \<or>
     (\<exists>vs ops. key = ''any'' \<and> v = Array vs \<and> list_all2 (\<lambda>v x. match_operand field v = Inr x) vs ops \<and> l = Match_Leaf ops)"

lemma compile_match_cases:
  assumes "compile_match field crit = Inr l"
  obtains key v where "crit = Object [(key, v)]" and "match_case field key v l"
proof -
  from assms obtain key v where crit: "crit = Object [(key, v)]"
    by (auto simp: compile_match_def as_object_iff split: option.splits list.splits)
  moreover from assms have "match_case field key v l"
    unfolding crit match_case_def
    by (auto simp: compile_match_def as_string_iff as_array_iff traverse_Inr_iff simp del: traverse.simps
        split: if_splits option.splits list.splits)
  ultimately show ?thesis by (rule that)
qed

lemma leaf_query_means:
  assumes "compile_leaf field body = Inr l" and "leaf_fits (field_type schema field) l" and "expected_leaf field body = Inr e"
    and "wf_json body" and "exact_row row" and m: "pmatches row (Leaf field l) = Inr b"
  shows "os_holds schema row e = b"
proof -
  from assms(1) obtain op crit where body: "body = Object [(op, crit)]" and op: "op = ''match'' \<or> op = ''range''"
    by (auto simp: compile_leaf_def as_object_iff split: option.splits list.splits if_splits)
  show ?thesis
  proof (cases "op = ''match''")
    case True
    with assms(1) body have "compile_match field crit = Inr l" by (simp add: compile_leaf_def)
    then obtain key v where crit: "crit = Object [(key, v)]" and c: "match_case field key v l" by (rule compile_match_cases)
    from c [unfolded match_case_def] consider (term_case) t where "key = ''text''" "v = String t" "l = Text_Leaf t"
      | (val) x where "key = ''value''" "match_operand field v = Inr x" "l = Match_Leaf [x]"
      | (any) vs ops where "key = ''any''" "v = Array vs" "list_all2 (\<lambda>v x. match_operand field v = Inr x) vs ops" "l = Match_Leaf ops"
      by blast
    then show ?thesis
    proof cases
      case term_case
      with assms(3) body crit True have "e = single_query ''match'' field v" by (simp add: expected_leaf_def)
      with term_case text_query_holds assms(2) m show ?thesis by (auto simp: single_query_holds)
    next
      case val
      with assms(3) body crit True have e: "e = single_query ''match'' field v" by (simp add: expected_leaf_def)
      show ?thesis
      proof (cases "row field")
        case (Some fv)
        then show ?thesis using e val operands_hold [of field "[v]" "[x]"] assms(2) m by (auto simp: single_query_holds)
      qed (use e m in \<open>auto simp: single_query_holds\<close>)
    next
      case any
      with assms(3) body crit True have e: "e = single_query ''terms'' field (Array vs)" by (simp add: expected_leaf_def)
      show ?thesis
      proof (cases "row field")
        case (Some fv)
        then show ?thesis using e any operands_hold [OF any(3)] assms(2) m by (auto simp: single_query_holds)
      qed (use e m in \<open>auto simp: single_query_holds\<close>)
    qed
  next
    case False
    with assms(1) body op have c: "compile_range field crit = Inr l" by (simp add: compile_leaf_def)
    then obtain es gt gte lt lte where crit: "crit = Object es" and l: "l = Range_Leaf gt gte lt lte"
      and f: "ffold (put_bound field) (None, None, None, None) es = Inr (gt, gte, lt, lte)"
      by (auto simp: compile_range_def as_object_iff split: option.splits list.splits if_splits)
    have e: "e = single_query ''range'' field (Object es)" using assms(3) body False op crit by (simp add: expected_leaf_def)
    from assms(4) body crit have "distinct (map fst es)" by simp
    from range_query_holds [OF f this assms(2) [unfolded l] assms(5) m [unfolded l]] e show ?thesis
      by (simp add: single_query_holds)
  qed
qed

lemma clauses_simps [simp]:
  "map_of b key = None \<Longrightarrow> clauses key b = []" "map_of b key = Some (Array fs) \<Longrightarrow> clauses key b = fs"
  by (simp_all add: clauses_def)

lemma plain_single:
  assumes "plain_filter (Object es)"
  shows "\<exists>kind body. es = [(kind, Object body)]"
  using assms unfolding plain_filter.simps [of "Object es"] by (auto split: list.splits json.splits prod.splits) (metis list.exhaust prod.exhaust)+

lemma bool_query_simps [simp]:
  "plain_filter (Object [(''bool'', Object b)]) \<longleftrightarrow> map_of b ''filter'' = None \<and> map_of b ''must_not'' = None \<and>
     (map_of b ''should'' = None \<longrightarrow> map_of b ''minimum_should_match'' = None) \<and>
     list_all plain_filter (clauses ''must'' b) \<and> list_all plain_filter (clauses ''should'' b)"
  "os_holds schema row (Object [(''bool'', Object b)]) \<longleftrightarrow>
     list_all (os_holds schema row) (clauses ''must'' b) \<and> list_all (os_holds schema row) (clauses ''filter'' b) \<and>
     \<not> list_ex (os_holds schema row) (clauses ''must_not'' b) \<and>
     minimum b \<le> length (filter (os_holds schema row) (clauses ''should'' b))"
  by (simp_all add: plain_filter.simps [of "Object [(''bool'', Object b)]"] os_holds.simps [of _ _ "Object [(''bool'', Object b)]"])

lemma os_slotD:
  assumes "os_slot key f = Inr fk" and "plain_filter f" and "key = ''and'' \<or> key = ''or''"
  shows "os_holds schema row f \<longleftrightarrow>
      (if key = ''and'' then \<forall>g \<in> set fk. os_holds schema row g else \<exists>g \<in> set fk. os_holds schema row g)"
    and "\<forall>g \<in> set fk. plain_filter g"
proof -
  from assms(1) obtain b where b: "jget ''bool'' f = Some (Object b)"
    by (auto simp: os_slot_def as_object_iff rbind_Inr_iff ok_or_Inr_iff bind_eq_Some_conv)
  then obtain es where es: "f = Object es" "map_of es ''bool'' = Some (Object b)" by (auto simp: jget_Object_iff)
  with plain_single [of es] assms(2) have f: "f = Object [(''bool'', Object b)]" by (auto split: if_splits)
  with assms(2) have plain: "map_of b ''filter'' = None" "map_of b ''must_not'' = None"
      "map_of b ''should'' = None \<Longrightarrow> map_of b ''minimum_should_match'' = None"
      "list_all plain_filter (clauses ''must'' b)" "list_all plain_filter (clauses ''should'' b)"
    by simp_all
  have n: "(\<exists>g \<in> set fk. P g) \<longleftrightarrow> Suc 0 \<le> length (filter P fk)" for P :: "json \<Rightarrow> bool"
    by (induction fk) auto
  from assms(1,3) b consider "key = ''and''" "map_of b ''should'' = None" "map_of b ''must'' = Some (Array fk)"
    | "key = ''or''" "map_of b ''must'' = None" "map_of b ''minimum_should_match'' = Some (jnat 1)" "map_of b ''should'' = Some (Array fk)"
    by (auto simp: os_slot_def as_array_iff ok_or_Inr_iff bind_eq_Some_conv split: if_splits)
  note slot = this
  show "os_holds schema row f \<longleftrightarrow>
      (if key = ''and'' then \<forall>g \<in> set fk. os_holds schema row g else \<exists>g \<in> set fk. os_holds schema row g)"
    using slot by cases (use plain f n in \<open>simp_all add: minimum_def list_all_iff jnat_def\<close>)
  show "\<forall>g \<in> set fk. plain_filter g"
    using slot by cases (use plain in \<open>simp_all add: list_all_iff\<close>)
qed

definition fits_schema :: "(string \<times> json) list \<Rightarrow> predicate \<Rightarrow> bool" where
  "fits_schema schema p \<longleftrightarrow> (\<forall>(field, l) \<in> set (leaves p). leaf_fits (field_type schema field) l)"

lemma validated_fits: "validate_against_schema p (Some (Object schema)) = Inr () \<Longrightarrow> fits_schema schema p"
  by (fastforce simp: validate_against_schema_def fits_schema_def field_type_def rbind_Inr_iff split: if_splits)

lemma group_matches:
  assumes "list_all2 (\<lambda>h p. \<forall>b. pmatches row p = Inr b \<longrightarrow> h = b) hs ps"
  shows "all_match row ps = Inr b \<Longrightarrow> list_all id hs = b" and "any_match row ps = Inr b \<Longrightarrow> list_ex id hs = b"
  using assms by (induction arbitrary: b rule: list_all2_induct) (auto split: if_splits)

lemma check_means:
  assumes "compile_node c = Inr p" and "check_opensearch_filter c f = Inr ()" and "plain_filter f" and "wf_json c"
    and "fits_schema schema p" and "exact_row row" and "pmatches row p = Inr b"
  shows "os_holds schema row f = b"
  using assms(1-5,7)
proof (induction c arbitrary: p f b rule: compile_node.induct)
  case (1 v)
  from 1(2) show ?case
  proof (cases rule: compile_node_InrE)
    case (group key x xs children)
    define body where "body = Array (x # xs)"
    note v = group(1) [folded body_def]
    obtain fk where fk: "os_slot key f = Inr fk" "length fk = length (x # xs)"
      "check_each (\<lambda>(k, g). check_opensearch_filter k g) (zip (x # xs) fk) = Inr ()"
      using 1(3) group(2) unfolding group(1) check_opensearch_filter.simps [of "Object [(key, Array (x # xs))]"]
      by (auto simp del: check_each_Inr_iff check_each.simps zip.simps split: sum.splits if_splits)
    then have each: "check_opensearch_filter k g = Inr ()" if "(k, g) \<in> set (zip (x # xs) fk)" for k g
      using that by (fastforce simp del: zip.simps check_each.simps)
    note slot = os_slotD [OF fk(1) 1(4) group(2)]
    have "list_all2 (\<lambda>g p. \<forall>b. pmatches row p = Inr b \<longrightarrow> os_holds schema row g = b) fk children"
    proof (rule list_all2I, clarify)
      fix g q assume "(g, q) \<in> set (zip fk children)"
      then obtain i where i: "i < length fk" "g = fk ! i" "q = children ! i" "i < length children"
        by (auto simp: set_zip)
      let ?y = "(x # xs) ! i"
      have y: "?y \<in> set (x # xs)" "compile_node ?y = Inr q" "(?y, g) \<in> set (zip (x # xs) fk)" "g \<in> set fk" "q \<in> set children"
      proof -
        have len: "i < length (x # xs)" using i(1) fk(2) by simp
        then show "?y \<in> set (x # xs)" by (rule nth_mem)
        show "compile_node ?y = Inr q" using list_all2_nthD [OF group(3) len] i(3) by simp
        have "i < length (zip (x # xs) fk)" using len i(1) by simp
        from nth_mem [OF this] nth_zip [OF len i(1)] show "(?y, g) \<in> set (zip (x # xs) fk)" unfolding i(2) by (rule subst [rotated])
        show "g \<in> set fk" "q \<in> set children" using i by simp_all
      qed
      have fits: "fits_schema schema q" using 1(6) group(4) y(5) by (auto simp: fits_schema_def split: if_splits)
      have wf: "wf_json ?y" using 1(5) y(1) unfolding group(1) by auto
      fix b assume m: "pmatches row q = Inr b"
      have "plain_filter g" using slot(2) y(4) by blast
      from 1(1) [OF v refl refl refl group(2) body_def refl y(1,2) each [OF y(3)] this wf fits m]
      show "os_holds schema row g = b" .
    qed (use fk(2) group(3) in \<open>simp add: list_all2_lengthD [symmetric]\<close>)
    then have "list_all2 (\<lambda>h p. \<forall>b. pmatches row p = Inr b \<longrightarrow> h = b) (map (os_holds schema row) fk) children"
      by (simp add: list_all2_map1)
    from group_matches [OF this] show ?thesis
      using 1(7) group(2,4) slot(1) by (auto simp: list_all_iff list_ex_iff split: if_splits)
  next
    case (leaf key body l)
    from 1(3) leaf(2,3) obtain e where e: "expected_leaf key body = Inr e" "f = e"
      unfolding leaf(1) check_opensearch_filter.simps [of "Object [(key, body)]"] by (auto simp: rbind_Inr_iff split: if_splits)
    have "leaf_fits (field_type schema key) l" "wf_json body" using 1(5,6) leaf by (auto simp: fits_schema_def)
    then show ?thesis using leaf_query_means [OF leaf(4) _ e(1) _ assms(6)] 1(7) leaf(5) e(2) by blast
  qed
qed

section \<open>The builder's filter is accepted\<close>

text \<open>A value as it was parsed: every object lists its entries in key order.\<close>

function ordered_json :: "json \<Rightarrow> bool" where
  "ordered_json v = (case v of
       Array xs \<Rightarrow> list_all ordered_json xs
     | Object es \<Rightarrow> sorted_wrt (<) (map fst es) \<and> list_all (\<lambda>(_, x). ordered_json x) es
     | _ \<Rightarrow> True)"
  by pat_completeness auto
termination
proof (relation "measure size", goal_cases)
  case (2 v xs x)
  then show ?case using size_list_estimation' [of x xs "size x" size] by auto
next
  case (3 v es e k x)
  then have "(k, x) \<in> set es" by auto
  then have "size x \<le> size_list (size_prod (\<lambda>_. 0) size) es" by (rule size_list_estimation') simp
  with 3 show ?case by simp
qed simp

declare ordered_json.simps [simp del]

lemma ordered_json_simps [simp]:
  "ordered_json (Array xs) \<longleftrightarrow> (\<forall>x \<in> set xs. ordered_json x)"
  "ordered_json (Object es) \<longleftrightarrow> sorted_wrt (<) (map fst es) \<and> (\<forall>(_, x) \<in> set es. ordered_json x)"
  "ordered_json (String s)" "ordered_json (Number n)" "ordered_json (Bool b)" "ordered_json Null"
  by (simp_all add: ordered_json.simps [of "Array xs"] ordered_json.simps [of "Object es"] ordered_json.simps [of "String s"]
      ordered_json.simps [of "Number n"] ordered_json.simps [of "Bool b"] ordered_json.simps [of Null] list_all_iff)

lemma ordered_is_wf: "ordered_json v \<Longrightarrow> wf_json v"
proof (induction v)
  case (Object es)
  then show ?case by (fastforce simp: strict_sorted_iff)
qed auto

lemma obj_insert_keys: "set (map fst (obj_insert k v es)) = insert k (set (map fst es))"
proof (induction es)
  case (Cons e es)
  obtain j u where "e = (j, u)" by force
  with Cons show ?case by (simp add: insert_commute)
qed simp

lemma obj_insert_sorted: "sorted_wrt (<) (map fst es) \<Longrightarrow> sorted_wrt (<) (map fst (obj_insert k v es))"
proof (induction es)
  case (Cons e es)
  obtain j u where e: "e = (j, u)" by force
  from Cons e have IH: "sorted_wrt (<) (map fst (obj_insert k v es))" and less: "\<forall>x \<in> set (map fst es). j < x" by auto
  show ?case
  proof (cases "k \<le> j")
    case True
    then have "\<forall>x \<in> set (map fst es). k < x" using less by (metis order.strict_trans1)
    with True Cons.prems e show ?thesis by auto
  next
    case False
    then have "obj_insert k v (e # es) = e # obj_insert k v es" "\<forall>x \<in> set (map fst (obj_insert k v es)). j < x"
      using e less unfolding obj_insert_keys by auto
    with IH e show ?thesis by simp
  qed
qed simp

lemma sorted_entries_unique:
  fixes xs ys :: "(string \<times> 'v) list"
  assumes "sorted_wrt (<) (map fst xs)" and "sorted_wrt (<) (map fst ys)" and "map_of xs = map_of ys"
  shows "xs = ys"
proof -
  from assms(1,2) have d: "distinct (map fst xs)" "distinct (map fst ys)" "sorted (map fst xs)" "sorted (map fst ys)"
    by (simp_all add: strict_sorted_iff)
  have s: "set xs = set ys" using assms(3) map_of_eq_Some_iff [OF d(1)] map_of_eq_Some_iff [OF d(2)] by auto
  with d have "inj_on fst (set xs \<union> set ys)" by (simp add: distinct_map)
  from map_sorted_distinct_set_unique [OF this d(3,1,4,2) s] show ?thesis .
qed

lemma range_object_id:
  assumes "sorted_wrt (<) (map fst es)" and "\<forall>(k, v) \<in> set es. k \<in> {''gt'', ''gte'', ''lt'', ''lte''} \<and> \<not> is_null v"
  shows "os_range_object es = es"
proof -
  define put where "put range key = (case map_of es key of
     Some v \<Rightarrow> if is_null v then range else obj_insert key v range | None \<Rightarrow> range)" for range key
  have nn: "\<not> is_null v" if "map_of es k = Some v" for k v using assms(2) map_of_SomeD [OF that] by blast
  have keys: "map_of es k = None" if "k \<notin> {''gt'', ''gte'', ''lt'', ''lte''}" for k
    using assms(2) that by (auto simp: map_of_eq_None_iff)
  have put: "map_of (put r key) = (\<lambda>k. if k = key \<and> map_of es k \<noteq> None then map_of es k else map_of r k)"
    "sorted_wrt (<) (map fst r) \<Longrightarrow> sorted_wrt (<) (map fst (put r key))" for r key
    using nn by (auto simp: put_def obj_insert_sorted fun_eq_iff split: option.splits)
  have r: "os_range_object es = put (put (put (put [] ''lt'') ''gt'') ''lte'') ''gte''"
    by (simp add: os_range_object_def put_def)
  have "map_of (os_range_object es) = map_of es"
  proof
    show "map_of (os_range_object es) k = map_of es k" for k
      using keys [of k] by (cases "k \<in> {''gt'', ''gte'', ''lt'', ''lte''}") (auto simp: r put(1))
  qed
  moreover have "sorted_wrt (<) (map fst (os_range_object es))" unfolding r by (intro put(2)) simp
  ultimately show ?thesis using assms(1) sorted_entries_unique by blast
qed

lemma operand_scalar: "match_operand field v = Inr x \<Longrightarrow> is_scalar_value v"
  by (cases v) (auto simp: match_operand_def)

lemma single_query_plain: "kind \<noteq> ''bool'' \<Longrightarrow> plain_filter (single_query kind field v)"
  by (simp add: single_query_def plain_filter.simps [of "Object [(kind, Object [(field, v)])]"])

lemma built_leaf:
  assumes "compile_leaf field body = Inr l" and "ordered_json body"
  shows "\<exists>e. os_leaves shw [(field, body)] = [e] \<and> expected_leaf field body = Inr e \<and> plain_filter e"
proof -
  from assms(1) obtain op crit where body: "body = Object [(op, crit)]" and op: "op = ''match'' \<or> op = ''range''"
    by (auto simp: compile_leaf_def as_object_iff split: option.splits list.splits if_splits)
  have leaves: "os_leaves shw [(field, body)] = (case os_filter shw field op crit of Some f \<Rightarrow> [f] | None \<Rightarrow> [])"
    by (simp add: os_leaves_def body List.map_filter_def split: option.split)
  show ?thesis
  proof (cases "op = ''match''")
    case True
    with assms(1) body have "compile_match field crit = Inr l" by (simp add: compile_leaf_def)
    then obtain key v where crit: "crit = Object [(key, v)]" and c: "match_case field key v l" by (rule compile_match_cases)
    from c have "key = ''text'' \<or> key = ''value'' \<and> is_scalar_value v \<or> key = ''any'' \<and> (\<exists>vs. v = Array vs)"
      unfolding match_case_def using operand_scalar by blast
    then show ?thesis
      unfolding leaves unfolding body crit using True
      by (elim disjE conjE exE) (simp_all add: os_filter_def expected_leaf_def single_query_plain)
  next
    case False
    with assms(1) body op have c: "compile_range field crit = Inr l" by (simp add: compile_leaf_def)
    then obtain es b where crit: "crit = Object es"
      and f: "ffold (put_bound field) (None, None, None, None) es = Inr b"
      by (auto simp: compile_range_def as_object_iff split: option.splits list.splits if_splits)
    obtain gt gte lt lte where b: "b = (gt, gte, lt, lte)" by (cases b)
    have s: "sorted_wrt (<) (map fst es)" using assms(2) body crit by simp
    then have "distinct (map fst es)" by (simp add: strict_sorted_iff)
    from put_bounds [OF f [unfolded b] this] have "\<forall>(k, v) \<in> set es. k \<in> {''gt'', ''gte'', ''lt'', ''lte''} \<and> \<not> is_null v"
      by (fastforce elim: is_null.elims)
    from range_object_id [OF s this] False op show ?thesis
      unfolding leaves unfolding body crit by (simp add: os_filter_def expected_leaf_def single_query_plain)
  qed
qed

lemma os_subfilters_map: "os_subfilters shw xs = concat (map (\<lambda>x. os_subfilters shw [x]) xs)"
  by (induction xs) (simp_all add: os_subfilters.simps(2))

lemma built_group:
  assumes "key = ''and'' \<or> key = ''or''" and "os_subfilters shw xs = fs" and "fs \<noteq> []"
  shows "\<exists>b. os_group shw [(key, Array xs)] = Some (Object [(''bool'', Object b)]) \<and>
    os_slot key (Object [(''bool'', Object b)]) = Inr fs \<and>
    (list_all plain_filter fs \<longrightarrow> plain_filter (Object [(''bool'', Object b)]))"
proof -
  from assms(3) obtain g gs where "fs = g # gs" by (cases fs) auto
  then have n: "nonempty (Some fs) = Some fs" "nonempty None = (None :: json list option)" by (simp_all add: nonempty_def)
  show ?thesis
  proof (cases "key = ''and''")
    case True
    then have "os_group shw [(key, Array xs)] = Some (Object [(''bool'', Object [(''must'', Array fs)])])"
      using n assms(2) by (simp add: os_group.simps group_entries_def bool_query_def)
    then show ?thesis using True by (intro exI conjI impI) (auto simp: os_slot_def)
  next
    case False
    with assms(1) have key: "key = ''or''" by simp
    then have "os_group shw [(key, Array xs)] =
        Some (Object [(''bool'', Object (obj_insert ''minimum_should_match'' (jnat 1) [(''should'', Array fs)]))])"
      using n assms(2) by (simp add: os_group.simps group_entries_def bool_query_def)
    then show ?thesis using key by (intro exI conjI impI) (auto simp: os_slot_def)
  qed
qed

lemma built_accepted:
  assumes "compile_node c = Inr p" and "ordered_json c"
  shows "\<exists>f. os_subfilters shw [c] = [f] \<and> check_opensearch_filter c f = Inr () \<and> plain_filter f"
  using assms
proof (induction c arbitrary: p rule: compile_node.induct)
  case (1 v)
  from 1(2) show ?case
  proof (cases rule: compile_node_InrE)
    case (group key x xs children)
    define body where "body = Array (x # xs)"
    note v = group(1) [folded body_def]
    have "\<exists>f. os_subfilters shw [y] = [f] \<and> check_opensearch_filter y f = Inr () \<and> plain_filter f" if y: "y \<in> set (x # xs)" for y
    proof -
      from list_all2_partner [OF group(3) y] obtain q where "compile_node y = Inr q" by blast
      moreover have "ordered_json y" using 1(3) y unfolding group(1) by auto
      ultimately show ?thesis using 1(1) [OF v refl refl refl group(2) body_def refl y] by blast
    qed
    then obtain F where F: "\<forall>y \<in> set (x # xs). os_subfilters shw [y] = [F y] \<and> check_opensearch_filter y (F y) = Inr () \<and> plain_filter (F y)"
      by metis
    then have eq: "map (\<lambda>y. os_subfilters shw [y]) (x # xs) = map (\<lambda>y. [F y]) (x # xs)" by (intro map_cong) auto
    have "os_subfilters shw (x # xs) = map F (x # xs)"
      unfolding os_subfilters_map [of shw "x # xs"] eq by (rule concat_map_singleton)
    from built_group [OF group(2) this] obtain b where b: "os_group shw [(key, Array (x # xs))] = Some (Object [(''bool'', Object b)])"
      "os_slot key (Object [(''bool'', Object b)]) = Inr (map F (x # xs))"
      "list_all plain_filter (map F (x # xs)) \<longrightarrow> plain_filter (Object [(''bool'', Object b)])" by auto
    have "is_group [(key, Array (x # xs))]" using group(2) by (auto simp: is_group_def)
    then have "os_subfilters shw [v] = [Object [(''bool'', Object b)]]"
      unfolding group(1) by (simp add: os_subfilters.simps(2) b(1))
    moreover have "\<forall>(k, g) \<in> set (zip (x # xs) (map F (x # xs))). check_opensearch_filter k g = Inr ()"
      using F by (auto simp: zip_map2 zip_same_conv_map)
    then have "check_opensearch_filter v (Object [(''bool'', Object b)]) = Inr ()"
      unfolding group(1) check_opensearch_filter.simps [of "Object [(key, Array (x # xs))]"] using group(2) b(2)
      by (auto simp del: zip.simps check_each.simps)
    moreover have "plain_filter (Object [(''bool'', Object b)])" using b(3) F by (simp add: list_all_iff)
    ultimately show ?thesis by blast
  next
    case (leaf key body l)
    have "ordered_json body" using 1(3) leaf(1) by simp
    from built_leaf [OF leaf(4) this] obtain e where e: "os_leaves shw [(key, body)] = [e]" "expected_leaf key body = Inr e" "plain_filter e"
      by blast
    have "\<not> is_group [(key, body)]" using leaf(2,3) by (simp add: is_group_def)
    with e show ?thesis using leaf(2,3) unfolding leaf(1)
      by (simp add: os_subfilters.simps(2) check_opensearch_filter.simps [of "Object [(key, body)]"])
  qed
qed

lemma es_same: "parse_es_conditions shw v = parse_os_conditions shw v" "es_subfilters shw xs = os_subfilters shw xs"
proof (induction shw v and shw xs rule: parse_es_conditions_es_subfilters.induct)
  case (1 shw conditions)
  then show ?case
    by (auto simp: parse_es_conditions.simps [of shw conditions] parse_os_conditions_def os_group.simps split: option.splits)
next
  case (3 shw x xs)
  then show ?case
    by (auto simp: es_subfilters.simps(2) os_subfilters.simps(2) parse_os_conditions_def is_group_def split: option.splits)
qed simp

lemma compiled_group:
  assumes "compile_predicate c = Inr p"
  obtains key x xs where "c = Object [(key, Array (x # xs))]" "key = ''and'' \<or> key = ''or''" "compile_node c = Inr p"
proof -
  from assms obtain es where es: "c = Object es" "\<not> (map_of es ''and'' = None \<and> map_of es ''or'' = None)" "compile_node c = Inr p"
    by (auto simp: compile_predicate_def as_object_iff split: if_splits)
  from es(3) show ?thesis
  proof (cases rule: compile_node_InrE)
    case (group key x xs children)
    then show ?thesis using that es(3) by blast
  next
    case (leaf key body l)
    with es(1,2) show ?thesis by auto
  qed
qed

lemma built_conditions:
  assumes "compile_predicate c = Inr p" and "ordered_json c"
  shows "\<exists>f. parse_os_conditions shw c = Some f \<and> check_opensearch_filter c f = Inr () \<and> plain_filter f"
proof -
  from assms(1) obtain key x xs where c: "c = Object [(key, Array (x # xs))]" "key = ''and'' \<or> key = ''or''" "compile_node c = Inr p"
    by (rule compiled_group)
  then have "is_group [(key, Array (x # xs))]" by (auto simp: is_group_def)
  then have "os_subfilters shw [c] = (case parse_os_conditions shw c of Some f \<Rightarrow> [f] | None \<Rightarrow> [])"
    unfolding c(1) by (simp add: os_subfilters.simps(2) parse_os_conditions_def)
  with built_accepted [OF c(3) assms(2), of shw] show ?thesis by (auto split: option.splits)
qed

section \<open>The builder interface\<close>

text \<open>What the oracle says of a condition: the rows it answers for, with its answer.\<close>

definition oracle_says :: "json \<Rightarrow> row_fields \<times> bool \<Rightarrow> bool" where
  "oracle_says c = (\<lambda>(row, b). exact_row row \<and> (\<exists>p. compile_predicate c = Inr p \<and> pmatches row p = Inr b))"

definition selects :: "(string \<times> json) list \<Rightarrow> json \<Rightarrow> (row_fields \<times> bool \<Rightarrow> bool) \<Rightarrow> bool" where
  "selects schema f says \<longleftrightarrow> (\<forall>row b. says (row, b) \<longrightarrow> os_holds schema row f = b)"

definition fits_engine :: "(string \<times> json) list \<Rightarrow> json \<Rightarrow> bool" where
  "fits_engine schema c \<longleftrightarrow> ordered_json c \<and>
     (\<exists>p. compile_predicate c = Inr p \<and> validate_against_schema p (Some (Object schema)) = Inr ())"

interpretation opensearch_builder: meaningful_builder "parse_os_conditions shw" "selects schema" "fits_engine schema" oracle_says
proof unfold_locales
  fix c assume "fits_engine schema c"
  then obtain p where p: "ordered_json c" "compile_predicate c = Inr p" "validate_against_schema p (Some (Object schema)) = Inr ()"
    by (auto simp: fits_engine_def)
  from p(2) have n: "compile_node c = Inr p" by (rule compiled_group)
  from built_conditions [OF p(2,1)] obtain f where
    f: "parse_os_conditions shw c = Some f" "check_opensearch_filter c f = Inr ()" "plain_filter f" by blast
  from check_means [OF n f(2,3) ordered_is_wf [OF p(1)] validated_fits [OF p(3)]] p(2) have "selects schema f (oracle_says c)"
    by (auto simp: selects_def oracle_says_def)
  with f(1) show "\<exists>f. parse_os_conditions shw c = Some f \<and> selects schema f (oracle_says c)" by blast
qed

text \<open>The engine's name is only used in an error.\<close>

lemma resolve_all_engine:
  "resolve_all qc e parse = (Inr fs :: 'e filter_error + _) \<Longrightarrow> resolve_all qc e' parse = (Inr gs :: 'e filter_error + _) \<Longrightarrow>
    gs = fs"
proof -
  assume r: "resolve_all qc e parse = (Inr fs :: 'e filter_error + _)" "resolve_all qc e' parse = (Inr gs :: 'e filter_error + _)"
  show ?thesis
  proof (rule nth_equalityI)
    show "length gs = length fs" using r by (simp add: resolve_all_def try_resolve_all_Inr_iff)
    fix i assume "i < length gs"
    with r have "resolve_in e (conditions_dataset qc) i (per_query qc ! i) (\<lambda>c. Inr (parse c)) = (Inr (fs ! i) :: 'e filter_error + _)"
      "resolve_in e' (conditions_dataset qc) i (per_query qc ! i) (\<lambda>c. Inr (parse c)) = (Inr (gs ! i) :: 'e filter_error + _)"
      by (simp_all add: resolve_all_def try_resolve_all_Inr_iff)
    then show "gs ! i = fs ! i" by (cases "declared (per_query qc ! i)") (auto simp: resolve_in_Inr_iff)
  qed
qed

section \<open>Properties\<close>

text \<open>
  C15: an accepted OpenSearch filter means the predicate.  When the check accepts a filter for a declared condition
  whose leaves fit the schema, the filter selects exactly the rows the oracle counts as matching, on every row where
  the oracle answers, provided no \<open>bool\<close> query of it has a clause besides \<open>must\<close> and \<open>should\<close>.
\<close>

theorem opensearch_check_means_predicate:
  assumes "compile_predicate c = Inr p" and "validate_against_schema p (Some (Object schema)) = Inr ()"
    and "check_opensearch_filter c f = Inr ()" and "plain_filter f" and "wf_json c"
    and "exact_row row" and "pmatches row p = Inr b"
  shows "os_holds schema row f = b"
proof -
  from assms(1) have "compile_node c = Inr p" by (rule compiled_group)
  from check_means [OF this assms(3-5) validated_fits [OF assms(2)] assms(6,7)] show ?thesis .
qed

definition demo_schema :: "(string \<times> json) list" where
  "demo_schema = [(''body'', String ''text''), (''category'', String ''keyword''), (''tier'', String ''int'')]"

definition demo_os_filter :: json where
  "demo_os_filter = Object [(''bool'', Object [(''must'', Array
     [single_query ''match'' ''category'' (String ''cat00''),
      Object [(''bool'', Object [(''minimum_should_match'', jnat 1), (''should'', Array
        [single_query ''range'' ''tier'' (Object [(''lte'', jnat 3)]), single_query ''match'' ''body'' (String ''health'')])])]])])]"

lemma demo_os_facts:
  "validate_against_schema demo_predicate (Some (Object demo_schema)) = Inr ()"
  "check_opensearch_filter demo_conditions demo_os_filter = Inr ()"
  "plain_filter demo_os_filter" "ordered_json demo_conditions"
  by (simp_all add: demo_schema_def demo_os_filter_def demo_conditions_def demo_predicate_def validate_against_schema_def leaf_fits_def
      single_query_plain clauses_def check_opensearch_filter.simps os_slot_def expected_leaf_def jnat_def)

definition demo_row :: row_fields where
  "demo_row = [''category'' \<mapsto> Keyword_Value ''cat00'', ''tier'' \<mapsto> Int_Value 7, ''body'' \<mapsto> Keyword_Value ''all health'']"

lemma demo_row_facts: "exact_row demo_row" "pmatches demo_row demo_predicate = Inr True"
proof -
  show "exact_row demo_row" by (simp add: exact_row_def demo_row_def)
  have "classify ''all health'' ''health'' = Yes" by code_simp
  then show "pmatches demo_row demo_predicate = Inr True" using rnd64_of_int [of 7]
    by (simp add: demo_row_def demo_predicate_def MAX_EXACT_INTEGER_def none_or_def)
qed

theorem opensearch_check_means_predicate_witness: "os_holds demo_schema demo_row demo_os_filter"
  using opensearch_check_means_predicate [OF demo_compiled demo_os_facts(1-3) ordered_is_wf [OF demo_os_facts(4)] demo_row_facts]
  by simp

text \<open>
  C5: OpenSearch and Elasticsearch count what the oracle counts.  For every set of queries whose declared conditions
  compile and fit the schema, resolution succeeds with either builder and with the same filters; a query that declared
  nothing is unfiltered; and the filter of any other selects a row exactly when the compiled predicate matches it, on
  every row where the oracle answers.
\<close>

theorem opensearch_filters_mean_predicates:
  assumes "\<forall>cond \<in> set (per_query qc). \<forall>c. declared cond = Some c \<longrightarrow> fits_engine schema c"
  shows "\<exists>fs. resolve_all qc ''OpenSearch'' (parse_os_conditions shw) = (Inr fs :: unit filter_error + _) \<and>
    resolve_all qc ''Elasticsearch'' (parse_es_conditions shw) = (Inr fs :: unit filter_error + _) \<and>
    list_all2 (\<lambda>cond qf. case declared cond of
        None \<Rightarrow> filter_as_ref qf = None
      | Some c \<Rightarrow> (\<exists>f. filter_as_ref qf = Some f \<and> (\<forall>row p b. exact_row row \<longrightarrow> compile_predicate c = Inr p \<longrightarrow>
          pmatches row p = Inr b \<longrightarrow> os_holds schema row f = b))) (per_query qc) fs"
proof -
  have *: "resolved_as (selects schema) oracle_says = (\<lambda>cond qf. case declared cond of
        None \<Rightarrow> filter_as_ref qf = None
      | Some c \<Rightarrow> (\<exists>f. filter_as_ref qf = Some f \<and> (\<forall>row p b. exact_row row \<longrightarrow> compile_predicate c = Inr p \<longrightarrow>
          pmatches row p = Inr b \<longrightarrow> os_holds schema row f = b)))"
    by (intro ext) (auto simp: resolved_as_def selects_def oracle_says_def split: option.splits)
  have same: "parse_es_conditions shw = parse_os_conditions shw" by (intro ext) (rule es_same)
  from opensearch_builder.resolves_all [of qc schema "''OpenSearch''" shw] assms obtain fs where
    fs: "resolve_all qc ''OpenSearch'' (parse_os_conditions shw) = (Inr fs :: unit filter_error + _)"
      "list_all2 (resolved_as (selects schema) oracle_says) (per_query qc) fs" by blast
  from opensearch_builder.resolves_all [of qc schema "''Elasticsearch''" shw] assms obtain gs where
    gs: "resolve_all qc ''Elasticsearch'' (parse_os_conditions shw) = (Inr gs :: unit filter_error + _)" by blast
  have "gs = fs" using fs(1) gs by (rule resolve_all_engine)
  with fs gs show ?thesis unfolding same * by blast
qed

theorem opensearch_filters_mean_predicates_witness:
  "\<exists>u f. resolve_all (conditions_new [None, Some demo_conditions]) ''OpenSearch'' (parse_os_conditions (\<lambda>_. ''1000'')) =
      (Inr [u, f] :: unit filter_error + _) \<and> filter_as_ref u = None \<and>
    (\<exists>g. filter_as_ref f = Some g \<and> os_holds demo_schema demo_row g)"
proof -
  have d: "declared None = None" "declared (Some demo_conditions) = Some demo_conditions"
    by (simp_all add: declared_Some_iff declared_None_iff demo_conditions_def)
  have "fits_engine demo_schema demo_conditions"
    unfolding fits_engine_def using demo_compiled demo_os_facts(1,4) by blast
  then have s: "\<forall>cond \<in> set (per_query (conditions_new [None, Some demo_conditions])). \<forall>c. declared cond = Some c \<longrightarrow>
      fits_engine demo_schema c"
    using d by (auto simp: conditions_new_def)
  from opensearch_filters_mean_predicates [where qc = "conditions_new [None, Some demo_conditions]", OF s]
  show ?thesis using demo_compiled demo_row_facts
    by (fastforce simp: conditions_new_def list_all2_Cons1 d)
qed

text \<open>
  C33: the check accepts every filter the builder makes of a condition that compiles, but it does not notice an
  excluding clause.  Whatever \<open>must_not\<close> clauses are added to that filter, the check still accepts it, though it
  then selects no row that one of them matches.
\<close>

theorem added_exclusion_accepted:
  assumes "compile_predicate c = Inr p" and "ordered_json c"
  shows "\<exists>b. parse_os_conditions shw c = Some (Object [(''bool'', Object b)]) \<and>
    check_opensearch_filter c (Object [(''bool'', Object b)]) = Inr () \<and>
    (\<forall>gs. let f = Object [(''bool'', Object (obj_insert ''must_not'' (Array gs) b))]
      in check_opensearch_filter c f = Inr () \<and> (\<forall>schema row. os_holds schema row f \<longrightarrow> (\<forall>g \<in> set gs. \<not> os_holds schema row g)))"
proof -
  from assms(1) obtain key x xs where c: "c = Object [(key, Array (x # xs))]" "key = ''and'' \<or> key = ''or''" "compile_node c = Inr p"
    by (rule compiled_group)
  from built_conditions [OF assms] obtain f where
    f: "parse_os_conditions shw c = Some f" "check_opensearch_filter c f = Inr ()" "plain_filter f" by blast
  from f(2) c(2) obtain fk where "os_slot key f = Inr fk"
    unfolding c(1) check_opensearch_filter.simps [of "Object [(key, Array (x # xs))]"] by (auto split: sum.splits)
  then obtain es where "f = Object es" by (auto simp: os_slot_def jget_Object_iff bind_eq_Some_conv)
  with plain_single f(3) obtain kind b where b0: "f = Object [(kind, Object b)]" by blast
  with \<open>os_slot key f = Inr fk\<close> have b: "f = Object [(''bool'', Object b)]" by (auto simp: os_slot_def split: if_splits)
  have "check_opensearch_filter c (Object [(''bool'', Object (obj_insert ''must_not'' (Array gs) b))]) = Inr ()" for gs
  proof -
    have "os_slot key (Object [(''bool'', Object (obj_insert ''must_not'' (Array gs) b))]) = os_slot key f"
      unfolding b by (simp add: os_slot_def)
    with f(2) c(2) show ?thesis
      unfolding c(1) check_opensearch_filter.simps [of "Object [(key, Array (x # xs))]"] by auto
  qed
  moreover have "\<not> os_holds schema row g" if "os_holds schema row (Object [(''bool'', Object (obj_insert ''must_not'' (Array gs) b))])"
    "g \<in> set gs" for schema row gs g
    using that by (auto simp: list_ex_iff)
  ultimately show ?thesis using f(1,2) b unfolding Let_def by blast
qed

theorem added_exclusion_accepted_witness:
  "\<exists>f. check_opensearch_filter demo_conditions f = Inr () \<and> pmatches demo_row demo_predicate = Inr True \<and>
     \<not> os_holds demo_schema demo_row f"
proof -
  have "os_holds demo_schema demo_row (single_query ''match'' ''category'' (String ''cat00''))"
    by (simp add: single_query_holds demo_row_def demo_schema_def field_type_def)
  with added_exclusion_accepted [OF demo_compiled demo_os_facts(4), of "\<lambda>_. ''1000''"] demo_row_facts(2) show ?thesis
    unfolding Let_def by (metis list.set_intros(1))
qed

end
