(* ===== verification/Spec2Isabelle.thy ===== *)
theory Spec2Isabelle
  imports Prelude Workload F64 Metrics Transition Start_Gate Rrf_Engines Compare_Results Upload_Plan Streamed_Ingest Redis_Filter Filter_Oracle Filter_Only Hybrid_Filter Opensearch_Filter
begin

text \<open>
  A verification development for \<open>vector-db-benchmark\<close>, a client that loads a corpus of vectors with payloads into a
  search engine, runs query workloads against it and scores the answers.  What it reports is only worth something if
  the corpus that was loaded is the corpus on disk, the filters that were sent mean the conditions that were declared,
  the expected counts and neighbours are right, every worker takes part in the timed interval, and a comparison drops no
  query.  The theories model the code that decides these things and prove it.

  \<^bold>\<open>Conventions\<close> (\<open>Prelude\<close>, \<open>Text\<close>, \<open>Json\<close>, \<open>F64\<close>).  \<open>Result<T, E>\<close> is \<open>E + T\<close> with one datatype of errors per component;
  its constructors carry the data the message interpolates, the text of messages is left out.  \<open>?\<close>, \<open>collect\<close> and
  \<open>for\<close> loops with an early return are \<open>rbind\<close>, \<open>traverse\<close>, \<open>check_each\<close> and \<open>ffold\<close>; their simplification rules are the
  collection \<open>result_simps\<close>.  A \<open>String\<close> is its UTF-8 bytes.  \<open>usize\<close> and \<open>u64\<close> are \<open>nat\<close> with saturation and
  wrap-around written out where the code has them, \<open>i64\<close> is \<open>int\<close>, a hash that is computed modulo a power of two is a
  word.  A finite \<open>f64\<close> is the real number it denotes and every operation is followed by \<open>rnd64\<close>, rounding to nearest
  even on 53 bits (\<open>F64\<close>, locale \<open>rounding\<close>); \<open>f64v\<close> adds infinities and NaN where a server may send them.
  \<open>serde_json::Value\<close> and \<open>redis::Value\<close> are the datatypes of \<open>Json\<close>.

  \<^bold>\<open>Planning\<close>.  \<open>Workload\<close> (\<open>workload.rs\<close>): query families, index layouts, the plan made before any connection; the
  locale \<open>fingerprint\<close> is the contract of the result checks.

  \<^bold>\<open>Loading\<close>.  \<open>Npy_Header\<close> and \<open>Payloads\<close> (\<open>readers/npy_reader.rs\<close>, \<open>readers/metadata.rs\<close>): the two files of a corpus.
  \<open>Stream_Reader\<close> (\<open>readers/stream_reader.rs\<close>, \<open>readers/compound_reader.rs\<close>): the streaming and the in-memory reader,
  which accept the same corpora with the same documents.  \<open>Upload_Plan\<close> and \<open>Upload_Stream\<close> (\<open>upload_stream.rs\<close>): which
  reader is used, and the parallel uploader as a step relation, with completeness, a bound on what is in flight and
  termination.  \<open>Indexing_Wait\<close> (\<open>indexing_wait.rs\<close> and the readiness rules of four engines): the locale \<open>readiness\<close> says what a
  rule must promise and is interpreted on each of them.  \<open>Ingest\<close> and \<open>Streamed_Ingest\<close> (\<open>ingest.rs\<close>): the phases that
  are reported, and the composition of upload, wait and phases.  The property of this theory joins them.

  \<^bold>\<open>Running\<close>.  \<open>Transition\<close>: the locales \<open>invariant_system\<close> and \<open>progress_system\<close>, invariants and absence of deadlock of a
  step relation with noise.  \<open>Start_Gate\<close> (\<open>start_gate.rs\<close>) instantiates them for the gate and the pool of searchers:
  mutex, condition variable, tickets, spurious wake-ups, refused threads, panics.

  \<^bold>\<open>Filters\<close>.  \<open>Query_Filter\<close> (\<open>query_filter.rs\<close>): what becomes of a declared condition; the locale \<open>meaningful_builder\<close> is
  what a filter builder owes its queries.  \<open>Redis_Filter\<close> (\<open>engine/redis.rs\<close>, \<open>redis_numeric_range.rs\<close>) and
  \<open>Opensearch_Filter\<close> (\<open>engine/opensearch.rs\<close>, \<open>engine/elasticsearch.rs\<close>) model the builders and interpret that locale over
  the documented meaning of the query languages.  \<open>Text_Match\<close> (\<open>msmarco/text_match.rs\<close>): full-text terms on which two
  engines agree.  \<open>Derived_Predicate\<close> (\<open>msmarco/derived.rs\<close>): the derived fields and the predicate that produces every
  expected count and ground truth, the oracle.  \<open>Filter_Domain\<close> and \<open>Filter_Queries\<close> (\<open>filter_only/domain.rs\<close>,
  \<open>filter_only/query_set.rs\<close>): the common domain, the query set and the count gate.  \<open>Filter_Oracle\<close>: the oracle counts
  what Redis returns under the case-sensitive TAGs of the \<open>filter_only\<close> layout.  \<open>Filter_Only\<close> (\<open>filter_only.rs\<close>): requests, index layouts and pages of the metadata workload.
  \<open>Hybrid_Filter\<close> (\<open>hybrid.rs\<close>): the parser of Redis expressions and the checks that compare a built filter with the
  oracle's predicate; what an accepted filter selects in the \<open>vector\<close> layout, whose TAGs fold case, split and trim, is what the
  predicate matches and at most rows added by that reading of TAGs.

  \<^bold>\<open>Ranking\<close>.  \<open>Metrics\<close> (\<open>metrics.rs\<close>): recall, precision, MRR, NDCG.  \<open>Fulltext_Spec\<close> and \<open>Ranked_Page\<close> (\<open>fulltext.rs\<close>):
  configuration and the validation of ranked replies; the locale \<open>page_reader\<close> covers both engines.  \<open>Hybrid_Rrf\<close> and
  \<open>Rrf_Engines\<close> (\<open>hybrid_rrf.rs\<close>): reciprocal rank fusion, its reference and score, requests and evidence.

  \<^bold>\<open>Comparing\<close>.  \<open>Results_Dump\<close> (\<open>results_dump.rs\<close>) and \<open>Compare_Results\<close> (\<open>compare_results.rs\<close>): the records of a run, written
  and read back, and the verdict over two runs in which every query is accounted for.

  \<^bold>\<open>Termination and fuel\<close>.  Recursive functions are total by structural recursion or a measure.  Three places are not:
  the expression parser of \<open>Hybrid_Filter\<close> takes fuel, \<open>3 * length + 3\<close>, which never runs out (\<open>parse_has_fuel\<close>) and on
  which the answer does not depend; the scan of a command in \<open>Filter_Only\<close> moves by positions modulo \<open>2 ^ 64\<close> and is a
  \<open>partial_function\<close>, which is proved to answer on every command without numbers of \<open>2 ^ 62\<close> or more, and not to answer on
  one with a count that wraps; and the concurrent systems are step
  relations, for which termination is a theorem.

  \<^bold>\<open>Parameters\<close>.  What is not in \<open>src/\<close> is an argument of the definitions that use it: the JSON parser and printer, SHA-256,
  CRC-32, chrono, Unicode case tables, ndarray-npy, the answers and delays of a server, the time a reconnection takes,
  the case folding of its TAGs, the iteration order of a hash map,
  the printing of a double.

  \<^bold>\<open>Not modelled\<close>.  The engine clients beyond the operations named above: they build requests for one server with its
  client library, send them and read the replies, and what is right there is up to the server.  The command line, the
  configuration files and the experiment runner; downloads; summaries and charts; HDF5, JSONL, sparse and multi-vector
  readers; the preparation of MS MARCO; the rows of \<open>hybrid_queries.jsonl\<close> and the evidence read from \<open>FT.PROFILE\<close>;
  generators, benchmarks of the readers and build information.  Of the modelled files: texts of messages, JSON literals of
  result metadata, rendering of finished reports, the distinction of \<open>-0.0\<close> and \<open>0.0\<close>, and I/O errors other than
  missing or short files.
\<close>

section \<open>Properties that span components\<close>

lemma streamed_ingest_ok:
  assumes "exact_layout c l" and "open_stream c nrm = Inr s" and "0 < k"
    and "validate_npy_size_bound (vectors_file c) = Inr ()"
    and "read_npy (vectors_file c) =
      Some (map decode_row (chunks_exact (cols l * 4) (drop (data_offset l) (vectors_file c))))"
    and "(upload_step nr pj k)\<^sup>*\<^sup>* (upload_init par s) st" and "upload_final st"
    and "ingest_streamed epoch t0 t1 t2 rt w (upload_result (rows l) (fst st)) wait = Inr (stats, phases)"
  shows "\<exists>x. read_compound_data read_npy nr pj c nrm = Inr x \<and>
    mset (concat (map (docs \<circ> snd) (acked (fst st)))) = mset (docs x) \<and>
    documents phases = length (docs x) \<and> wait (length (docs x)) = Inr ()"
proof -
  note d = ingest_streamedD [OF assms(8)]
  from upload_complete [where read_npy = read_npy, OF assms(1-7) upload_result_Inr [OF d(1)]] obtain x stats' where
    x: "read_compound_data read_npy nr pj c nrm = Inr x" "upload_result (rows l) (fst st) = Inr stats'"
      "stat_rows stats' = length (docs x)" "mset (concat (map (docs \<circ> snd) (acked (fst st)))) = mset (docs x)"
    by blast
  then have "stat_rows stats = length (docs x)" using d(1) by simp
  with x d(2) index_ready_documents [OF d(3)] show ?thesis by metis
qed

text \<open>
  C1: a streamed Redis ingest that succeeds is complete from the files to the index.  Whatever the
  interleaving of the upload workers and whatever the server answers: the in-memory reader would have
  accepted the corpus, the acknowledged documents are exactly its documents, each once, the document count
  of the reported phases is their number, and the server itself reported at least that many documents
  indexed with no indexing in progress.
\<close>

theorem streamed_ingest_is_complete:
  assumes "exact_layout c l" and "open_stream c nrm = Inr s" and "0 < k"
    and "validate_npy_size_bound (vectors_file c) = Inr ()"
    and "read_npy (vectors_file c) =
      Some (map decode_row (chunks_exact (cols l * 4) (drop (data_offset l) (vectors_file c))))"
    and "(upload_step nr pj k)\<^sup>*\<^sup>* (upload_init par s) st" and "upload_final st"
    and "ingest_streamed epoch t0 t1 t2 rt RedisPercentIndexed (upload_result (rows l) (fst st))
      (\<lambda>n. redis_wait_for_indexing shw env connect ask took recon n UploadTail) = Inr (stats, phases)"
  shows "\<exists>x j info. read_compound_data read_npy nr pj c nrm = Inr x \<and>
    mset (concat (map (docs \<circ> snd) (acked (fst st)))) = mset (docs x) \<and>
    documents phases = length (docs x) \<and> ask j = Inr info \<and> ft_complete shw (length (docs x)) info"
  using streamed_ingest_ok [where read_npy = read_npy and
      wait = "\<lambda>n. redis_wait_for_indexing shw env connect ask took recon n UploadTail", OF assms] redis_wait_indexed
  by blast

text \<open>A server that reports the one document of the sample corpus.\<close>

lemma demo_one_poll:
  "ft_poll (\<lambda>_. []) redis_index_ready 1 (RMap [(SimpleString ''num_docs'', RInt 2), (SimpleString ''indexing'', RInt 0)]) =
     Inr (True, Ft_Progress \<lparr>num_docs = Some 2, indexing = False, percent_indexed = None, ft_state = None,
       ft_fields = [''num_docs'', ''indexing'']\<rparr>)"
  using demo_polls(2) unfolding ft_poll_def redis_index_ready_def ft_info_ready_def
  by (auto simp: Let_def split: option.splits)

lemma demo_one_wait:
  "redis_wait_for_indexing (\<lambda>_. []) None (Inr ())
     (\<lambda>_. Inr (RMap [(SimpleString ''num_docs'', RInt 2), (SimpleString ''indexing'', RInt 0)])) (\<lambda>_. 0) (\<lambda>_. 0) 1 UploadTail = Inr ()"
  using demo_one_poll
  by (simp add: redis_wait_for_indexing_def wait_budget_def parse_override_def redis_wait.simps)

theorem streamed_ingest_is_complete_witness:
  "\<exists>s st x phases. open_stream sample_corpus False = Inr s \<and>
     (upload_step id (\<lambda>_. Some (Object [])) 10)\<^sup>*\<^sup>* (upload_init 1 s) st \<and> upload_final st \<and>
     mset (concat (map (docs \<circ> snd) (acked (fst st)))) = mset (docs x) \<and>
     documents (phases :: ingest_phases) = length (docs x)"
proof -
  let ?rd = "\<lambda>_. Some (map decode_row (chunks_exact (cols sample_f32_layout * 4)
    (drop (data_offset sample_f32_layout) (vectors_file sample_corpus))))"
  let ?ask = "\<lambda>_ :: nat. Inr (RMap [(SimpleString ''num_docs'', RInt 2), (SimpleString ''indexing'', RInt 0)]) :: string + reply"
  let ?wait = "\<lambda>n. redis_wait_for_indexing (\<lambda>_. []) None (Inr ()) ?ask (\<lambda>_. 0) (\<lambda>_. 0) n UploadTail"
  obtain s where s: "open_stream sample_corpus False = Inr s"
    by (simp add: open_stream_def sample_corpus_def sample_layout)
  with sample_run obtain st where st: "(upload_step id (\<lambda>_. Some (Object [])) 10)\<^sup>*\<^sup>* (upload_init 1 s) st"
    "upload_final st" "upload_failure (fst st) = None" by blast
  have b: "validate_npy_size_bound (vectors_file sample_corpus) = Inr ()"
    by (simp add: sample_corpus_def sample_bound)
  from upload_complete [OF sample_exact s _ b _ st, of ?rd] obtain x stats where
    x: "upload_result (rows sample_f32_layout) (fst st) = Inr stats" by auto
  then have n: "stat_rows stats = 1"
    by (auto simp: upload_result_def sample_f32_layout_def split: option.splits if_splits)
  obtain p where p: "index_ready 5 1 0 RedisPercentIndexed (snd (upload_done 3 (clock_new 1700000000 1))) = Inr p"
    using one_clock_phases [of "snd (upload_done 3 (clock_new 1700000000 1))" 3 5 0 1 RedisPercentIndexed]
    by (auto simp: upload_done_def clock_new_def)
  have "ingest_streamed 1700000000 1 3 5 0 RedisPercentIndexed (upload_result (rows sample_f32_layout) (fst st)) ?wait =
      Inr (stats, p)"
    using x n p demo_one_wait by (simp add: ingest_streamed_def Let_def)
  from streamed_ingest_is_complete [OF sample_exact s _ b _ st(1,2) this, of ?rd] obtain x' where
    "mset (concat (map (docs \<circ> snd) (acked (fst st)))) = mset (docs x')" "documents p = length (docs x')" by auto
  with s st(1,2) show ?thesis by blast
qed

end
